(* ===== verification/Prelude.thy ===== *)
theory Prelude
  imports Main "HOL-Library.Word"
begin

text \<open>
  What every component shares: bytes and byte slices, Go's \<^verbatim>\<open>error\<close> values, the
  big-endian integer codecs of \<^verbatim>\<open>encoding/binary\<close>, and generic lemmas on lists.

  A Go \<^verbatim>\<open>error\<close> is a value of type \<open>go_error\<close>. The sentinel errors of the standard library
  that the program tests for are constructors; \<^verbatim>\<open>errors.New\<close> and \<^verbatim>\<open>fmt.Errorf\<close> with integer
  arguments are \<open>Errorf\<close> with the format string and its arguments, \<^verbatim>\<open>fmt.Errorf\<close> with a
  \<^verbatim>\<open>%w\<close> verb is \<open>Wrapf\<close> with the format string and the wrapped error.
\<close>

unbundle bit_operations_syntax

type_synonym byte = "8 word"
type_synonym bytes = "byte list"

datatype go_error =
    EOF
  | UnexpectedEOF
  | ClosedPipe
  | Errorf string "int list"
  | Wrapf string go_error

named_theorems be_simps "round trips of the big-endian codecs"

section \<open>Big-endian integers\<close>

definition put_be16 :: "16 word \<Rightarrow> bytes" where
  "put_be16 w = [ucast (drop_bit 8 w), ucast w]"

definition get_be16 :: "bytes \<Rightarrow> 16 word" where
  "get_be16 b = push_bit 8 (ucast (b ! 0)) OR ucast (b ! 1)"

definition put_be32 :: "32 word \<Rightarrow> bytes" where
  "put_be32 w = [ucast (drop_bit 24 w), ucast (drop_bit 16 w), ucast (drop_bit 8 w), ucast w]"

definition get_be32 :: "bytes \<Rightarrow> 32 word" where
  "get_be32 b = push_bit 24 (ucast (b ! 0)) OR push_bit 16 (ucast (b ! 1))
     OR push_bit 8 (ucast (b ! 2)) OR ucast (b ! 3)"

lemma length_put_be16 [simp]: "length (put_be16 w) = 2"
  by (simp add: put_be16_def)

lemma length_put_be32 [simp]: "length (put_be32 w) = 4"
  by (simp add: put_be32_def)

lemma get_put_be16 [be_simps, simp]: "get_be16 (put_be16 w) = w"
  by (rule bit_word_eqI) (auto simp: get_be16_def put_be16_def bit_simps not_less)

lemma get_put_be32 [be_simps, simp]: "get_be32 (put_be32 w) = w"
proof (rule bit_word_eqI)
  fix n
  assume "n < LENGTH(32)"
  then consider "n < 8" | "8 \<le> n" "n < 16" | "16 \<le> n" "n < 24" | "24 \<le> n" "n < 32"
    by fastforce
  then show "bit (get_be32 (put_be32 w)) n = bit w n"
    by cases (auto simp: get_be32_def put_be32_def bit_simps)
qed

lemma byte_bit_high [simp]: "8 \<le> n \<Longrightarrow> \<not> bit (b :: byte) n"
  using bit_imp_le_length [of b n] by auto

lemma put_get_be16_pair: "put_be16 (get_be16 [a, b]) = [a, b]"
  by (auto simp: get_be16_def put_be16_def bit_simps intro!: bit_word_eqI)

lemma put_get_be32_quad: "put_be32 (get_be32 [a, b, c, d]) = [a, b, c, d]"
  by (auto simp: get_be32_def put_be32_def bit_simps intro!: bit_word_eqI)

lemma put_get_be16 [be_simps]: "length b = 2 \<Longrightarrow> put_be16 (get_be16 b) = b"
  by (auto simp: numeral_2_eq_2 length_Suc_conv put_get_be16_pair)

lemma put_get_be32 [be_simps]: "length b = 4 \<Longrightarrow> put_be32 (get_be32 b) = b"
  by (auto simp: eval_nat_numeral length_Suc_conv put_get_be32_quad)

lemma unat_of_nat16 [simp]: "n \<le> 65535 \<Longrightarrow> unat (word_of_nat n :: 16 word) = n"
  by (simp add: unat_of_nat)

lemma unat16_le [simp]: "unat (w :: 16 word) \<le> 65535"
  using unsigned_less [of w, where ?'a = nat] by simp

lemma unat_of_nat32 [simp]: "n < 4294967296 \<Longrightarrow> unat (word_of_nat n :: 32 word) = n"
  by (simp add: unat_of_nat)

section \<open>Lists\<close>

text \<open>A sublist of a byte slice, \<^verbatim>\<open>b[from:to]\<close> with both ends in range.\<close>

definition subslice :: "nat \<Rightarrow> nat \<Rightarrow> 'a list \<Rightarrow> 'a list" where
  "subslice from to xs = take (to - from) (drop from xs)"

lemma length_subslice [simp]: "to \<le> length xs \<Longrightarrow> length (subslice from to xs) = to - from"
  by (simp add: subslice_def)

lemma subslice_append: "i \<le> j \<Longrightarrow> j \<le> k \<Longrightarrow> subslice i j xs @ subslice j k xs = subslice i k xs"
proof -
  assume "i \<le> j" "j \<le> k"
  then obtain a b where "j = i + a" and "k = i + a + b"
    by (metis le_Suc_ex)
  then show ?thesis
    by (simp add: subslice_def take_add add.commute)
qed

lemma subslice_all [simp]: "length xs \<le> n \<Longrightarrow> subslice 0 n xs = xs"
  by (simp add: subslice_def)

section \<open>Log levels\<close>

text \<open>The \<^verbatim>\<open>-log-level\<close> flag, which the three programs read the same way.\<close>

datatype log_level = Level_debug | Level_info | Level_warn | Level_error

definition parse_log_level :: "string \<Rightarrow> log_level" where
  "parse_log_level s =
     (if s = ''debug'' then Level_debug
      else if s = ''warn'' then Level_warn
      else if s = ''error'' then Level_error
      else Level_info)"

end
