(* ===== verification/Go_IO.thy ===== *)
theory Go_IO
  imports Prelude
begin

text \<open>
  The byte-stream interfaces of Go's standard library that the protocol layers are written
  against: \<^verbatim>\<open>io.Reader\<close>, \<^verbatim>\<open>io.Writer\<close>, \<^verbatim>\<open>io.ReadFull\<close> and \<^verbatim>\<open>io.Pipe\<close>.

  A reader is a function from its state and the length of the caller's buffer to the new
  state, the bytes copied into the buffer and the returned error; \<open>None\<close> is a call that never
  returns. A writer is a function from its state and the bytes to the new state, the returned
  count and the returned error. The locale \<open>byte_source\<close> is the contract a reader owes
  its clients: the bytes still to come are a list, handed out from the front in pieces of any
  size, and the final error is reported once they are used up. The locale \<open>byte_sink\<close> is the
  contract of a writer. \<^verbatim>\<open>io.Pipe\<close> provides both.
\<close>

type_synonym 'r reader = "'r \<Rightarrow> nat \<Rightarrow> ('r \<times> bytes \<times> go_error option) option"
type_synonym 'w writer = "'w \<Rightarrow> bytes \<Rightarrow> 'w \<times> nat \<times> go_error option"

section \<open>Reading exactly as many bytes as asked for\<close>

text \<open>
  The loop of \<^verbatim>\<open>io.ReadAtLeast\<close> with the buffer length as minimum: read into what is left of
  the buffer until it is full or the reader reports an error.
\<close>

partial_function (option) read_loop ::
  "'r reader \<Rightarrow> 'r \<Rightarrow> nat \<Rightarrow> bytes \<Rightarrow> ('r \<times> bytes \<times> go_error option) option" where
  "read_loop rd r m acc =
     (if m \<le> length acc then Some (r, acc, None)
      else (case rd r (m - length acc) of
          None \<Rightarrow> None
        | Some (r', d, e) \<Rightarrow>
            (case e of
               None \<Rightarrow> read_loop rd r' m (acc @ d)
             | Some er \<Rightarrow> Some (r', acc @ d, Some er))))"

definition io_read_full :: "'r reader \<Rightarrow> 'r \<Rightarrow> nat \<Rightarrow> ('r \<times> bytes \<times> go_error option) option" where
  "io_read_full rd r m =
     (case read_loop rd r m [] of
        None \<Rightarrow> None
      | Some (r', got, e) \<Rightarrow>
          Some (r', got,
            if m \<le> length got then None
            else if got \<noteq> [] \<and> e = Some EOF then Some UnexpectedEOF
            else e))"

text \<open>The error \<^verbatim>\<open>io.ReadFull\<close> reports when the stream ends after \<open>got\<close> with error \<open>fin\<close>.\<close>

definition short_error :: "bytes \<Rightarrow> go_error \<Rightarrow> go_error" where
  "short_error got fin = (if got \<noteq> [] \<and> fin = EOF then UnexpectedEOF else fin)"

section \<open>The contract of a byte source\<close>

locale byte_source =
  fixes read :: "'r reader"
    and pending :: "'r \<Rightarrow> bytes"
    and final :: "'r \<Rightarrow> go_error"
    and weight :: "'r \<Rightarrow> nat"
  assumes read_returns: "0 < n \<Longrightarrow> read r n \<noteq> None"
    and read_ok: "0 < n \<Longrightarrow> read r n = Some (r', d, None) \<Longrightarrow>
        pending r = d @ pending r' \<and> final r' = final r \<and> weight r' < weight r \<and> length d \<le> n"
    and read_err: "0 < n \<Longrightarrow> read r n = Some (r', d, Some e) \<Longrightarrow>
        d = [] \<and> pending r = [] \<and> e = final r"
begin

lemma read_loop_enough:
  "m - length acc \<le> length (pending r) \<Longrightarrow> length acc \<le> m \<Longrightarrow>
   \<exists>r'. read_loop read r m acc = Some (r', acc @ take (m - length acc) (pending r), None) \<and>
     pending r' = drop (m - length acc) (pending r) \<and> final r' = final r \<and> weight r' \<le> weight r"
proof (induction "weight r" arbitrary: r acc rule: less_induct)
  case less
  show ?case
  proof (cases "m \<le> length acc")
    case True
    with less.prems show ?thesis by (subst read_loop.simps) simp
  next
    case False
    then have pos: "0 < m - length acc" by simp
    obtain r1 d e where rd: "read r (m - length acc) = Some (r1, d, e)"
      using read_returns [OF pos, of r] by (metis not_None_eq prod_cases3)
    have e: "e = None"
      using read_err [OF pos, of r r1 d] rd less.prems(1) pos by (cases e) auto
    note ok = read_ok [OF pos rd [unfolded e]]
    have "\<exists>r'. read_loop read r1 m (acc @ d) =
          Some (r', (acc @ d) @ take (m - length (acc @ d)) (pending r1), None) \<and>
        pending r' = drop (m - length (acc @ d)) (pending r1) \<and> final r' = final r1 \<and>
        weight r' \<le> weight r1"
      using ok less.prems by (intro less.hyps) auto
    with ok rd e False show ?thesis
      by (subst read_loop.simps) (fastforce simp: Suc_diff_le)
  qed
qed

lemma read_loop_short:
  "length (pending r) < m - length acc \<Longrightarrow>
   \<exists>r'. read_loop read r m acc = Some (r', acc @ pending r, Some (final r))"
proof (induction "weight r" arbitrary: r acc rule: less_induct)
  case less
  then have pos: "0 < m - length acc" by simp
  obtain r1 d e where rd: "read r (m - length acc) = Some (r1, d, e)"
    using read_returns [OF pos, of r] by (metis not_None_eq prod_cases3)
  show ?case
  proof (cases e)
    case None
    note ok = read_ok [OF pos rd [unfolded None]]
    have "\<exists>r'. read_loop read r1 m (acc @ d) = Some (r', (acc @ d) @ pending r1, Some (final r1))"
      using ok less.prems by (intro less.hyps) auto
    with ok rd None pos show ?thesis
      by (subst read_loop.simps) auto
  next
    case (Some er)
    with read_err [OF pos rd [unfolded Some]] rd pos show ?thesis
      by (subst read_loop.simps) auto
  qed
qed

text \<open>
  What a client of \<^verbatim>\<open>io.ReadFull\<close> sees of a lawful source, however the bytes are cut into
  pieces on the way: either exactly the next \<open>m\<close> bytes, or all that is left and the error.
\<close>

lemma read_full_enough:
  assumes "m \<le> length (pending r)"
  shows "\<exists>r'. io_read_full read r m = Some (r', take m (pending r), None) \<and>
    pending r' = drop m (pending r) \<and> final r' = final r \<and> weight r' \<le> weight r"
  using read_loop_enough [of m "[]" r] assms by (fastforce simp: io_read_full_def)

lemma read_full_short:
  assumes "length (pending r) < m"
  shows "\<exists>r'. io_read_full read r m =
    Some (r', pending r, Some (short_error (pending r) (final r)))"
  using read_loop_short [of r m "[]"] assms by (fastforce simp: io_read_full_def short_error_def)

end

text \<open>
  A source whose end is permanent: after an error it has nothing more to give and will report
  the same error again.
\<close>

locale sticky_source = byte_source read pending final weight
  for read :: "'r reader" and pending :: "'r \<Rightarrow> bytes" and final :: "'r \<Rightarrow> go_error"
    and weight :: "'r \<Rightarrow> nat" +
  assumes read_err_stays: "0 < n \<Longrightarrow> read r n = Some (r', d, Some e) \<Longrightarrow>
        pending r' = [] \<and> final r' = final r \<and> weight r' \<le> weight r"
begin

lemma read_loop_drained:
  "length (pending r) < m - length acc \<Longrightarrow>
   \<exists>r'. read_loop read r m acc = Some (r', acc @ pending r, Some (final r)) \<and>
     pending r' = [] \<and> final r' = final r"
proof (induction "weight r" arbitrary: r acc rule: less_induct)
  case less
  then have pos: "0 < m - length acc" by simp
  obtain r1 d e where rd: "read r (m - length acc) = Some (r1, d, e)"
    using read_returns [OF pos, of r] by (metis not_None_eq prod_cases3)
  show ?case
  proof (cases e)
    case None
    note ok = read_ok [OF pos rd [unfolded None]]
    have "\<exists>r'. read_loop read r1 m (acc @ d) = Some (r', (acc @ d) @ pending r1, Some (final r1)) \<and>
        pending r' = [] \<and> final r' = final r1"
      using ok less.prems by (intro less.hyps) auto
    with ok rd None pos show ?thesis
      by (subst read_loop.simps) auto
  next
    case (Some er)
    with read_err [OF pos rd [unfolded Some]] read_err_stays [OF pos rd [unfolded Some]] rd pos
    show ?thesis by (subst read_loop.simps) auto
  qed
qed

lemma read_full_drained:
  assumes "length (pending r) < m"
  shows "\<exists>r'. io_read_full read r m =
      Some (r', pending r, Some (short_error (pending r) (final r))) \<and>
    pending r' = [] \<and> final r' = final r"
  using read_loop_drained [of r m "[]"] assms by (fastforce simp: io_read_full_def short_error_def)

end

section \<open>The contract of a byte sink\<close>

text \<open>
  \<open>sent w\<close> is what the peer will have received; a successful write appends the bytes, a
  failed write leaves what was sent before untouched.
\<close>

locale byte_sink =
  fixes put :: "'w writer"
    and sent :: "'w \<Rightarrow> bytes"
    and inv :: "'w \<Rightarrow> bool"
  assumes write_ok: "inv w \<Longrightarrow> put w p = (w', n, None) \<Longrightarrow> sent w' = sent w @ p \<and> inv w'"
    and write_err: "inv w \<Longrightarrow> put w p = (w', n, Some e) \<Longrightarrow> sent w' = sent w"

text \<open>Consecutive writes, given up at the first error.\<close>

fun write_all :: "'w writer \<Rightarrow> 'w \<Rightarrow> bytes list \<Rightarrow> 'w option" where
  "write_all put w [] = Some w"
| "write_all put w (p # ps) =
     (case put w p of (w', n, None) \<Rightarrow> write_all put w' ps | (w', n, Some e) \<Rightarrow> None)"

context byte_sink begin

lemma write_all_sent:
  "inv w \<Longrightarrow> write_all put w ps = Some w' \<Longrightarrow> sent w' = sent w @ concat ps \<and> inv w'"
  by (induction ps arbitrary: w) (auto dest: write_ok split: prod.splits option.splits)

end

text \<open>
  A sink that takes every write up to \<open>limit\<close> bytes as long as its budget of writes lasts.
\<close>

locale reliable_sink = byte_sink put sent inv
  for put :: "'w writer" and sent :: "'w \<Rightarrow> bytes" and inv :: "'w \<Rightarrow> bool" +
  fixes limit :: nat
    and budget :: "'w \<Rightarrow> nat"
  assumes put_succeeds: "inv w \<Longrightarrow> length p \<le> limit \<Longrightarrow> 0 < budget w \<Longrightarrow>
        \<exists>w' n. put w p = (w', n, None) \<and> budget w \<le> Suc (budget w')"

section \<open>Pipes\<close>

text \<open>
  The two ends of an \<^verbatim>\<open>io.Pipe\<close> (and of the HTTP/2 body streams, which behave alike): the
  write end records each chunk written until it is closed; the read end holds the chunks that
  will arrive and the error that ends the stream, and one \<^verbatim>\<open>Read\<close> never crosses a chunk.
\<close>

record pipe_out =
  out_chunks :: "bytes list"
  out_closed :: bool

record pipe_in =
  in_chunks :: "bytes list"
  in_end :: go_error

definition pipe_write :: "pipe_out writer" where
  "pipe_write w p =
     (if out_closed w then (w, 0, Some ClosedPipe)
      else (w\<lparr>out_chunks := out_chunks w @ [p]\<rparr>, length p, None))"

definition pipe_close :: "pipe_out \<Rightarrow> pipe_out" where
  "pipe_close w = w\<lparr>out_closed := True\<rparr>"

definition pipe_read :: "pipe_in reader" where
  "pipe_read r n =
     (case in_chunks r of
        [] \<Rightarrow> Some (r, [], Some (in_end r))
      | c # cs \<Rightarrow>
          if length c \<le> n then Some (r\<lparr>in_chunks := cs\<rparr>, c, None)
          else Some (r\<lparr>in_chunks := drop n c # cs\<rparr>, take n c, None))"

text \<open>The read end of a pipe whose write end produced \<open>w\<close> and was then closed.\<close>

definition pipe_join :: "pipe_out \<Rightarrow> pipe_in" where
  "pipe_join w = \<lparr>in_chunks = out_chunks w, in_end = EOF\<rparr>"

definition pipe_sent :: "pipe_out \<Rightarrow> bytes" where
  "pipe_sent w = concat (out_chunks w)"

definition pipe_pending :: "pipe_in \<Rightarrow> bytes" where
  "pipe_pending r = concat (in_chunks r)"

definition pipe_weight :: "pipe_in \<Rightarrow> nat" where
  "pipe_weight r = length (in_chunks r) + length (concat (in_chunks r))"

lemma pipe_pending_join [simp]: "pipe_pending (pipe_join w) = pipe_sent w"
  by (simp add: pipe_pending_def pipe_join_def pipe_sent_def)

lemma in_end_join [simp]: "in_end (pipe_join w) = EOF"
  by (simp add: pipe_join_def)

interpretation pipe: sticky_source pipe_read pipe_pending in_end pipe_weight
  by unfold_locales
    (auto simp: pipe_read_def pipe_pending_def pipe_weight_def split: list.splits if_splits)

interpretation pipe_end: byte_sink pipe_write pipe_sent "\<lambda>_. True"
  by unfold_locales (auto simp: pipe_write_def pipe_sent_def split: if_splits)

text \<open>An open pipe takes everything; its budget can be any number.\<close>

interpretation open_pipe: reliable_sink pipe_write pipe_sent "\<lambda>w. \<not> out_closed w" limit "\<lambda>_. budget"
    for limit budget
  by unfold_locales (auto simp: pipe_write_def pipe_sent_def split: if_splits)

section \<open>A reader and a writer in one\<close>

text \<open>
  \<^verbatim>\<open>pipeReadWriter\<close> of \<^verbatim>\<open>cmd/ghost-server/main.go\<close>. \<^verbatim>\<open>Close\<close> closes the parts that are closers, reader first, and
  reports no error; \<open>None\<close> is a part without \<^verbatim>\<open>Close\<close>.
\<close>

record ('r, 'w) pipe_read_writer =
  prw_r :: 'r
  prw_w :: 'w

definition prw_read :: "'r reader \<Rightarrow> ('r, 'w) pipe_read_writer reader" where
  "prw_read rd p n =
     (case rd (prw_r p) n of None \<Rightarrow> None | Some (r', d, e) \<Rightarrow> Some (p\<lparr>prw_r := r'\<rparr>, d, e))"

definition prw_write :: "'w writer \<Rightarrow> ('r, 'w) pipe_read_writer writer" where
  "prw_write wr p b = (case wr (prw_w p) b of (w', n, e) \<Rightarrow> (p\<lparr>prw_w := w'\<rparr>, n, e))"

definition prw_close ::
  "('r \<Rightarrow> 'r \<times> go_error option) option \<Rightarrow> ('w \<Rightarrow> 'w \<times> go_error option) option \<Rightarrow>
   ('r, 'w) pipe_read_writer \<Rightarrow> ('r, 'w) pipe_read_writer \<times> go_error option" where
  "prw_close cr cw p =
     (let p1 = (case cr of None \<Rightarrow> p | Some cls \<Rightarrow> p\<lparr>prw_r := fst (cls (prw_r p))\<rparr>)
      in (case cw of None \<Rightarrow> p1 | Some cls \<Rightarrow> p1\<lparr>prw_w := fst (cls (prw_w p1))\<rparr>, None))"

lemma prw_steps:
  "prw_read rd p n = Some (p', d, e) \<longleftrightarrow> (\<exists>r'. rd (prw_r p) n = Some (r', d, e) \<and> p' = p\<lparr>prw_r := r'\<rparr>)"
  "prw_write wr p b = (p', m, e) \<longleftrightarrow> (\<exists>w'. wr (prw_w p) b = (w', m, e) \<and> p' = p\<lparr>prw_w := w'\<rparr>)"
  by (auto simp: prw_read_def prw_write_def split: option.split prod.split)

text \<open>Reading it is reading the one part, writing it writing the other, and neither disturbs the other.\<close>

lemma prw_independent:
  "prw_read rd p n = Some (p', d, e) \<Longrightarrow> prw_w p' = prw_w p"
  "prw_write wr p b = (p', m, e) \<Longrightarrow> prw_r p' = prw_r p"
  by (auto simp: prw_steps)

context sticky_source begin

lemma prw_source:
  "sticky_source (prw_read read) (\<lambda>p. pending (prw_r p)) (\<lambda>p. final (prw_r p)) (\<lambda>p. weight (prw_r p))"
proof
  show "prw_read read p n \<noteq> None" if "0 < n" for p :: "('r, 'w) pipe_read_writer" and n
    using read_returns [OF that] by (auto simp: prw_read_def split: option.split)
  show "pending (prw_r p) = d @ pending (prw_r p') \<and> final (prw_r p') = final (prw_r p) \<and>
      weight (prw_r p') < weight (prw_r p) \<and> length d \<le> n"
    if "0 < n" "prw_read read p n = Some (p', d, None)" for p p' :: "('r, 'w) pipe_read_writer" and n d
    using that(2) read_ok [OF that(1)] by (auto simp: prw_steps)
  show "d = [] \<and> pending (prw_r p) = [] \<and> e = final (prw_r p)"
    if "0 < n" "prw_read read p n = Some (p', d, Some e)" for p p' :: "('r, 'w) pipe_read_writer" and n d e
    using that(2) read_err [OF that(1)] by (auto simp: prw_steps)
  show "pending (prw_r p') = [] \<and> final (prw_r p') = final (prw_r p) \<and> weight (prw_r p') \<le> weight (prw_r p)"
    if "0 < n" "prw_read read p n = Some (p', d, Some e)" for p p' :: "('r, 'w) pipe_read_writer" and n d e
    using that(2) read_err_stays [OF that(1)] by (auto simp: prw_steps)
qed

end

context reliable_sink begin

lemma prw_sink:
  "reliable_sink (prw_write put) (\<lambda>p. sent (prw_w p)) (\<lambda>p. inv (prw_w p)) limit (\<lambda>p. budget (prw_w p))"
proof
  show "sent (prw_w p') = sent (prw_w p) @ b \<and> inv (prw_w p')"
    if "inv (prw_w p)" "prw_write put p b = (p', n, None)" for p p' :: "('r, 'w) pipe_read_writer" and b n
    using that(2) write_ok [OF that(1)] by (auto simp: prw_steps)
  show "sent (prw_w p') = sent (prw_w p)"
    if "inv (prw_w p)" "prw_write put p b = (p', n, Some e)" for p p' :: "('r, 'w) pipe_read_writer" and b n e
    using that(2) write_err [OF that(1)] by (auto simp: prw_steps)
  show "\<exists>p' n. prw_write put p b = (p', n, None) \<and> budget (prw_w p) \<le> Suc (budget (prw_w p'))"
    if "inv (prw_w p)" "length b \<le> limit" "0 < budget (prw_w p)" for p :: "('r, 'w) pipe_read_writer" and b
    using put_succeeds [OF that] by (auto simp: prw_steps)
qed

end

interpretation prw: sticky_source "prw_read pipe_read" "\<lambda>p. pipe_pending (prw_r p)" "\<lambda>p. in_end (prw_r p)"
    "\<lambda>p. pipe_weight (prw_r p)"
  by (rule pipe.prw_source)

interpretation prw_end: reliable_sink "prw_write pipe_write" "\<lambda>p. pipe_sent (prw_w p)" "\<lambda>p. \<not> out_closed (prw_w p)"
    limit "\<lambda>_. budget"
  for limit budget
  by (rule open_pipe.prw_sink)

end
