(* ===== verification/Mux_Frame.thy ===== *)
theory Mux_Frame
  imports Go_IO
begin

text \<open>
  The L4 wire format, \<^verbatim>\<open>internal/mux/frame.go\<close> and \<^verbatim>\<open>internal/mux/codec.go\<close>: the frame type, the
  encoder (one \<^verbatim>\<open>Write\<close> per frame) and the decoder (two \<^verbatim>\<open>io.ReadFull\<close> calls per frame).
  \<open>parse_frame\<close> and \<open>parse_all\<close> say on plain byte lists what the decoder must do; inside
  \<open>byte_source\<close> the decoder is shown to do exactly that over any lawful reader.
\<close>

section \<open>Frames\<close>

definition header_size :: nat where
  "header_size = 8"

definition max_payload :: nat where
  "max_payload = 65535"

definition protocol_version :: byte where
  "protocol_version = 0x01"

definition type_data :: byte where "type_data = 0x00"
definition type_window_update :: byte where "type_window_update = 0x01"
definition type_stream_open :: byte where "type_stream_open = 0x02"
definition type_stream_close :: byte where "type_stream_close = 0x03"
definition type_ping :: byte where "type_ping = 0x04"
definition type_padding :: byte where "type_padding = 0x05"
definition type_migrate :: byte where "type_migrate = 0x06"
definition type_pong :: byte where "type_pong = 0x07"

lemmas frame_type_defs =
  type_data_def type_window_update_def type_stream_open_def type_stream_close_def
  type_ping_def type_padding_def type_migrate_def type_pong_def

definition frame_type_string :: "byte \<Rightarrow> string" where
  "frame_type_string t =
     (if t = type_data then ''DATA''
      else if t = type_window_update then ''WINDOW_UPDATE''
      else if t = type_stream_open then ''STREAM_OPEN''
      else if t = type_stream_close then ''STREAM_CLOSE''
      else if t = type_ping then ''PING''
      else if t = type_padding then ''PADDING''
      else if t = type_migrate then ''MIGRATE''
      else if t = type_pong then ''PONG''
      else ''UNKNOWN'')"

record frame =
  version :: byte
  ftype :: byte
  stream_id :: "32 word"
  payload :: bytes

section \<open>Encoder\<close>

text \<open>The buffer \<^verbatim>\<open>WriteFrame\<close> builds; the length field is the payload length as a \<^verbatim>\<open>uint16\<close>.\<close>

definition encode_frame :: "frame \<Rightarrow> bytes" where
  "encode_frame f =
     [version f, ftype f] @ put_be32 (stream_id f) @
     put_be16 (word_of_nat (length (payload f))) @ payload f"

definition payload_error :: "nat \<Rightarrow> go_error" where
  "payload_error n = Errorf ''mux: payload %d exceeds max %d'' [int n, int max_payload]"

definition write_frame :: "'w writer \<Rightarrow> 'w \<Rightarrow> frame \<Rightarrow> 'w \<times> go_error option" where
  "write_frame wr w f =
     (if max_payload < length (payload f) then (w, Some (payload_error (length (payload f))))
      else (case wr w (encode_frame f) of (w', n, e) \<Rightarrow> (w', e)))"

section \<open>Decoder\<close>

definition version_error :: "byte \<Rightarrow> go_error" where
  "version_error v = Errorf ''mux: unsupported version %#x'' [uint v]"

definition read_frame :: "'r reader \<Rightarrow> 'r \<Rightarrow> ('r \<times> (go_error + frame)) option" where
  "read_frame rd r =
     (case io_read_full rd r header_size of
        None \<Rightarrow> None
      | Some (r1, header, Some e) \<Rightarrow> Some (r1, Inl e)
      | Some (r1, header, None) \<Rightarrow>
          if header ! 0 \<noteq> protocol_version then Some (r1, Inl (version_error (header ! 0)))
          else
            let t = header ! 1;
                sid = get_be32 (subslice 2 6 header);
                len = unat (get_be16 (subslice 6 8 header))
            in if 0 < len
               then (case io_read_full rd r1 len of
                   None \<Rightarrow> None
                 | Some (r2, p, Some e) \<Rightarrow> Some (r2, Inl (Wrapf ''mux: payload read: %w'' e))
                 | Some (r2, p, None) \<Rightarrow>
                     Some (r2, Inr \<lparr>version = header ! 0, ftype = t, stream_id = sid, payload = p\<rparr>))
               else Some (r1, Inr \<lparr>version = header ! 0, ftype = t, stream_id = sid, payload = []\<rparr>))"

section \<open>What the decoder does, on byte lists\<close>

definition valid_frame :: "frame \<Rightarrow> bool" where
  "valid_frame f \<longleftrightarrow> version f = protocol_version \<and> length (payload f) \<le> max_payload"

definition parse_frame :: "bytes \<Rightarrow> go_error \<Rightarrow> go_error + frame \<times> bytes" where
  "parse_frame bs fin =
     (if length bs < header_size then Inl (short_error bs fin)
      else if bs ! 0 \<noteq> protocol_version then Inl (version_error (bs ! 0))
      else
        let len = unat (get_be16 (subslice 6 8 bs)); body = drop header_size bs
        in if length body < len
           then Inl (Wrapf ''mux: payload read: %w'' (short_error body fin))
           else Inr (\<lparr>version = bs ! 0, ftype = bs ! 1, stream_id = get_be32 (subslice 2 6 bs),
                     payload = take len body\<rparr>, drop len body))"

lemma length_encode_frame [simp]: "length (encode_frame f) = header_size + length (payload f)"
  by (simp add: encode_frame_def header_size_def)

lemma encode_frame_nonempty [simp]: "encode_frame f \<noteq> []"
  by (simp add: encode_frame_def)

lemma frame_header_list:
  assumes "8 \<le> length bs"
  shows "bs = [bs ! 0, bs ! 1] @ subslice 2 6 bs @ subslice 6 8 bs @ drop 8 bs"
proof -
  have "bs = take 8 bs @ drop 8 bs" by simp
  moreover have "take 8 bs = subslice 0 2 bs @ subslice 2 6 bs @ subslice 6 8 bs"
    by (simp add: subslice_append flip: append_assoc) (simp add: subslice_def)
  moreover have "subslice 0 2 bs = [bs ! 0, bs ! 1]"
    using assms by (intro nth_equalityI) (auto simp: subslice_def nth_Cons split: nat.split)
  ultimately show ?thesis by simp
qed

lemma parse_encode [simp]:
  assumes "valid_frame f"
  shows "parse_frame (encode_frame f @ rest) fin = Inr (f, rest)"
proof -
  let ?bs = "encode_frame f @ rest"
  have "subslice 2 6 ?bs = put_be32 (stream_id f)"
    by (simp add: subslice_def encode_frame_def numeral_eq_Suc)
  moreover have "subslice 6 8 ?bs = put_be16 (word_of_nat (length (payload f)))"
    by (simp add: subslice_def encode_frame_def put_be32_def put_be16_def)
  moreover have "drop header_size ?bs = payload f @ rest"
    by (simp add: encode_frame_def put_be32_def put_be16_def header_size_def)
  moreover have "?bs ! 0 = version f" and "?bs ! 1 = ftype f"
    by (simp_all add: encode_frame_def)
  ultimately show ?thesis
    using assms by (simp add: parse_frame_def valid_frame_def max_payload_def Let_def)
qed

text \<open>The decoder accepts nothing else: what it takes off the stream is the encoding.\<close>

lemma parse_frame_exact:
  assumes "parse_frame bs fin = Inr (f, rest)"
  shows "bs = encode_frame f @ rest \<and> valid_frame f"
proof -
  let ?len = "unat (get_be16 (subslice 6 8 bs))"
  from assms have len: "8 \<le> length bs" "?len \<le> length (drop 8 bs)"
    and v: "bs ! 0 = protocol_version"
    and f: "f = \<lparr>version = bs ! 0, ftype = bs ! 1, stream_id = get_be32 (subslice 2 6 bs),
                payload = take ?len (drop 8 bs)\<rparr>"
    and rest: "rest = drop ?len (drop 8 bs)"
    by (auto simp: parse_frame_def Let_def header_size_def split: if_splits)
  from len f have pl: "length (payload f) = ?len" by simp
  have sid: "subslice 2 6 bs = put_be32 (stream_id f)"
    using f len by (simp add: put_get_be32)
  have ln: "subslice 6 8 bs = put_be16 (word_of_nat (length (payload f)))"
    using len by (simp add: pl put_get_be16)
  have body: "drop 8 bs = payload f @ rest"
    using f rest by (simp del: drop_drop)
  have "bs = [bs ! 0, bs ! 1] @ put_be32 (stream_id f) @
      put_be16 (word_of_nat (length (payload f))) @ payload f @ rest"
    using frame_header_list [OF len(1)] unfolding sid ln body .
  also have "\<dots> = encode_frame f @ rest"
    using f by (simp add: encode_frame_def)
  finally have "bs = encode_frame f @ rest" .
  moreover have "valid_frame f"
    using v pl f by (simp add: valid_frame_def max_payload_def)
  ultimately show ?thesis ..
qed

lemma parse_frame_shorter:
  "parse_frame bs fin = Inr (f, rest) \<Longrightarrow> length rest < length bs"
  by (drule parse_frame_exact) (simp add: header_size_def)

text \<open>The frames of a whole stream, and the error that ends it.\<close>

function parse_all :: "bytes \<Rightarrow> go_error \<Rightarrow> frame list \<times> go_error" where
  "parse_all bs fin =
     (case parse_frame bs fin of
        Inl e \<Rightarrow> ([], e)
      | Inr (f, rest) \<Rightarrow> (case parse_all rest fin of (fs, e) \<Rightarrow> (f # fs, e)))"
  by pat_completeness auto
termination
  by (relation "measure (\<lambda>(bs, fin). length bs)") (auto dest: parse_frame_shorter)

declare parse_all.simps [simp del]

definition encode_frames :: "frame list \<Rightarrow> bytes" where
  "encode_frames fs = concat (map encode_frame fs)"

lemma encode_frames_simps [simp]:
  "encode_frames [] = []"
  "encode_frames (f # fs) = encode_frame f @ encode_frames fs"
  "encode_frames (fs @ gs) = encode_frames fs @ encode_frames gs"
  by (simp_all add: encode_frames_def)

lemma parse_all_nil [simp]: "parse_all [] fin = ([], fin)"
  by (subst parse_all.simps) (simp add: parse_frame_def header_size_def short_error_def)

lemma parse_all_encode [simp]:
  "valid_frame f \<Longrightarrow>
   parse_all (encode_frame f @ rest) fin = (case parse_all rest fin of (fs, e) \<Rightarrow> (f # fs, e))"
  by (subst parse_all.simps) simp

lemma parse_all_encode_frames:
  "list_all valid_frame fs \<Longrightarrow>
   parse_all (encode_frames fs @ rest) fin = (case parse_all rest fin of (gs, e) \<Rightarrow> (fs @ gs, e))"
  by (induction fs) (auto split: prod.splits)

lemma parse_all_frames [simp]:
  "list_all valid_frame fs \<Longrightarrow> parse_all (encode_frames fs) fin = (fs, fin)"
  using parse_all_encode_frames [of fs "[]" fin] by simp

lemma parse_all_valid: "parse_all bs fin = (fs, e) \<Longrightarrow> list_all valid_frame fs"
proof (induction bs fin arbitrary: fs e rule: parse_all.induct)
  case (1 bs fin)
  show ?case
  proof (cases "parse_frame bs fin")
    case (Inl a)
    with "1.prems" show ?thesis by (subst (asm) parse_all.simps) auto
  next
    case (Inr p)
    obtain f rest where p: "p = (f, rest)" by fastforce
    obtain gs e' where gs: "parse_all rest fin = (gs, e')" by fastforce
    with "1.prems" Inr p have "fs = f # gs" by (subst (asm) parse_all.simps) auto
    with "1.IH" [OF Inr p [symmetric] gs] parse_frame_exact [OF Inr [unfolded p]]
    show ?thesis by simp
  qed
qed

section \<open>The decoder over any lawful reader\<close>

context byte_source begin

lemma read_frame_error:
  assumes "parse_frame (pending r) (final r) = Inl e"
  shows "\<exists>r'. read_frame read r = Some (r', Inl e)"
proof (cases "length (pending r) < header_size")
  case True
  with assms read_full_short [OF this] show ?thesis
    by (auto simp: read_frame_def parse_frame_def)
next
  case False
  then obtain r1 where r1: "io_read_full read r header_size = Some (r1, take 8 (pending r), None)"
    "pending r1 = drop 8 (pending r)" "final r1 = final r"
    using read_full_enough [of header_size r] by (auto simp: header_size_def)
  let ?len = "unat (get_be16 (subslice 6 8 (pending r)))"
  have sl: "subslice 6 8 (take 8 (pending r)) = subslice 6 8 (pending r)"
    by (simp add: subslice_def drop_take)
  show ?thesis
  proof (cases "pending r ! 0 = protocol_version")
    case ver: True
    with assms False have "length (pending r1) < ?len"
      and e: "e = Wrapf ''mux: payload read: %w'' (short_error (pending r1) (final r1))"
      by (auto simp: parse_frame_def Let_def header_size_def r1 split: if_splits)
    then obtain r2 where
      "io_read_full read r1 ?len = Some (r2, pending r1, Some (short_error (pending r1) (final r1)))"
      using read_full_short by blast
    with ver e r1 sl \<open>length (pending r1) < ?len\<close> show ?thesis
      by (auto simp: read_frame_def Let_def)
  next
    case ver: False
    with assms False r1 show ?thesis
      by (auto simp: read_frame_def parse_frame_def)
  qed
qed

lemma read_frame_frame:
  assumes "parse_frame (pending r) (final r) = Inr (f, rest)"
  shows "\<exists>r'. read_frame read r = Some (r', Inr f) \<and> pending r' = rest \<and> final r' = final r \<and>
    weight r' \<le> weight r"
proof -
  let ?bs = "pending r" and ?len = "unat (get_be16 (subslice 6 8 (pending r)))"
  from assms have len: "8 \<le> length ?bs" "?len \<le> length (drop 8 ?bs)"
    and v: "?bs ! 0 = protocol_version"
    and f: "f = \<lparr>version = ?bs ! 0, ftype = ?bs ! 1, stream_id = get_be32 (subslice 2 6 ?bs),
                payload = take ?len (drop 8 ?bs)\<rparr>"
    and rest: "rest = drop ?len (drop 8 ?bs)"
    by (auto simp: parse_frame_def Let_def header_size_def split: if_splits)
  obtain r1 where r1: "io_read_full read r header_size = Some (r1, take 8 ?bs, None)"
    "pending r1 = drop 8 ?bs" "final r1 = final r" "weight r1 \<le> weight r"
    using read_full_enough [of header_size r] len by (auto simp: header_size_def)
  have sl: "subslice 6 8 (take 8 ?bs) = subslice 6 8 ?bs" "subslice 2 6 (take 8 ?bs) = subslice 2 6 ?bs"
    by (simp_all add: subslice_def drop_take)
  show ?thesis
  proof (cases "0 < ?len")
    case True
    obtain r2 where "io_read_full read r1 ?len = Some (r2, take ?len (pending r1), None)"
      "pending r2 = drop ?len (pending r1)" "final r2 = final r1" "weight r2 \<le> weight r1"
      using read_full_enough [of ?len r1] len r1(2) by auto
    with True v r1 sl f rest show ?thesis
      by (simp add: read_frame_def Let_def)
  next
    case False
    with v r1 sl f rest show ?thesis
      by (simp add: read_frame_def Let_def)
  qed
qed

end

section \<open>The encoder over any lawful writer\<close>

context byte_sink begin

lemma write_frame_ok:
  "inv w \<Longrightarrow> write_frame put w f = (w', None) \<Longrightarrow>
   sent w' = sent w @ encode_frame f \<and> inv w' \<and> length (payload f) \<le> max_payload"
  by (auto simp: write_frame_def dest: write_ok split: if_splits prod.splits)

lemma write_frame_err:
  "inv w \<Longrightarrow> write_frame put w f = (w', Some e) \<Longrightarrow> sent w' = sent w"
  by (auto simp: write_frame_def dest: write_err split: if_splits prod.splits)

end

section \<open>What the peer of a stream of frames sees\<close>

text \<open>
  \<open>framed bs\<close>: the bytes are a whole number of frames. \<open>received bs\<close>: the frames the peer's
  dispatcher acts on, PADDING frames being discarded on arrival.
\<close>

definition framed :: "bytes \<Rightarrow> bool" where
  "framed bs \<longleftrightarrow> snd (parse_all bs EOF) = EOF"

definition visible :: "frame list \<Rightarrow> frame list" where
  "visible fs = filter (\<lambda>f. ftype f \<noteq> type_padding) fs"

definition received :: "bytes \<Rightarrow> frame list" where
  "received bs = visible (fst (parse_all bs EOF))"

lemma visible_append [simp]: "visible (fs @ gs) = visible fs @ visible gs"
  by (simp add: visible_def)

lemma visible_Nil [simp]: "visible [] = []"
  by (simp add: visible_def)

lemma framed_parse:
  "framed bs \<Longrightarrow> \<exists>fs. parse_all bs EOF = (fs, EOF) \<and> visible fs = received bs"
  by (cases "parse_all bs EOF") (simp add: framed_def received_def)

lemma parse_all_prefix:
  "parse_all bs fin = (fs, e) \<Longrightarrow>
   \<exists>rest. bs = encode_frames fs @ rest \<and> parse_frame rest fin = Inl e"
proof (induction bs fin arbitrary: fs e rule: parse_all.induct)
  case (1 bs fin)
  show ?case
  proof (cases "parse_frame bs fin")
    case (Inl a)
    with "1.prems" show ?thesis by (subst (asm) parse_all.simps) auto
  next
    case (Inr p)
    obtain f rest where p: "p = (f, rest)" by fastforce
    obtain gs e' where gs: "parse_all rest fin = (gs, e')" by fastforce
    with "1.prems" Inr p have "fs = f # gs" "e = e'" by (subst (asm) parse_all.simps, auto)+
    with "1.IH" [OF Inr p [symmetric] gs] parse_frame_exact [OF Inr [unfolded p]]
    show ?thesis by auto
  qed
qed

lemma parse_frame_EOF: "parse_frame rest EOF = Inl EOF \<Longrightarrow> rest = []"
  by (auto simp: parse_frame_def short_error_def version_error_def Let_def split: if_splits)

lemma framedD: "framed bs \<Longrightarrow> \<exists>fs. list_all valid_frame fs \<and> bs = encode_frames fs"
proof -
  assume "framed bs"
  then obtain fs where fs: "parse_all bs EOF = (fs, EOF)"
    by (cases "parse_all bs EOF") (auto simp: framed_def)
  with parse_all_prefix [OF fs] parse_all_valid [OF fs] show ?thesis
    by (auto dest: parse_frame_EOF)
qed

lemma framed_encode_frames [simp]: "list_all valid_frame fs \<Longrightarrow> framed (encode_frames fs)"
  by (simp add: framed_def)

lemma received_encode_frames [simp]:
  "list_all valid_frame fs \<Longrightarrow> received (encode_frames fs) = visible fs"
  by (simp add: received_def)

lemma framed_Nil [simp]: "framed []"
  by (simp add: framed_def)

lemma received_Nil [simp]: "received [] = []"
  by (simp add: received_def)

lemma framed_append_frames:
  assumes "framed bs" and "list_all valid_frame gs"
  shows "framed (bs @ encode_frames gs)"
    and "received (bs @ encode_frames gs) = received bs @ visible gs"
proof -
  obtain fs where "list_all valid_frame fs" "bs = encode_frames fs"
    using framedD [OF assms(1)] by blast
  with assms(2) show "framed (bs @ encode_frames gs)"
    and "received (bs @ encode_frames gs) = received bs @ visible gs"
    by (simp_all flip: encode_frames_simps(3))
qed

lemma framed_append_frame:
  assumes "framed bs" and "valid_frame f"
  shows "framed (bs @ encode_frame f)"
    and "received (bs @ encode_frame f) = received bs @ visible [f]"
  using framed_append_frames [of bs "[f]"] assms by simp_all

lemma framed_append:
  assumes "framed bs" and "framed cs"
  shows "framed (bs @ cs)" and "received (bs @ cs) = received bs @ received cs"
proof -
  obtain gs where "list_all valid_frame gs" "cs = encode_frames gs"
    using framedD [OF assms(2)] by blast
  then show "framed (bs @ cs)" and "received (bs @ cs) = received bs @ received cs"
    using framed_append_frames [OF assms(1), of gs] by simp_all
qed

section \<open>The contract of a frame sink\<close>

text \<open>
  What the multiplexer needs of the writer under its encoder: a frame whose write succeeded is
  the next one the peer sees (PADDING aside); a failed write may lose frames that were accepted
  before, but only from the end.
\<close>

locale frame_sink =
  fixes put :: "'w writer"
    and delivered :: "'w \<Rightarrow> frame list"
    and inv :: "'w \<Rightarrow> bool"
  assumes put_ok: "inv w \<Longrightarrow> valid_frame f \<Longrightarrow> put w (encode_frame f) = (w', n, None) \<Longrightarrow>
        delivered w' = delivered w @ visible [f] \<and> inv w'"
    and put_err: "inv w \<Longrightarrow> valid_frame f \<Longrightarrow> put w (encode_frame f) = (w', n, Some e) \<Longrightarrow>
        \<exists>lost. delivered w = delivered w' @ lost"
begin

lemma write_frame_sink_ok:
  assumes "inv w" and "version f = protocol_version" and "write_frame put w f = (w', None)"
  shows "delivered w' = delivered w @ visible [f] \<and> inv w'"
  using assms put_ok [of w f]
  by (auto simp: write_frame_def valid_frame_def split: if_splits prod.splits)

lemma write_frame_sink_err:
  assumes "inv w" and "version f = protocol_version" and "write_frame put w f = (w', Some e)"
  shows "\<exists>lost. delivered w = delivered w' @ lost"
  using assms put_err [of w f]
  by (auto simp: write_frame_def valid_frame_def split: if_splits prod.splits)

end

sublocale byte_sink \<subseteq> frames: frame_sink put "\<lambda>w. received (sent w)" "\<lambda>w. inv w \<and> framed (sent w)"
proof unfold_locales
  fix w f w' n
  assume "inv w \<and> framed (sent w)" "valid_frame f" "put w (encode_frame f) = (w', n, None)"
  then show "received (sent w') = received (sent w) @ visible [f] \<and> inv w' \<and> framed (sent w')"
    using write_ok [of w "encode_frame f" w' n] by (simp add: framed_append_frame)
next
  fix w f w' n e
  assume "inv w \<and> framed (sent w)" "put w (encode_frame f) = (w', n, Some e)"
  then show "\<exists>lost. received (sent w) = received (sent w') @ lost"
    using write_err [of w "encode_frame f" w' n e] by simp
qed

section \<open>Properties\<close>

text \<open>
  C26: a frame that \<^verbatim>\<open>WriteFrame\<close> wrote without error is the frame \<^verbatim>\<open>ReadFrame\<close> returns at the
  other end, field by field, however the transport cuts the bytes into pieces and whatever
  follows them; what follows is left on the stream. In particular the 16-bit length field never
  truncates a payload that was written.
\<close>
theorem frame_roundtrip:
  assumes "write_frame pipe_write w f = (w', None)" and "version f = protocol_version"
    and "pipe_sent w' = pipe_sent w @ bs" and "pipe_pending r = bs @ rest"
  shows "\<exists>r'. read_frame pipe_read r = Some (r', Inr f) \<and> pipe_pending r' = rest \<and>
    in_end r' = in_end r"
proof -
  from pipe_end.write_frame_ok [OF _ assms(1)] assms(2,3)
  have "bs = encode_frame f" and "valid_frame f" by (auto simp: valid_frame_def)
  with assms(4) pipe.read_frame_frame [of r f rest] show ?thesis by auto
qed

theorem frame_roundtrip_witness:
  "\<exists>r'. read_frame pipe_read \<lparr>in_chunks = [[1, 0, 0], [0, 0, 7, 0], [], [2, 42, 43, 99]], in_end = EOF\<rparr>
      = Some (r', Inr \<lparr>version = 1, ftype = 0, stream_id = 7, payload = [42, 43]\<rparr>) \<and>
    pipe_pending r' = [99] \<and> in_end r' = EOF"
proof -
  let ?w = "\<lparr>out_chunks = [], out_closed = False\<rparr>"
  let ?f = "\<lparr>version = 1, ftype = 0, stream_id = 7, payload = [42, 43]\<rparr>"
  have "write_frame pipe_write ?w ?f =
      (\<lparr>out_chunks = [[1, 0, 0, 0, 0, 7, 0, 2, 42, 43]], out_closed = False\<rparr>, None)"
    by (simp add: write_frame_def max_payload_def pipe_write_def encode_frame_def put_be32_def
        put_be16_def)
  from frame_roundtrip [OF this, of "[1, 0, 0, 0, 0, 7, 0, 2, 42, 43]"
      "\<lparr>in_chunks = [[1, 0, 0], [0, 0, 7, 0], [], [2, 42, 43, 99]], in_end = EOF\<rparr>" "[99]"]
  show ?thesis
    by (simp add: protocol_version_def pipe_sent_def pipe_pending_def)
qed

text \<open>
  the decoder accepts only what an encoder could have sent: if \<^verbatim>\<open>ReadFrame\<close> returns a frame,
  the bytes it took off the stream are exactly that frame's encoding, its version is ours and
  its payload fits the length field. So no byte is skipped, and re-encoding is the identity.
\<close>
theorem read_frame_consumes_encoding:
  assumes "read_frame pipe_read r = Some (r', Inr f)"
  shows "pipe_pending r = encode_frame f @ pipe_pending r' \<and> valid_frame f"
proof (cases "parse_frame (pipe_pending r) (in_end r)")
  case (Inl e)
  with pipe.read_frame_error [OF Inl] assms show ?thesis by auto
next
  case (Inr p)
  obtain g rest where p: "p = (g, rest)" by fastforce
  with pipe.read_frame_frame [OF Inr [unfolded p]] assms have "g = f" "pipe_pending r' = rest" by auto
  with parse_frame_exact [OF Inr [unfolded p]] show ?thesis by simp
qed

theorem read_frame_consumes_encoding_witness:
  "pipe_pending \<lparr>in_chunks = [[1, 4, 0, 0, 0, 0, 0, 1, 5, 6]], in_end = EOF\<rparr> =
     encode_frame \<lparr>version = 1, ftype = 4, stream_id = 0, payload = [5]\<rparr> @
     pipe_pending \<lparr>in_chunks = [[6]], in_end = EOF\<rparr> \<and>
   valid_frame \<lparr>version = 1, ftype = 4, stream_id = 0, payload = [5]\<rparr>"
proof -
  have "read_frame pipe_read \<lparr>in_chunks = [[1, 4, 0, 0, 0, 0, 0, 1, 5, 6]], in_end = EOF\<rparr> =
    Some (\<lparr>in_chunks = [[6]], in_end = EOF\<rparr>,
      Inr \<lparr>version = 1, ftype = 4, stream_id = 0, payload = [5]\<rparr>)"
    by (simp add: read_frame_def io_read_full_def read_loop.simps pipe_read_def header_size_def
        protocol_version_def subslice_def get_be16_def get_be32_def)
  from read_frame_consumes_encoding [OF this] show ?thesis .
qed

text \<open>
  C27: what \<^verbatim>\<open>ReadFrame\<close> returns on every input, errors included, depends only on the bytes of the
  stream and the error that ends it: it always returns, with \<^verbatim>\<open>io.EOF\<close> on an empty stream,
  \<^verbatim>\<open>io.ErrUnexpectedEOF\<close> inside a header, the wrapped error inside a payload, the version error
  before it looks at anything else in the header, and the frame otherwise.
\<close>
theorem read_frame_refines_parser:
  "\<exists>r'. read_frame pipe_read r =
    Some (r', case parse_frame (pipe_pending r) (in_end r) of Inl e \<Rightarrow> Inl e | Inr (f, rest) \<Rightarrow> Inr f)"
proof (cases "parse_frame (pipe_pending r) (in_end r)")
  case (Inl e)
  with pipe.read_frame_error [OF Inl] show ?thesis by auto
next
  case (Inr p)
  obtain g rest where p: "p = (g, rest)" by fastforce
  with pipe.read_frame_frame [OF Inr [unfolded p]] Inr show ?thesis by auto
qed

end
