(* ===== verification/Mux_Stream.thy ===== *)
theory Mux_Stream
  imports Mux_Frame
begin

text \<open>
  \<^verbatim>\<open>internal/mux/stream.go\<close>: a logical stream. The read side is a queue of whole messages (one
  per DATA frame) with an offset into the first and a permanent error; the write side cuts a
  buffer into DATA frames and hands them to the connection's encoder, whose state is passed
  explicitly. A \<^verbatim>\<open>Read\<close> that would wait on the condition variable is \<open>None\<close>: it does not return
  in this state.

  \<open>message_queue\<close> is the contract the packet bridges rely on: one read returns one message.
\<close>

section \<open>State\<close>

record stream =
  s_id :: "32 word"
  read_msgs :: "bytes list"
  read_off :: nat
  read_err :: "go_error option"
  s_closed :: bool

definition err_stream_closed :: go_error where
  "err_stream_closed = Errorf ''mux: stream closed'' []"

definition new_stream :: "32 word \<Rightarrow> stream" where
  "new_stream sid =
     \<lparr>s_id = sid, read_msgs = [], read_off = 0, read_err = None, s_closed = False\<rparr>"

section \<open>Read side\<close>

definition stream_read :: "stream reader" where
  "stream_read s n =
     (if read_msgs s = [] \<and> read_err s = None then None
      else
        case read_msgs s of
          msg # rest \<Rightarrow>
            let d = take n (drop (read_off s) msg);
                off = read_off s + length d
            in if length msg \<le> off then Some (s\<lparr>read_msgs := rest, read_off := 0\<rparr>, d, None)
               else Some (s\<lparr>read_off := off\<rparr>, d, None)
        | [] \<Rightarrow> Some (s, [], read_err s))"

definition deliver_data :: "stream \<Rightarrow> bytes \<Rightarrow> stream" where
  "deliver_data s data =
     (if read_err s \<noteq> None then s else s\<lparr>read_msgs := read_msgs s @ [data]\<rparr>)"

definition deliver_err :: "stream \<Rightarrow> go_error \<Rightarrow> stream" where
  "deliver_err s e = (if read_err s = None then s\<lparr>read_err := Some e\<rparr> else s)"

section \<open>Write side\<close>

definition data_frame :: "32 word \<Rightarrow> bytes \<Rightarrow> frame" where
  "data_frame sid chunk =
     \<lparr>version = protocol_version, ftype = type_data, stream_id = sid, payload = chunk\<rparr>"

definition close_frame :: "32 word \<Rightarrow> frame" where
  "close_frame sid =
     \<lparr>version = protocol_version, ftype = type_stream_close, stream_id = sid, payload = []\<rparr>"

text \<open>The loop of \<^verbatim>\<open>Write\<close>: \<open>tot\<close> (\<^verbatim>\<open>total\<close>) counts the bytes of the chunks already written.\<close>

function write_chunks ::
  "'w writer \<Rightarrow> 'w \<Rightarrow> 32 word \<Rightarrow> bytes \<Rightarrow> nat \<Rightarrow> 'w \<times> nat \<times> go_error option" where
  "write_chunks wr w sid p tot =
     (if p = [] then (w, tot, None)
      else
        let chunk = (if max_payload < length p then take max_payload p else p)
        in case write_frame wr w (data_frame sid chunk) of
             (w', Some e) \<Rightarrow> (w', tot, Some e)
           | (w', None) \<Rightarrow> write_chunks wr w' sid (drop (length chunk) p) (tot + length chunk))"
  by pat_completeness auto
termination
  by (relation "measure (\<lambda>(wr, w, sid, p, tot). length p)")
    (auto simp: max_payload_def split: if_splits)

declare write_chunks.simps [simp del]

definition stream_write ::
  "'w writer \<Rightarrow> 'w \<Rightarrow> stream \<Rightarrow> bytes \<Rightarrow> 'w \<times> nat \<times> go_error option" where
  "stream_write wr w s p =
     (if s_closed s then (w, 0, Some err_stream_closed)
      else write_chunks wr w (s_id s) p 0)"

definition stream_close ::
  "'w writer \<Rightarrow> 'w \<Rightarrow> stream \<Rightarrow> 'w \<times> stream \<times> go_error option" where
  "stream_close wr w s =
     (if s_closed s then (w, s, None)
      else
        let s' = deliver_err (s\<lparr>s_closed := True\<rparr>) EOF
        in case write_frame wr w (close_frame (s_id s)) of (w', e) \<Rightarrow> (w', s', e))"

section \<open>Invariant and abstraction\<close>

text \<open>The offset points strictly inside the first message, or there is no message begun.\<close>

definition stream_ok :: "stream \<Rightarrow> bool" where
  "stream_ok s \<longleftrightarrow>
     read_off s = 0 \<or> (read_msgs s \<noteq> [] \<and> read_off s < length (hd (read_msgs s)))"

text \<open>The messages still to be read, the unread rest of a begun one first.\<close>

definition inbox :: "stream \<Rightarrow> bytes list" where
  "inbox s = (case read_msgs s of [] \<Rightarrow> [] | m # ms \<Rightarrow> drop (read_off s) m # ms)"

lemma stream_ok_new [simp]: "stream_ok (new_stream sid)"
  and inbox_new [simp]: "inbox (new_stream sid) = []"
  and read_err_new [simp]: "read_err (new_stream sid) = None"
  and s_id_new [simp]: "s_id (new_stream sid) = sid"
  and s_closed_new [simp]: "s_closed (new_stream sid) = False"
  by (simp_all add: new_stream_def stream_ok_def inbox_def)

lemma inbox_empty_iff: "inbox s = [] \<longleftrightarrow> read_msgs s = []"
  by (simp add: inbox_def split: list.split)

lemma deliver_data_simps [simp]:
  "read_err (deliver_data s d) = read_err s"
  "s_id (deliver_data s d) = s_id s"
  "s_closed (deliver_data s d) = s_closed s"
  by (simp_all add: deliver_data_def)

lemma deliver_err_simps [simp]:
  "read_err (deliver_err s e) = (case read_err s of None \<Rightarrow> Some e | Some e0 \<Rightarrow> Some e0)"
  "s_id (deliver_err s e) = s_id s"
  "s_closed (deliver_err s e) = s_closed s"
  "inbox (deliver_err s e) = inbox s"
  "stream_ok (deliver_err s e) = stream_ok s"
  by (auto simp: deliver_err_def inbox_def stream_ok_def split: option.splits list.splits)

lemma stream_ok_deliver_data [simp]: "stream_ok s \<Longrightarrow> stream_ok (deliver_data s d)"
  by (auto simp: deliver_data_def stream_ok_def hd_append)

lemma inbox_deliver_data:
  "stream_ok s \<Longrightarrow>
   inbox (deliver_data s d) = (if read_err s = None then inbox s @ [d] else inbox s)"
  by (auto simp: deliver_data_def inbox_def stream_ok_def split: list.splits)

lemma stream_closed_update [simp]:
  "stream_ok (s\<lparr>s_closed := b\<rparr>) = stream_ok s"
  "inbox (s\<lparr>s_closed := b\<rparr>) = inbox s"
  by (simp_all add: stream_ok_def inbox_def split: list.split)

lemma stream_close_frame:
  "stream_close wr w s = (w', s', e) \<Longrightarrow>
   stream_ok s' = stream_ok s \<and> s_id s' = s_id s \<and> inbox s' = inbox s \<and>
   (read_err s \<noteq> None \<longrightarrow> read_err s' = read_err s)"
  by (auto simp: stream_close_def Let_def split: if_splits prod.splits)

text \<open>One \<^verbatim>\<open>Read\<close>, by what is in the inbox.\<close>

lemma stream_read_message:
  assumes "stream_ok s" and "inbox s = m # ms"
  shows "\<exists>s'. stream_read s n = Some (s', take n m, None) \<and> stream_ok s' \<and>
    inbox s' = (if length m \<le> n then ms else drop n m # ms) \<and> read_err s' = read_err s \<and>
    s_id s' = s_id s \<and> s_closed s' = s_closed s"
proof -
  obtain msg rest where q: "read_msgs s = msg # rest" "m = drop (read_off s) msg" "ms = rest"
    using assms(2) by (auto simp: inbox_def split: list.splits)
  have off: "read_off s \<le> length msg"
    using assms(1) q by (auto simp: stream_ok_def)
  show ?thesis
  proof (cases "length m \<le> n")
    case True
    with q off show ?thesis
      by (auto simp: stream_read_def Let_def stream_ok_def inbox_def split: list.splits)
  next
    case False
    with q off show ?thesis
      by (auto simp: stream_read_def Let_def stream_ok_def inbox_def add.commute)
  qed
qed

lemma stream_read_empty:
  "inbox s = [] \<Longrightarrow> stream_read s n = map_option (\<lambda>e. (s, [], Some e)) (read_err s)"
  by (auto simp: inbox_empty_iff stream_read_def split: list.splits option.splits)

section \<open>The contract of a message queue\<close>

locale message_queue =
  fixes recv :: "'s reader"
    and deliver :: "'s \<Rightarrow> bytes \<Rightarrow> 's"
    and finish :: "'s \<Rightarrow> go_error \<Rightarrow> 's"
    and queue :: "'s \<Rightarrow> bytes list"
    and over :: "'s \<Rightarrow> go_error option"
    and inv :: "'s \<Rightarrow> bool"
  assumes recv_message: "inv s \<Longrightarrow> queue s = m # ms \<Longrightarrow>
        \<exists>s'. recv s n = Some (s', take n m, None) \<and> inv s' \<and>
          queue s' = (if length m \<le> n then ms else drop n m # ms) \<and> over s' = over s"
    and recv_empty: "queue s = [] \<Longrightarrow> recv s n = map_option (\<lambda>e. (s, [], Some e)) (over s)"
    and deliver_queue: "inv s \<Longrightarrow>
        inv (deliver s d) \<and> over (deliver s d) = over s \<and>
        queue (deliver s d) = (if over s = None then queue s @ [d] else queue s)"
    and finish_queue: "inv s \<Longrightarrow>
        inv (finish s e) \<and> queue (finish s e) = queue s \<and>
        over (finish s e) = (case over s of None \<Rightarrow> Some e | Some e0 \<Rightarrow> Some e0)"

text \<open>A client that reads \<open>k\<close> times with a buffer of \<open>n\<close> bytes.\<close>

fun recv_many :: "'s reader \<Rightarrow> 's \<Rightarrow> nat \<Rightarrow> nat \<Rightarrow> ('s \<times> bytes list) option" where
  "recv_many rd s n 0 = Some (s, [])"
| "recv_many rd s n (Suc k) =
     (case rd s n of
        Some (s', d, None) \<Rightarrow>
          (case recv_many rd s' n k of None \<Rightarrow> None | Some (s'', ds) \<Rightarrow> Some (s'', d # ds))
      | _ \<Rightarrow> None)"

context message_queue begin

lemma recv_many_whole:
  assumes "inv s" and "queue s = ms @ rest" and "\<forall>m\<in>set ms. length m \<le> n"
  shows "\<exists>s'. recv_many recv s n (length ms) = Some (s', ms) \<and> inv s' \<and> queue s' = rest \<and>
    over s' = over s"
  using assms
proof (induction ms arbitrary: s)
  case Nil
  then show ?case by simp
next
  case (Cons m ms)
  then obtain s1 where s1: "recv s n = Some (s1, m, None)" "inv s1" "queue s1 = ms @ rest"
    "over s1 = over s"
    using recv_message [of s m "ms @ rest" n] by auto
  from Cons.IH [OF s1(2,3)] Cons.prems(3) obtain s2 where
    "recv_many recv s1 n (length ms) = Some (s2, ms)" "inv s2" "queue s2 = rest" "over s2 = over s1"
    by auto
  with s1 show ?case by auto
qed

lemma fold_deliver:
  "inv s \<Longrightarrow> over s = None \<Longrightarrow>
   inv (fold (\<lambda>d s. deliver s d) ds s) \<and> over (fold (\<lambda>d s. deliver s d) ds s) = None \<and>
   queue (fold (\<lambda>d s. deliver s d) ds s) = queue s @ ds"
  by (induction ds arbitrary: s) (simp_all add: deliver_queue)

lemma fold_deliver_over:
  "inv s \<Longrightarrow> over s = Some e \<Longrightarrow>
   inv (fold (\<lambda>d s. deliver s d) ds s) \<and> over (fold (\<lambda>d s. deliver s d) ds s) = Some e \<and>
   queue (fold (\<lambda>d s. deliver s d) ds s) = queue s"
  by (induction ds arbitrary: s) (simp_all add: deliver_queue)

text \<open>Messages come out whole, in order, up to the end; what arrives after the end is dropped.\<close>

lemma fifo_to_end:
  assumes "inv s" and "over s = None" and "queue s = []" and "\<forall>m\<in>set ms. length m \<le> n"
  shows "\<exists>s'. recv_many recv
      (fold (\<lambda>d s. deliver s d) late (finish (fold (\<lambda>d s. deliver s d) ms s) e)) n (length ms)
        = Some (s', ms) \<and>
    recv s' n = Some (s', [], Some e)"
proof -
  let ?t = "finish (fold (\<lambda>d s. deliver s d) ms s) e"
  let ?u = "fold (\<lambda>d s. deliver s d) late ?t"
  have "inv ?t" "queue ?t = ms" "over ?t = Some e"
    using fold_deliver [OF assms(1,2), of ms] assms(3) finish_queue by auto
  then have "inv ?u" "queue ?u = ms @ []" "over ?u = Some e"
    using fold_deliver_over [of ?t e late] by auto
  with recv_many_whole [of ?u ms "[]" n] assms(4) obtain s' where
    "recv_many recv ?u n (length ms) = Some (s', ms)" "queue s' = []" "over s' = Some e"
    by auto
  then show ?thesis using recv_empty [of s' n] by auto
qed

end

interpretation sq: message_queue stream_read deliver_data deliver_err inbox read_err stream_ok
proof unfold_locales
  fix s m ms n
  assume "stream_ok s" "inbox s = m # ms"
  then show "\<exists>s'. stream_read s n = Some (s', take n m, None) \<and> stream_ok s' \<and>
      inbox s' = (if length m \<le> n then ms else drop n m # ms) \<and> read_err s' = read_err s"
    using stream_read_message by blast
next
  show "inbox s = [] \<Longrightarrow> stream_read s n = map_option (\<lambda>e. (s, [], Some e)) (read_err s)" for s n
    by (rule stream_read_empty)
qed (auto simp: inbox_deliver_data)

section \<open>What Write puts on the wire\<close>

fun chunks_of :: "nat \<Rightarrow> 'a list \<Rightarrow> 'a list list" where
  "chunks_of n p = (if p = [] \<or> n = 0 then [] else take n p # chunks_of n (drop n p))"

declare chunks_of.simps [simp del]

lemma chunks_of_Nil [simp]: "chunks_of n [] = []"
  by (simp add: chunks_of.simps)

lemma chunks_of_Cons: "p \<noteq> [] \<Longrightarrow> 0 < n \<Longrightarrow> chunks_of n p = take n p # chunks_of n (drop n p)"
  by (subst chunks_of.simps) simp

lemma concat_chunks_of: "0 < n \<Longrightarrow> concat (chunks_of n p) = p"
proof (induction n p rule: chunks_of.induct)
  case (1 n p)
  then show ?case by (cases "p = []") (simp_all add: chunks_of_Cons)
qed

lemma chunks_of_bounds: "c \<in> set (chunks_of n p) \<Longrightarrow> c \<noteq> [] \<and> length c \<le> n"
proof (induction n p rule: chunks_of.induct)
  case (1 n p)
  show ?case
  proof (cases "p = [] \<or> n = 0")
    case True
    with "1.prems" show ?thesis by (simp add: chunks_of.simps [of n p])
  next
    case False
    with "1.prems" "1.IH" [OF False] show ?thesis by (auto simp: chunks_of_Cons)
  qed
qed

abbreviation data_frames :: "32 word \<Rightarrow> bytes \<Rightarrow> frame list" where
  "data_frames sid p \<equiv> map (data_frame sid) (chunks_of max_payload p)"

lemma data_frame_simps [simp]:
  "version (data_frame sid c) = protocol_version"
  "ftype (data_frame sid c) = type_data"
  "stream_id (data_frame sid c) = sid"
  "payload (data_frame sid c) = c"
  by (simp_all add: data_frame_def)

lemma close_frame_simps [simp]:
  "version (close_frame sid) = protocol_version"
  "ftype (close_frame sid) = type_stream_close"
  "stream_id (close_frame sid) = sid"
  "payload (close_frame sid) = []"
  by (simp_all add: close_frame_def)

lemma visible_data_frame [simp]: "visible [data_frame sid c] = [data_frame sid c]"
  by (simp add: visible_def frame_type_defs)

lemma max_payload_pos [simp]: "0 < max_payload"
  by (simp add: max_payload_def)

lemma write_chunks_Nil [simp]: "write_chunks wr w sid [] tot = (w, tot, None)"
  by (simp add: write_chunks.simps)

lemma write_chunks_Cons:
  assumes "p \<noteq> []"
  shows "write_chunks wr w sid p tot =
    (case write_frame wr w (data_frame sid (take max_payload p)) of
       (w', Some e) \<Rightarrow> (w', tot, Some e)
     | (w', None) \<Rightarrow>
         write_chunks wr w' sid (drop max_payload p) (tot + length (take max_payload p)))"
proof -
  have "(if max_payload < length p then take max_payload p else p) = take max_payload p"
    and "drop (length (take max_payload p)) p = drop max_payload p"
    by (simp_all add: min_def)
  with assms show ?thesis
    by (subst write_chunks.simps) (simp add: Let_def)
qed

lemma chunk_induct [case_names Nil chunk]:
  assumes "P []" and "\<And>p. p \<noteq> [] \<Longrightarrow> P (drop max_payload p) \<Longrightarrow> P p"
  shows "P p"
proof (induction "length p" arbitrary: p rule: less_induct)
  case less
  show ?case
  proof (cases "p = []")
    case False
    then have "length (drop max_payload p) < length p" by (cases p) auto
    with less assms(2) [OF False] show ?thesis by blast
  qed (simp add: assms(1))
qed

text \<open>
  Over a frame sink: a \<^verbatim>\<open>Write\<close> that succeeds has put one DATA frame per 65535-byte chunk, in
  order, and returns the length of the buffer.
\<close>

context frame_sink begin

lemma write_chunks_ok:
  "inv w \<Longrightarrow> write_chunks put w sid p tot = (w', n, None) \<Longrightarrow>
   delivered w' = delivered w @ data_frames sid p \<and> inv w' \<and> n = tot + length p"
proof (induction p arbitrary: w tot rule: chunk_induct)
  case Nil
  then show ?case by simp
next
  case (chunk p)
  obtain w1 where w1: "write_frame put w (data_frame sid (take max_payload p)) = (w1, None)"
    and rec: "write_chunks put w1 sid (drop max_payload p) (tot + length (take max_payload p)) = (w', n, None)"
    using chunk.prems(2) chunk.hyps by (auto simp: write_chunks_Cons split: prod.splits option.splits)
  from write_frame_sink_ok [OF chunk.prems(1) _ w1]
  have "delivered w1 = delivered w @ [data_frame sid (take max_payload p)]" and "inv w1" by simp_all
  with chunk.IH [OF _ rec] chunk.hyps show ?case
    by (auto simp: chunks_of_Cons min_def)
qed

end

text \<open>
  Over a byte sink also the failing \<^verbatim>\<open>Write\<close> is exact: the count it returns is the number of
  payload bytes of the leading chunks that were written, and nothing after them was.
\<close>

context byte_sink begin

lemma write_chunks_count:
  "inv w \<Longrightarrow> write_chunks put w sid p tot = (w', n, e) \<Longrightarrow>
   \<exists>k. sent w' = sent w @ encode_frames (map (data_frame sid) (take k (chunks_of max_payload p))) \<and>
     n = tot + length (concat (take k (chunks_of max_payload p))) \<and>
     (e = None \<longrightarrow> inv w' \<and> take k (chunks_of max_payload p) = chunks_of max_payload p)"
proof (induction p arbitrary: w tot rule: chunk_induct)
  case Nil
  then show ?case by auto
next
  case (chunk p)
  obtain w1 e1 where w1: "write_frame put w (data_frame sid (take max_payload p)) = (w1, e1)"
    by fastforce
  show ?case
  proof (cases e1)
    case None
    with w1 chunk.prems(2) chunk.hyps have
      rec: "write_chunks put w1 sid (drop max_payload p) (tot + length (take max_payload p)) = (w', n, e)"
      by (simp add: write_chunks_Cons)
    from write_frame_ok [OF chunk.prems(1) w1 [unfolded None]]
    have s1: "sent w1 = sent w @ encode_frame (data_frame sid (take max_payload p))" and "inv w1"
      by simp_all
    from chunk.IH [OF this(2) rec] obtain k where
      "sent w' = sent w1 @ encode_frames (map (data_frame sid) (take k (chunks_of max_payload (drop max_payload p))))"
      "n = tot + length (take max_payload p) + length (concat (take k (chunks_of max_payload (drop max_payload p))))"
      "e = None \<longrightarrow> inv w' \<and> take k (chunks_of max_payload (drop max_payload p)) = chunks_of max_payload (drop max_payload p)"
      by blast
    with s1 chunk.hyps show ?thesis
      by (intro exI [of _ "Suc k"]) (simp add: chunks_of_Cons)
  next
    case (Some er)
    with w1 chunk.prems(2) chunk.hyps have "w' = w1" "n = tot" "e = Some er"
      by (simp_all add: write_chunks_Cons)
    with write_frame_err [OF chunk.prems(1) w1 [unfolded Some]] show ?thesis
      by (intro exI [of _ 0]) simp
  qed
qed

end

section \<open>Properties\<close>

text \<open>
  C25: message boundaries and order. A stream that was opened, received the messages \<open>ms\<close>, then
  ended with error \<open>e\<close> (a peer's STREAM_CLOSE, a local Close or the connection's end), and was
  sent more data after that, returns to a reader with a buffer no smaller than any message
  exactly the messages \<open>ms\<close>, one per \<^verbatim>\<open>Read\<close>, and then \<open>e\<close> for ever; the late data is dropped.
\<close>
theorem stream_delivers_messages_in_order:
  assumes "\<forall>m\<in>set ms. length m \<le> n"
  shows "\<exists>s'. recv_many stream_read
      (fold (\<lambda>d s. deliver_data s d) late
        (deliver_err (fold (\<lambda>d s. deliver_data s d) ms (new_stream sid)) e)) n (length ms)
        = Some (s', ms) \<and>
    stream_read s' n = Some (s', [], Some e)"
  using assms by (intro sq.fifo_to_end) simp_all

theorem stream_delivers_messages_in_order_witness:
  "\<exists>s'. recv_many stream_read
      (fold (\<lambda>d s. deliver_data s d) [[9]]
        (deliver_err (fold (\<lambda>d s. deliver_data s d) [[1, 2], [], [3]] (new_stream 1)) EOF)) 2
        (length [[1, 2], [], [3 :: byte]]) = Some (s', [[1, 2], [], [3]]) \<and>
    stream_read s' 2 = Some (s', [], Some EOF)"
  by (rule stream_delivers_messages_in_order) simp

text \<open>
  a single \<^verbatim>\<open>Read\<close> never spans two messages, whatever the buffer: it returns the next \<open>n\<close>
  bytes of the first unread message (all of it if it fits), leaves its rest as the first unread
  message otherwise, and keeps the read state well formed.
\<close>
theorem stream_read_one_message:
  assumes "stream_ok s" and "inbox s = m # ms"
  shows "\<exists>s'. stream_read s n = Some (s', take n m, None) \<and> stream_ok s' \<and>
    inbox s' = (if length m \<le> n then ms else drop n m # ms) \<and> read_err s' = read_err s"
  using stream_read_message [OF assms] by blast

theorem stream_read_one_message_witness:
  "\<exists>s'. stream_read (deliver_data (new_stream 1) [1, 2, 3]) 2 = Some (s', [1, 2], None) \<and>
    stream_ok s' \<and> inbox s' = [[3]] \<and> read_err s' = None"
  using stream_read_one_message
    [of "deliver_data (new_stream 1) [1, 2, 3]" "[1, 2, 3]" "[]" 2]
  by (simp add: inbox_deliver_data)

text \<open>
  what \<^verbatim>\<open>Stream.Write\<close> puts on the wire, on success and on failure: a prefix of the DATA
  frames that cut the buffer into chunks of at most 65535 bytes (no byte lost, duplicated or
  reordered), all of them exactly when it returns no error, and the returned count is the number
  of payload bytes in those frames. A closed stream writes nothing.
\<close>
theorem stream_write_frames:
  assumes "stream_write pipe_write w s p = (w', n, e)"
  shows "\<exists>cs rest. cs @ rest = chunks_of max_payload p \<and>
    pipe_sent w' = pipe_sent w @ encode_frames (map (data_frame (s_id s)) cs) \<and>
    n = length (concat cs) \<and> (e = None \<longrightarrow> concat cs = p) \<and>
    (s_closed s \<longrightarrow> cs = [] \<and> e = Some err_stream_closed)"
proof (cases "s_closed s")
  case True
  with assms show ?thesis
    by (intro exI [of _ "[]"] exI [of _ "chunks_of max_payload p"]) (auto simp: stream_write_def)
next
  case False
  with assms have "write_chunks pipe_write w (s_id s) p 0 = (w', n, e)"
    by (simp add: stream_write_def)
  from pipe_end.write_chunks_count [OF _ this] obtain k where
    "pipe_sent w' = pipe_sent w @ encode_frames (map (data_frame (s_id s)) (take k (chunks_of max_payload p)))"
    "n = length (concat (take k (chunks_of max_payload p)))"
    "e = None \<longrightarrow> take k (chunks_of max_payload p) = chunks_of max_payload p"
    by auto
  with False show ?thesis
    by (intro exI [of _ "take k (chunks_of max_payload p)"] exI [of _ "drop k (chunks_of max_payload p)"])
      (auto simp: concat_chunks_of)
qed

theorem stream_write_frames_witness:
  "\<exists>cs rest. cs @ rest = chunks_of max_payload [7, 8] \<and>
    pipe_sent \<lparr>out_chunks = [[1, 0, 0, 0, 0, 1, 0, 2, 7, 8]], out_closed = False\<rparr> =
      pipe_sent \<lparr>out_chunks = [], out_closed = False\<rparr> @ encode_frames (map (data_frame 1) cs) \<and>
    (2::nat) = length (concat cs)"
proof -
  have "stream_write pipe_write \<lparr>out_chunks = [], out_closed = False\<rparr> (new_stream 1) [7, 8] =
    (\<lparr>out_chunks = [[1, 0, 0, 0, 0, 1, 0, 2, 7, 8]], out_closed = False\<rparr>, 2, None)"
    by (simp add: stream_write_def write_chunks_Cons max_payload_def write_frame_def
        pipe_write_def encode_frame_def put_be32_def put_be16_def frame_type_defs protocol_version_def)
  from stream_write_frames [OF this] show ?thesis by auto
qed

end
