(* ===== verification/Mux_Conn.thy ===== *)
theory Mux_Conn
  imports Mux_Stream "HOL-Library.AList"
begin

text \<open>
  \<^verbatim>\<open>internal/mux/conn.go\<close>: the multiplexed connection. Stream objects live in a heap (a list
  indexed by address), because the program holds pointers to them in several places at once: the
  connection's map, the goroutine that opened the stream, the callback's goroutine. The map
  \<^verbatim>\<open>streams\<close> is an association list from stream id to address. The encoder's writer state is
  \<open>c_enc\<close>; \<open>c_spawned\<close> lists the streams handed to the \<^verbatim>\<open>onStream\<close> callback. Times are
  nanoseconds; the two liveness stamps are whole seconds, as \<^verbatim>\<open>time.Time.Unix\<close> gives them.

  Each operation that holds a lock is one definition; \<open>conn_step\<close> interleaves them in any order,
  so what is proved of reachable states holds for every scheduling of the read loop, the ping
  loop and the users of the streams.
\<close>

section \<open>State\<close>

record 'w conn =
  c_enc :: 'w
  c_client :: bool
  c_next :: "32 word"
  c_heap :: "stream list"
  c_streams :: "(32 word \<times> nat) list"
  c_on_stream :: bool
  c_spawned :: "nat list"
  c_done :: bool
  c_close_err :: "go_error option"
  c_last_pong :: int
  c_ping_sent :: int

definition second :: int where
  "second = 1000000000"

definition ping_interval :: int where
  "ping_interval = 30 * second"

definition ping_timeout :: int where
  "ping_timeout = 10 * second"

definition unix :: "int \<Rightarrow> int" where
  "unix now = now div second"

definition new_conn :: "'w \<Rightarrow> bool \<Rightarrow> bool \<Rightarrow> int \<Rightarrow> 'w conn" where
  "new_conn w client on_stream now =
     \<lparr>c_enc = w, c_client = client, c_next = (if client then 1 else 2), c_heap = [],
      c_streams = [], c_on_stream = on_stream, c_spawned = [], c_done = False,
      c_close_err = None, c_last_pong = unix now, c_ping_sent = unix now\<rparr>"

section \<open>Control frames and opening streams\<close>

definition control_frame :: "byte \<Rightarrow> 32 word \<Rightarrow> bytes \<Rightarrow> frame" where
  "control_frame t sid p =
     \<lparr>version = protocol_version, ftype = t, stream_id = sid, payload = p\<rparr>"

definition send_frame :: "'w writer \<Rightarrow> 'w conn \<Rightarrow> frame \<Rightarrow> 'w conn \<times> go_error option" where
  "send_frame wr c f = (case write_frame wr (c_enc c) f of (w', e) \<Rightarrow> (c\<lparr>c_enc := w'\<rparr>, e))"

text \<open>\<^verbatim>\<open>OpenStream\<close>: the part under \<^verbatim>\<open>streamMu\<close>, then the announcement and its roll-back.\<close>

definition open_register :: "'w conn \<Rightarrow> 'w conn \<times> nat" where
  "open_register c =
     (c\<lparr>c_next := c_next c + 2, c_heap := c_heap c @ [new_stream (c_next c)],
        c_streams := AList.update (c_next c) (length (c_heap c)) (c_streams c)\<rparr>,
      length (c_heap c))"

definition open_announce :: "'w writer \<Rightarrow> 'w conn \<Rightarrow> nat \<Rightarrow> 'w conn \<times> (go_error + nat)" where
  "open_announce wr c a =
     (let sid = s_id (c_heap c ! a)
      in case send_frame wr c (control_frame type_stream_open sid []) of
           (c', None) \<Rightarrow> (c', Inr a)
         | (c', Some e) \<Rightarrow>
             (c'\<lparr>c_streams := AList.delete sid (c_streams c')\<rparr>,
              Inl (Wrapf ''mux: open stream: %w'' e)))"

definition open_stream :: "'w writer \<Rightarrow> 'w conn \<Rightarrow> 'w conn \<times> (go_error + nat)" where
  "open_stream wr c = (case open_register c of (c1, a) \<Rightarrow> open_announce wr c1 a)"

text \<open>The random bytes (or the error) of \<^verbatim>\<open>crypto/rand.Read\<close> are an argument.\<close>

definition send_ping :: "'w writer \<Rightarrow> 'w conn \<Rightarrow> go_error + bytes \<Rightarrow> 'w conn \<times> go_error option" where
  "send_ping wr c rnd =
     (case rnd of
        Inl e \<Rightarrow> (c, Some e)
      | Inr cookie \<Rightarrow> send_frame wr c (control_frame type_ping 0 cookie))"

definition send_padding ::
  "'w writer \<Rightarrow> 'w conn \<Rightarrow> int \<Rightarrow> (nat \<Rightarrow> go_error + bytes) \<Rightarrow> 'w conn \<times> go_error option" where
  "send_padding wr c n rnd =
     (if n \<le> 0 \<or> int max_payload < n
      then (c, Some (Errorf ''mux: padding size %d out of range'' [n]))
      else
        case rnd (nat n) of
          Inl e \<Rightarrow> (c, Some e)
        | Inr p \<Rightarrow> send_frame wr c (control_frame type_padding 0 p))"

section \<open>Closing\<close>

text \<open>The loop over the map's streams in \<^verbatim>\<open>Close\<close>.\<close>

definition end_streams :: "nat list \<Rightarrow> stream list \<Rightarrow> stream list" where
  "end_streams as h = fold (\<lambda>a h. h[a := deliver_err (h ! a) EOF]) as h"

definition conn_close :: "'w conn \<Rightarrow> 'w conn" where
  "conn_close c =
     (if c_done c then c
      else c\<lparr>c_done := True, c_heap := end_streams (map snd (c_streams c)) (c_heap c)\<rparr>)"

section \<open>Incoming frames\<close>

definition dispatch :: "'w writer \<Rightarrow> 'w conn \<Rightarrow> frame \<Rightarrow> int \<Rightarrow> 'w conn" where
  "dispatch wr c f now =
     (if ftype f = type_data then
        (case map_of (c_streams c) (stream_id f) of
           None \<Rightarrow> c
         | Some a \<Rightarrow> c\<lparr>c_heap := (c_heap c)[a := deliver_data (c_heap c ! a) (payload f)]\<rparr>)
      else if ftype f = type_stream_open then
        (let a = length (c_heap c);
             c1 = c\<lparr>c_heap := c_heap c @ [new_stream (stream_id f)],
                    c_streams := AList.update (stream_id f) a (c_streams c)\<rparr>
         in if c_on_stream c then c1\<lparr>c_spawned := c_spawned c1 @ [a]\<rparr> else c1)
      else if ftype f = type_stream_close then
        (case map_of (c_streams c) (stream_id f) of
           None \<Rightarrow> c\<lparr>c_streams := AList.delete (stream_id f) (c_streams c)\<rparr>
         | Some a \<Rightarrow> c\<lparr>c_streams := AList.delete (stream_id f) (c_streams c),
                       c_heap := (c_heap c)[a := deliver_err (c_heap c ! a) EOF]\<rparr>)
      else if ftype f = type_ping then
        fst (send_frame wr c (control_frame type_pong 0 (payload f)))
      else if ftype f = type_pong then c\<lparr>c_last_pong := unix now\<rparr>
      else if ftype f = type_padding then c
      else if ftype f = type_window_update then c
      else c)"

text \<open>\<^verbatim>\<open>readLoop\<close>; \<open>clock k\<close> is the time at which the \<open>k\<close>-th frame is dispatched.\<close>

partial_function (option) conn_read_loop ::
  "'r reader \<Rightarrow> 'w writer \<Rightarrow> (nat \<Rightarrow> int) \<Rightarrow> nat \<Rightarrow> 'r \<Rightarrow> 'w conn \<Rightarrow> ('r \<times> 'w conn) option" where
  "conn_read_loop rd wr clock k r c =
     (case read_frame rd r of
        None \<Rightarrow> None
      | Some (r', res) \<Rightarrow>
          (case res of
             Inl e \<Rightarrow> Some (r', conn_close (c\<lparr>c_close_err := Some e\<rparr>))
           | Inr f \<Rightarrow> conn_read_loop rd wr clock (Suc k) r' (dispatch wr c f (clock k))))"

section \<open>The ping loop\<close>

text \<open>
  One round of \<^verbatim>\<open>pingLoop\<close> after the ticker fired, in its two parts: the deadline check and the
  PING, then the stamp. The flag says whether the loop ends.
\<close>

definition ping_overdue :: "'w conn \<Rightarrow> int \<Rightarrow> bool" where
  "ping_overdue c now \<longleftrightarrow>
     c_last_pong c < c_ping_sent c \<and> c_ping_sent c * second + ping_timeout < now"

definition ping_send :: "'w writer \<Rightarrow> 'w conn \<Rightarrow> int \<Rightarrow> go_error + bytes \<Rightarrow> 'w conn \<times> bool" where
  "ping_send wr c now rnd =
     (if ping_overdue c now
      then (conn_close (c\<lparr>c_close_err := Some (Errorf ''mux: ping timeout (no echo for %s)''
              [(now - c_ping_sent c * second + second div 2) div second * second])\<rparr>), True)
      else
        case send_ping wr c rnd of
          (c', Some e) \<Rightarrow>
            (conn_close (c'\<lparr>c_close_err := Some (Wrapf ''mux: ping write failed: %w'' e)\<rparr>), True)
        | (c', None) \<Rightarrow> (c', False))"

definition ping_stamp :: "'w conn \<Rightarrow> int \<Rightarrow> 'w conn" where
  "ping_stamp c now = c\<lparr>c_ping_sent := unix now\<rparr>"

definition ping_round ::
  "'w writer \<Rightarrow> 'w conn \<Rightarrow> int \<Rightarrow> go_error + bytes \<Rightarrow> int \<Rightarrow> 'w conn \<times> bool" where
  "ping_round wr c now rnd now' =
     (case ping_send wr c now rnd of
        (c', True) \<Rightarrow> (c', True)
      | (c', False) \<Rightarrow> (ping_stamp c' now', False))"

section \<open>Operations on a stream held by address\<close>

definition conn_stream_read ::
  "'w conn \<Rightarrow> nat \<Rightarrow> nat \<Rightarrow> ('w conn \<times> bytes \<times> go_error option) option" where
  "conn_stream_read c a n =
     (case stream_read (c_heap c ! a) n of
        None \<Rightarrow> None
      | Some (s', d, e) \<Rightarrow> Some (c\<lparr>c_heap := (c_heap c)[a := s']\<rparr>, d, e))"

definition conn_stream_write ::
  "'w writer \<Rightarrow> 'w conn \<Rightarrow> nat \<Rightarrow> bytes \<Rightarrow> 'w conn \<times> nat \<times> go_error option" where
  "conn_stream_write wr c a p =
     (case stream_write wr (c_enc c) (c_heap c ! a) p of (w', n, e) \<Rightarrow> (c\<lparr>c_enc := w'\<rparr>, n, e))"

definition conn_stream_close :: "'w writer \<Rightarrow> 'w conn \<Rightarrow> nat \<Rightarrow> 'w conn \<times> go_error option" where
  "conn_stream_close wr c a =
     (case stream_close wr (c_enc c) (c_heap c ! a) of
        (w', s', e) \<Rightarrow> (c\<lparr>c_enc := w', c_heap := (c_heap c)[a := s']\<rparr>, e))"

section \<open>The connection invariant\<close>

text \<open>
  Every map entry points to an allocated stream object that carries the entry's id, no id has two
  entries, every object's read state is well formed, and the next local id has our parity.
\<close>

definition conn_ok :: "'w conn \<Rightarrow> bool" where
  "conn_ok c \<longleftrightarrow>
     distinct (map fst (c_streams c)) \<and>
     (\<forall>k a. map_of (c_streams c) k = Some a \<longrightarrow>
        a < length (c_heap c) \<and> s_id (c_heap c ! a) = k) \<and>
     (\<forall>s\<in>set (c_heap c). stream_ok s) \<and>
     (odd (c_next c) \<longleftrightarrow> c_client c)"

lemma conn_okD:
  assumes "conn_ok c" and "map_of (c_streams c) k = Some a"
  shows "a < length (c_heap c)" and "s_id (c_heap c ! a) = k"
  using assms by (auto simp: conn_ok_def)

lemma conn_ok_stream: "conn_ok c \<Longrightarrow> a < length (c_heap c) \<Longrightarrow> stream_ok (c_heap c ! a)"
  by (simp add: conn_ok_def)

lemma conn_ok_new [simp]: "conn_ok (new_conn w client cb now)"
  by (simp add: conn_ok_def new_conn_def)

lemma conn_ok_other [simp]:
  "conn_ok (c\<lparr>c_enc := w\<rparr>) = conn_ok c"
  "conn_ok (c\<lparr>c_spawned := sp\<rparr>) = conn_ok c"
  "conn_ok (c\<lparr>c_done := d\<rparr>) = conn_ok c"
  "conn_ok (c\<lparr>c_close_err := e\<rparr>) = conn_ok c"
  "conn_ok (c\<lparr>c_last_pong := t\<rparr>) = conn_ok c"
  "conn_ok (c\<lparr>c_ping_sent := t\<rparr>) = conn_ok c"
  "conn_ok (c\<lparr>c_enc := w, c_streams := al\<rparr>) = conn_ok (c\<lparr>c_streams := al\<rparr>)"
  "conn_ok (c\<lparr>c_enc := w, c_heap := h\<rparr>) = conn_ok (c\<lparr>c_heap := h\<rparr>)"
  by (simp_all add: conn_ok_def)

lemma s_id_list_update:
  "s_id s = s_id (h ! a) \<Longrightarrow> s_id (h[a := s] ! b) = s_id (h ! b)"
  by (cases "a < length h"; cases "a = b") (simp_all add: list_update_beyond)

lemma conn_ok_heap_update:
  assumes "conn_ok c" and "stream_ok s" and "s_id s = s_id (c_heap c ! a)"
  shows "conn_ok (c\<lparr>c_heap := (c_heap c)[a := s]\<rparr>)"
  using assms set_update_subset_insert [of "c_heap c" a s]
  by (auto simp: conn_ok_def s_id_list_update)

lemma conn_ok_allocate:
  assumes "conn_ok c"
  shows "conn_ok (c\<lparr>c_heap := c_heap c @ [new_stream sid],
    c_streams := AList.update sid (length (c_heap c)) (c_streams c)\<rparr>)"
proof -
  have "k < length (c_heap c @ [new_stream sid]) \<and> s_id ((c_heap c @ [new_stream sid]) ! k) = j"
    if "map_of (c_streams c) j = Some k" for j k
    using conn_okD [OF assms that] by (simp add: nth_append)
  with assms show ?thesis
    by (auto simp: conn_ok_def update_conv' distinct_update nth_append split: if_splits)
qed

lemma conn_ok_delete:
  "conn_ok c \<Longrightarrow> conn_ok (c\<lparr>c_streams := AList.delete k (c_streams c)\<rparr>)"
  by (auto simp: conn_ok_def delete_conv' distinct_delete split: if_splits)

lemma deliver_err_idem [simp]: "deliver_err (deliver_err s e) e' = deliver_err s e"
  by (simp add: deliver_err_def)

lemma length_end_streams [simp]: "length (end_streams as h) = length h"
  unfolding end_streams_def by (induction as arbitrary: h) auto

lemma end_streams_nth:
  "b < length h \<Longrightarrow> end_streams as h ! b = (if b \<in> set as then deliver_err (h ! b) EOF else h ! b)"
proof (induction as arbitrary: h)
  case Nil
  then show ?case by (simp add: end_streams_def)
next
  case (Cons a as)
  have "end_streams (a # as) h = end_streams as (h[a := deliver_err (h ! a) EOF])"
    by (simp add: end_streams_def)
  with Cons show ?case
    by (cases "a < length h") (auto simp: nth_list_update list_update_beyond)
qed

lemma conn_ok_close:
  assumes "conn_ok c"
  shows "conn_ok (conn_close c)"
proof -
  have "stream_ok s" if "s \<in> set (end_streams as (c_heap c))" for s as
    using that assms by (auto simp: in_set_conv_nth end_streams_nth conn_ok_stream)
  with assms show ?thesis
    by (auto simp: conn_ok_def conn_close_def end_streams_nth)
qed

lemma send_frame_frame [simp]:
  "conn_ok (fst (send_frame wr c f)) = conn_ok c"
  "c_heap (fst (send_frame wr c f)) = c_heap c"
  "c_streams (fst (send_frame wr c f)) = c_streams c"
  "c_next (fst (send_frame wr c f)) = c_next c"
  "c_done (fst (send_frame wr c f)) = c_done c"
  "c_client (fst (send_frame wr c f)) = c_client c"
  "c_last_pong (fst (send_frame wr c f)) = c_last_pong c"
  "c_ping_sent (fst (send_frame wr c f)) = c_ping_sent c"
  by (simp_all add: send_frame_def split: prod.splits)

lemma send_frameD: "send_frame wr c f = (c', e) \<Longrightarrow> \<exists>w'. c' = c\<lparr>c_enc := w'\<rparr>"
  by (auto simp: send_frame_def split: prod.splits)

lemma conn_ok_dispatch:
  assumes "conn_ok c"
  shows "conn_ok (dispatch wr c f now)"
proof -
  have upd: "conn_ok (c\<lparr>c_heap := (c_heap c)[a := deliver_data (c_heap c ! a) p]\<rparr>)"
    "conn_ok (c\<lparr>c_heap := (c_heap c)[a := deliver_err (c_heap c ! a) e]\<rparr>)"
    if "map_of (c_streams c) k = Some a" for k a p e
    using assms conn_ok_stream [OF assms conn_okD(1) [OF assms that]]
    by (simp_all add: conn_ok_heap_update)
  have del: "conn_ok (c\<lparr>c_streams := AList.delete k (c_streams c),
      c_heap := (c_heap c)[a := deliver_err (c_heap c ! a) EOF]\<rparr>)"
    if "map_of (c_streams c) k = Some a" for k a
    using conn_ok_delete [OF upd(2) [OF that]] by (cases c) simp
  show ?thesis
    using assms upd del conn_ok_allocate [OF assms] conn_ok_delete [OF assms]
    by (auto simp: dispatch_def Let_def split: option.split)
qed

lemma conn_ok_register:
  assumes "conn_ok c"
  shows "conn_ok (fst (open_register c))"
  using conn_ok_allocate [OF assms, of "c_next c"] assms
  by (simp add: open_register_def conn_ok_def)

lemma conn_ok_announce: "conn_ok c \<Longrightarrow> conn_ok (fst (open_announce wr c a))"
  by (auto simp: open_announce_def Let_def dest!: send_frameD dest: conn_ok_delete
      split: prod.splits option.splits)

lemma conn_ok_ping_send: "conn_ok c \<Longrightarrow> conn_ok (fst (ping_send wr c now rnd))"
  by (auto simp: ping_send_def send_ping_def conn_ok_close dest!: send_frameD
      split: prod.splits option.splits sum.splits)

lemma conn_ok_send_padding: "conn_ok c \<Longrightarrow> conn_ok (fst (send_padding wr c n rnd))"
  by (auto simp: send_padding_def split: sum.splits)

lemma conn_ok_stream_ops:
  assumes "conn_ok c" and "a < length (c_heap c)"
  shows "conn_stream_read c a n = Some (c', d, e) \<Longrightarrow> conn_ok c'"
    and "conn_ok (fst (conn_stream_write wr c a p))"
    and "conn_ok (fst (conn_stream_close wr c a))"
proof -
  have ok: "stream_ok (c_heap c ! a)" using conn_ok_stream [OF assms] .
  show "conn_ok c'" if read: "conn_stream_read c a n = Some (c', d, e)"
  proof -
    obtain s' where s': "stream_read (c_heap c ! a) n = Some (s', d, e)"
      and c': "c' = c\<lparr>c_heap := (c_heap c)[a := s']\<rparr>"
      using read by (auto simp: conn_stream_read_def split: option.splits)
    have "stream_ok s' \<and> s_id s' = s_id (c_heap c ! a)"
    proof (cases "inbox (c_heap c ! a)")
      case Nil
      with stream_read_empty [OF Nil, of n] s' ok show ?thesis
        by (cases "read_err (c_heap c ! a)") auto
    next
      case (Cons m ms)
      with stream_read_message [OF ok Cons, of n] s' show ?thesis by auto
    qed
    with assms c' show ?thesis by (simp add: conn_ok_heap_update)
  qed
  show "conn_ok (fst (conn_stream_write wr c a p))"
    using assms by (simp add: conn_stream_write_def split: prod.splits)
  show "conn_ok (fst (conn_stream_close wr c a))"
    using assms ok
    by (auto simp: conn_stream_close_def dest: stream_close_frame split: prod.splits
        intro!: conn_ok_heap_update)
qed

section \<open>All interleavings\<close>

inductive conn_step :: "'w writer \<Rightarrow> 'w conn \<Rightarrow> 'w conn \<Rightarrow> bool" for wr where
  register: "conn_step wr c (fst (open_register c))"
| announce: "a < length (c_heap c) \<Longrightarrow> conn_step wr c (fst (open_announce wr c a))"
| incoming: "conn_step wr c (dispatch wr c f now)"
| read_failed: "conn_step wr c (conn_close (c\<lparr>c_close_err := Some e\<rparr>))"
| closed: "conn_step wr c (conn_close c)"
| padded: "conn_step wr c (fst (send_padding wr c n rnd))"
| pinged: "conn_step wr c (fst (ping_send wr c now rnd'))"
| stamped: "conn_step wr c (ping_stamp c now)"
| stream_was_read: "a < length (c_heap c) \<Longrightarrow> conn_stream_read c a m = Some (c', d, er) \<Longrightarrow>
    conn_step wr c c'"
| stream_written: "a < length (c_heap c) \<Longrightarrow> conn_step wr c (fst (conn_stream_write wr c a p))"
| stream_ended: "a < length (c_heap c) \<Longrightarrow> conn_step wr c (fst (conn_stream_close wr c a))"

inductive conn_reach :: "'w writer \<Rightarrow> 'w conn \<Rightarrow> bool" for wr where
  start: "conn_reach wr (new_conn w client cb now)"
| step: "conn_reach wr c \<Longrightarrow> conn_step wr c c' \<Longrightarrow> conn_reach wr c'"

lemma conn_step_ok: "conn_step wr c c' \<Longrightarrow> conn_ok c \<Longrightarrow> conn_ok c'"
  by (induction rule: conn_step.induct)
    (auto simp: conn_ok_register conn_ok_announce conn_ok_dispatch conn_ok_close
      conn_ok_send_padding conn_ok_ping_send ping_stamp_def conn_ok_stream_ops)

lemma conn_reach_ok: "conn_reach wr c \<Longrightarrow> conn_ok c"
  by (induction rule: conn_reach.induct) (auto intro: conn_step_ok)

section \<open>The read loop as a fold\<close>

fun dispatch_all :: "'w writer \<Rightarrow> 'w conn \<Rightarrow> frame list \<Rightarrow> (nat \<Rightarrow> int) \<Rightarrow> nat \<Rightarrow> 'w conn" where
  "dispatch_all wr c [] clock k = c"
| "dispatch_all wr c (f # fs) clock k = dispatch_all wr (dispatch wr c f (clock k)) fs clock (Suc k)"

lemma dispatch_all_append:
  "dispatch_all wr c (fs @ gs) clock k =
   dispatch_all wr (dispatch_all wr c fs clock k) gs clock (k + length fs)"
  by (induction fs arbitrary: c k) auto

lemma conn_ok_dispatch_all: "conn_ok c \<Longrightarrow> conn_ok (dispatch_all wr c fs clock k)"
  by (induction fs arbitrary: c k) (auto simp: conn_ok_dispatch)

context byte_source begin

lemma conn_read_loop_runs:
  "parse_all (pending r) (final r) = (fs, e) \<Longrightarrow>
   \<exists>r'. conn_read_loop read wr clock k r c =
     Some (r', conn_close ((dispatch_all wr c fs clock k)\<lparr>c_close_err := Some e\<rparr>))"
proof (induction "length (pending r)" arbitrary: r c k fs rule: less_induct)
  case less
  show ?case
  proof (cases "parse_frame (pending r) (final r)")
    case (Inl er)
    from less.prems Inl have "fs = []" "e = er" by (subst (asm) parse_all.simps, simp)+
    with read_frame_error [OF Inl] show ?thesis
      by (subst conn_read_loop.simps) auto
  next
    case (Inr p)
    obtain f rest where p: "p = (f, rest)" by fastforce
    obtain gs where gs: "parse_all rest (final r) = (gs, e)" and fs: "fs = f # gs"
      using less.prems Inr p by (subst (asm) parse_all.simps) (auto split: prod.splits)
    obtain r1 where r1: "read_frame read r = Some (r1, Inr f)" "pending r1 = rest" "final r1 = final r"
      using read_frame_frame [OF Inr [unfolded p]] by blast
    have "length (pending r1) < length (pending r)"
      using parse_frame_shorter [OF Inr [unfolded p]] r1 by simp
    from less.hyps [OF this, where fs = gs and c = "dispatch wr c f (clock k)" and k = "Suc k"]
      gs r1 fs show ?thesis
      by (subst conn_read_loop.simps) auto
  qed
qed

end

section \<open>Effects of a dispatch\<close>

lemma dispatch_demux:
  assumes ok: "conn_ok c" and a: "map_of (c_streams c) sid = Some a"
    and open_: "read_err (c_heap c ! a) = None"
    and f: "stream_id f = sid \<longrightarrow> ftype f \<noteq> type_stream_open \<and> ftype f \<noteq> type_stream_close"
  shows "map_of (c_streams (dispatch wr c f now)) sid = Some a \<and>
    read_err (c_heap (dispatch wr c f now) ! a) = None \<and>
    inbox (c_heap (dispatch wr c f now) ! a) = inbox (c_heap c ! a) @
      (if ftype f = type_data \<and> stream_id f = sid then [payload f] else [])"
proof -
  have al: "a < length (c_heap c)" and sa: "stream_ok (c_heap c ! a)"
    using conn_okD [OF ok a] conn_ok_stream [OF ok] by auto
  have other: "b \<noteq> a" if "map_of (c_streams c) k = Some b" "k \<noteq> sid" for k b
    using conn_okD(2) [OF ok that(1)] conn_okD(2) [OF ok a] that(2) by auto
  from al sa a open_ f show ?thesis
    by (auto simp: dispatch_def Let_def frame_type_defs inbox_deliver_data update_conv'
        delete_conv' nth_append dest: other split: option.splits)
qed

lemma dispatch_all_demux:
  "conn_ok c \<Longrightarrow> map_of (c_streams c) sid = Some a \<Longrightarrow> read_err (c_heap c ! a) = None \<Longrightarrow>
   \<forall>f\<in>set fs. stream_id f = sid \<longrightarrow> ftype f \<noteq> type_stream_open \<and> ftype f \<noteq> type_stream_close \<Longrightarrow>
   map_of (c_streams (dispatch_all wr c fs clock k)) sid = Some a \<and>
   read_err (c_heap (dispatch_all wr c fs clock k) ! a) = None \<and>
   inbox (c_heap (dispatch_all wr c fs clock k) ! a) = inbox (c_heap c ! a) @
     map payload (filter (\<lambda>f. ftype f = type_data \<and> stream_id f = sid) fs)"
proof (induction fs arbitrary: c k)
  case Nil
  then show ?case by simp
next
  case (Cons f fs)
  let ?c1 = "dispatch wr c f (clock k)"
  from dispatch_demux [OF Cons.prems(1-3), of f wr "clock k"] Cons.prems(4)
  have d: "map_of (c_streams ?c1) sid = Some a" "read_err (c_heap ?c1 ! a) = None"
    "inbox (c_heap ?c1 ! a) = inbox (c_heap c ! a) @
      (if ftype f = type_data \<and> stream_id f = sid then [payload f] else [])"
    by auto
  from Cons.IH [OF conn_ok_dispatch [OF Cons.prems(1)] d(1,2), where k = "Suc k"] Cons.prems(4) d(3)
  show ?case by simp
qed

definition pong_for :: "frame \<Rightarrow> frame" where
  "pong_for f = control_frame type_pong 0 (payload f)"

lemma valid_pong_for [simp]: "valid_frame f \<Longrightarrow> valid_frame (pong_for f)"
  by (simp add: valid_frame_def pong_for_def control_frame_def)

lemma dispatch_enc:
  "c_enc (dispatch wr c f now) =
     (if ftype f = type_ping then fst (write_frame wr (c_enc c) (pong_for f)) else c_enc c)"
  by (auto simp: dispatch_def Let_def frame_type_defs send_frame_def pong_for_def
      split: option.splits prod.splits)

lemma pipe_write_frame:
  "\<not> out_closed w \<Longrightarrow> valid_frame f \<Longrightarrow>
   fst (write_frame pipe_write w f) = w\<lparr>out_chunks := out_chunks w @ [encode_frame f]\<rparr>"
  by (simp add: write_frame_def valid_frame_def pipe_write_def)

lemma dispatch_all_pongs:
  "\<not> out_closed (c_enc c) \<Longrightarrow> list_all valid_frame fs \<Longrightarrow>
   pipe_sent (c_enc (dispatch_all pipe_write c fs clock k)) =
   pipe_sent (c_enc c) @ encode_frames (map pong_for (filter (\<lambda>f. ftype f = type_ping) fs))"
proof (induction fs arbitrary: c k)
  case Nil
  then show ?case by simp
next
  case (Cons f fs)
  then show ?case
    by (auto simp: dispatch_enc pipe_write_frame pipe_sent_def)
qed

section \<open>Local ids\<close>

definition register_many :: "nat \<Rightarrow> 'w conn \<Rightarrow> 'w conn" where
  "register_many k c = ((\<lambda>c. fst (open_register c)) ^^ k) c"

lemma register_many_Suc: "register_many (Suc k) c = fst (open_register (register_many k c))"
  by (simp add: register_many_def)

lemma register_many_next: "c_next (register_many k c) = c_next c + word_of_nat (2 * k)"
proof (induction k)
  case 0
  show ?case by (simp add: register_many_def)
next
  case (Suc k)
  then show ?case by (simp add: register_many_Suc open_register_def algebra_simps)
qed

section \<open>Liveness of the ping loop\<close>

lemma not_overdue_after_pong: "c_ping_sent c \<le> c_last_pong c \<Longrightarrow> \<not> ping_overdue c now"
  by (simp add: ping_overdue_def)

lemma unix_le: "unix t * second \<le> t"
  by (simp add: unix_def second_def)

section \<open>Consequences of the gaps in the protocol checks\<close>

text \<open>
  With no \<^verbatim>\<open>onStream\<close> callback the peer's STREAM_OPEN is not rejected: the stream is registered,
  accumulates data that nobody can read, and nothing is sent back.
\<close>

lemma stream_open_without_callback_is_registered:
  assumes "ftype f = type_stream_open" and "\<not> c_on_stream c"
  shows "map_of (c_streams (dispatch wr c f now)) (stream_id f) = Some (length (c_heap c)) \<and>
    c_enc (dispatch wr c f now) = c_enc c \<and> c_spawned (dispatch wr c f now) = c_spawned c"
  using assms by (simp add: dispatch_def frame_type_defs Let_def update_conv')

text \<open>
  A second STREAM_OPEN for an id that is in use replaces the map entry. The first stream object,
  which a callback's goroutine may hold, can no longer be reached from the connection: its reader
  still waits after the connection was closed.
\<close>

lemma duplicate_stream_open_orphans_reader:
  assumes "ftype f = type_stream_open" and "conn_ok c"
    and "map_of (c_streams c) (stream_id f) = Some a"
    and "inbox (c_heap c ! a) = []" and "read_err (c_heap c ! a) = None"
  shows "stream_read (c_heap (conn_close (dispatch wr c f now)) ! a) n = None"
proof -
  let ?c' = "dispatch wr c f now"
  have a: "a < length (c_heap c)" using conn_okD [OF assms(2,3)] by simp
  have ok: "conn_ok ?c'" using assms(2) by (rule conn_ok_dispatch)
  have same: "c_heap ?c' ! a = c_heap c ! a" and len: "a < length (c_heap ?c')"
    and new: "map_of (c_streams ?c') (stream_id f) = Some (length (c_heap c))"
    using assms(1) a by (auto simp: dispatch_def frame_type_defs Let_def update_conv' nth_append)
  have "a \<notin> snd ` set (c_streams ?c')"
  proof
    assume "a \<in> snd ` set (c_streams ?c')"
    then obtain k where "(k, a) \<in> set (c_streams ?c')" by auto
    then have k: "map_of (c_streams ?c') k = Some a"
      using ok by (simp add: conn_ok_def)
    then have "k = stream_id f"
      using conn_okD(2) [OF ok k] conn_okD(2) [OF assms(2,3)] same by simp
    with k new a show False by simp
  qed
  with same len have "c_heap (conn_close ?c') ! a = c_heap c ! a"
    by (simp add: conn_close_def end_streams_nth)
  with assms(4,5) show ?thesis by (simp add: stream_read_empty)
qed

text \<open>
  The stamp of a PING is taken after the PING was written. If the PONG is dispatched before the
  stamp and the clock passes a full second in between, the PONG counts as older than the PING and
  the next round closes a healthy connection.
\<close>

lemma answered_ping_can_time_out:
  "let c0 = new_conn \<lparr>out_chunks = [], out_closed = False\<rparr> True False 1000000;
       c1 = fst (ping_send pipe_write c0 30000000000 (Inr [1, 2, 3, 4, 5, 6, 7, 8]));
       c2 = dispatch pipe_write c1 (control_frame type_pong 0 [1, 2, 3, 4, 5, 6, 7, 8]) 30999999000;
       c3 = ping_stamp c2 31000000000
   in \<not> c_done c3 \<and> snd (ping_send pipe_write c3 60000000000 rnd) \<and>
      c_done (fst (ping_send pipe_write c3 60000000000 rnd))"
  by (simp add: Let_def ping_send_def ping_overdue_def new_conn_def unix_def second_def
      ping_timeout_def send_ping_def send_frame_def write_frame_def control_frame_def
      max_payload_def pipe_write_def dispatch_def frame_type_defs ping_stamp_def conn_close_def)

section \<open>Properties\<close>

text \<open>
  C20: in every reachable state of a connection, under every interleaving of the read loop, the
  ping loop, padding and the users of its streams, over any writer: each entry of the stream map
  points to a live stream object carrying that id, no id is registered twice, every stream's read
  offset is in range, and the next local id has the parity of our side.
\<close>
theorem conn_invariant:
  assumes "conn_reach wr c"
  shows "conn_ok c"
  using assms by (rule conn_reach_ok)

theorem conn_invariant_witness:
  "conn_ok (dispatch pipe_write (new_conn \<lparr>out_chunks = [], out_closed = False\<rparr> False True 5)
     (control_frame type_stream_open 1 []) 7)"
  by (rule conn_invariant, rule conn_reach.step [OF conn_reach.start conn_step.incoming])

text \<open>
  C28: the read loop always ends, and when it does the connection has dispatched exactly the frames
  the peer sent, in order and however the transport cut them up, has recorded the error that ended
  the stream (\<^verbatim>\<open>io.EOF\<close> only if it ended on a frame boundary) and is closed.
\<close>
theorem read_loop_dispatches_stream:
  "\<exists>r'. conn_read_loop pipe_read wr clock 0 r c =
    (case parse_all (pipe_pending r) (in_end r) of (fs, e) \<Rightarrow>
       Some (r', conn_close ((dispatch_all wr c fs clock 0)\<lparr>c_close_err := Some e\<rparr>)))"
proof (cases "parse_all (pipe_pending r) (in_end r)")
  case (Pair fs e)
  with pipe.conn_read_loop_runs [OF this] show ?thesis by auto
qed

text \<open>
  C21: demultiplexing. While a registered stream is open, a run of frames without STREAM_OPEN or
  STREAM_CLOSE for its id appends to its inbox exactly the payloads of the DATA frames that carry
  its id, in order; frames for other streams and control frames leave it alone.
\<close>
theorem demultiplexing:
  assumes "conn_reach wr c" and "map_of (c_streams c) sid = Some a"
    and "read_err (c_heap c ! a) = None"
    and "\<forall>f\<in>set fs. stream_id f = sid \<longrightarrow> ftype f \<noteq> type_stream_open \<and> ftype f \<noteq> type_stream_close"
  shows "map_of (c_streams (dispatch_all wr c fs clock k)) sid = Some a \<and>
    inbox (c_heap (dispatch_all wr c fs clock k) ! a) = inbox (c_heap c ! a) @
      map payload (filter (\<lambda>f. ftype f = type_data \<and> stream_id f = sid) fs)"
  using dispatch_all_demux [OF conn_reach_ok [OF assms(1)] assms(2-4)] by blast

theorem demultiplexing_witness:
  "let c = dispatch pipe_write (new_conn \<lparr>out_chunks = [], out_closed = False\<rparr> False True 5)
         (control_frame type_stream_open 1 []) 7;
       fs = [data_frame 1 [10], data_frame 3 [11], control_frame type_padding 0 [0], data_frame 1 [12]]
   in inbox (c_heap (dispatch_all pipe_write c fs (\<lambda>_. 8) 0) ! 0) = [[10], [12]]"
proof -
  let ?c = "dispatch pipe_write (new_conn \<lparr>out_chunks = [], out_closed = False\<rparr> False True 5)
         (control_frame type_stream_open 1 []) 7"
  let ?fs = "[data_frame 1 [10], data_frame 3 [11], control_frame type_padding 0 [0], data_frame 1 [12]]"
  have "conn_reach pipe_write ?c"
    by (rule conn_reach.step [OF conn_reach.start conn_step.incoming])
  from demultiplexing [OF this, of 1 0 ?fs "\<lambda>_. 8" 0] show ?thesis
    by (simp add: dispatch_def control_frame_def new_conn_def frame_type_defs Let_def)
qed

text \<open>
  C22: keepalive answers. Over an open transport, dispatching any frames writes exactly one PONG per
  PING, carrying the same cookie, and nothing else; PONGs are never answered, so two peers pinging
  each other cannot start an endless exchange.
\<close>
theorem every_ping_answered_once:
  assumes "\<not> out_closed (c_enc c)" and "list_all valid_frame fs"
  shows "pipe_sent (c_enc (dispatch_all pipe_write c fs clock k)) = pipe_sent (c_enc c) @
      encode_frames (map pong_for (filter (\<lambda>f. ftype f = type_ping) fs)) \<and>
    filter (\<lambda>f. ftype f = type_ping) (map pong_for fs) = []"
  using dispatch_all_pongs [OF assms]
  by (simp add: filter_empty_conv pong_for_def control_frame_def frame_type_defs)

theorem every_ping_answered_once_witness:
  "pipe_sent (c_enc (dispatch_all pipe_write (new_conn \<lparr>out_chunks = [], out_closed = False\<rparr> True False 5)
      [control_frame type_ping 0 [9], control_frame type_pong 0 [8]] (\<lambda>_. 6) 0)) =
    [] @ encode_frames [pong_for (control_frame type_ping 0 [9])]"
  using every_ping_answered_once
    [of "new_conn \<lparr>out_chunks = [], out_closed = False\<rparr> True False 5"
      "[control_frame type_ping 0 [9], control_frame type_pong 0 [8]]" "\<lambda>_. 6" 0]
  by (simp add: new_conn_def valid_frame_def control_frame_def frame_type_defs max_payload_def
      pipe_sent_def)

text \<open>
  C31: closing. \<^verbatim>\<open>Close\<close> is idempotent and leaves no reader of a registered stream waiting: after
  it every \<^verbatim>\<open>Read\<close> on such a stream returns, the messages received before are still handed
  out, and an error set earlier is kept.
\<close>
theorem close_releases_readers:
  assumes "conn_reach wr c" and "\<not> c_done c" and "map_of (c_streams c) sid = Some a"
  shows "conn_close (conn_close c) = conn_close c \<and> c_done (conn_close c) \<and>
    stream_read (c_heap (conn_close c) ! a) n \<noteq> None \<and>
    inbox (c_heap (conn_close c) ! a) = inbox (c_heap c ! a) \<and>
    read_err (c_heap (conn_close c) ! a) =
      (case read_err (c_heap c ! a) of None \<Rightarrow> Some EOF | Some e \<Rightarrow> Some e)"
proof -
  have ok: "conn_ok c" using assms(1) by (rule conn_reach_ok)
  have "a < length (c_heap c)" and "a \<in> snd ` set (c_streams c)"
    using conn_okD [OF ok assms(3)] map_of_SomeD [OF assms(3)] by force+
  with assms(2) have "c_heap (conn_close c) ! a = deliver_err (c_heap c ! a) EOF"
    by (simp add: conn_close_def end_streams_nth)
  moreover have "stream_read (deliver_err s EOF) n \<noteq> None" for s
    by (auto simp: stream_read_def deliver_err_def Let_def split: list.splits)
  ultimately show ?thesis
    using assms(2) by (simp add: conn_close_def)
qed

theorem close_releases_readers_witness:
  "let c = dispatch pipe_write (new_conn \<lparr>out_chunks = [], out_closed = False\<rparr> False True 5)
         (control_frame type_stream_open 1 []) 7
   in stream_read (c_heap c ! 0) 4 = None \<and> stream_read (c_heap (conn_close c) ! 0) 4 \<noteq> None"
proof -
  let ?c = "dispatch pipe_write (new_conn \<lparr>out_chunks = [], out_closed = False\<rparr> False True 5)
         (control_frame type_stream_open 1 []) 7"
  have r: "conn_reach pipe_write ?c"
    by (rule conn_reach.step [OF conn_reach.start conn_step.incoming])
  have s: "\<not> c_done ?c" "map_of (c_streams ?c) 1 = Some 0" "stream_read (c_heap ?c ! 0) 4 = None"
    by (simp_all add: dispatch_def control_frame_def new_conn_def frame_type_defs Let_def
        new_stream_def stream_read_def)
  show ?thesis
    using close_releases_readers [OF r s(1,2), of 4] s(3) by (simp add: Let_def)
qed

text \<open>
  local stream ids. The \<open>k\<close>-th \<^verbatim>\<open>OpenStream\<close> from now takes id \<open>next + 2k\<close> (mod \<open>2^32\<close>): ids
  keep our parity even when the counter wraps, no two of any \<open>2^31\<close> consecutive opens share an id,
  and the one after that takes the first id again.
\<close>
theorem local_stream_ids:
  "c_next (register_many k c) = c_next c + word_of_nat (2 * k) \<and>
   odd (c_next (register_many k c)) = odd (c_next c) \<and>
   (c_next (register_many k c) = c_next c) = (2 ^ 31 dvd k)"
proof -
  have next_id: "c_next (register_many k c) = c_next c + word_of_nat (2 * k)"
    by (rule register_many_next)
  have "odd (c_next (register_many k c)) = odd (c_next c)"
    by (induction k) (simp_all add: register_many_Suc open_register_def, simp add: register_many_def)
  moreover have "(word_of_nat (2 * k) :: 32 word) = 0 \<longleftrightarrow> 2 * 2 ^ 31 dvd 2 * k"
    by (subst word_of_nat_eq_0_iff) simp
  ultimately show ?thesis by (simp only: next_id) simp
qed



end
