(* ===== verification/Replay.thy ===== *)
theory Replay
  imports Prelude
begin

text \<open>
  The 64-entry anti-replay window of \<^verbatim>\<open>internal/auth/replay.go\<close>, kept at its machine width: the
  head nonce and the bitmap are \<^verbatim>\<open>uint64\<close>, the shift and the mask are word operations. The
  abstract window is the set of nonces accepted so far; \<open>window_rel\<close> relates the two and every
  operation is shown to refine its abstract counterpart.
\<close>

section \<open>The window\<close>

record replay_window =
  rw_head :: "64 word"
  rw_bitmap :: "64 word"
  rw_has_any :: bool

definition window_size :: "64 word" where
  "window_size = 64"

definition zero_window :: replay_window where
  "zero_window = \<lparr>rw_head = 0, rw_bitmap = 0, rw_has_any = False\<rparr>"

definition mark :: "replay_window \<Rightarrow> 64 word \<Rightarrow> replay_window \<times> bool" where
  "mark w n =
     (if \<not> rw_has_any w then (w\<lparr>rw_has_any := True, rw_head := n, rw_bitmap := 1\<rparr>, True)
      else if rw_head w < n then
        let shift = n - rw_head w;
            bm = (if window_size \<le> shift then 1 else push_bit (unat shift) (rw_bitmap w) OR 1)
        in (w\<lparr>rw_bitmap := bm, rw_head := n\<rparr>, True)
      else
        let diff = rw_head w - n
        in if window_size \<le> diff then (w, False)
           else
             let mask = push_bit (unat diff) 1
             in if rw_bitmap w AND mask \<noteq> 0 then (w, False)
                else (w\<lparr>rw_bitmap := rw_bitmap w OR mask\<rparr>, True))"

definition window_head :: "replay_window \<Rightarrow> 64 word" where
  "window_head w = rw_head w"

definition reset_window :: "replay_window \<Rightarrow> replay_window" where
  "reset_window w = w\<lparr>rw_head := 0, rw_bitmap := 0, rw_has_any := False\<rparr>"

text \<open>A receiver that marks each nonce of a list in turn, with the verdicts.\<close>

fun mark_all :: "replay_window \<Rightarrow> 64 word list \<Rightarrow> replay_window \<times> bool list" where
  "mark_all w [] = (w, [])"
| "mark_all w (n # ns) =
     (case mark w n of (w1, r) \<Rightarrow> (case mark_all w1 ns of (w2, rs) \<Rightarrow> (w2, r # rs)))"

definition accepted :: "'a list \<Rightarrow> bool list \<Rightarrow> 'a list" where
  "accepted ns rs = map fst (filter snd (zip ns rs))"

lemma accepted_simps [simp]:
  "accepted [] rs = []"
  "accepted (n # ns) (r # rs) = (if r then n # accepted ns rs else accepted ns rs)"
  by (simp_all add: accepted_def)

section \<open>The abstract window\<close>

definition fresh :: "nat set \<Rightarrow> nat \<Rightarrow> bool" where
  "fresh S k \<longleftrightarrow> S = {} \<or> Max S < k \<or> (Max S - k < 64 \<and> k \<notin> S)"

definition abs_mark :: "nat set \<Rightarrow> nat \<Rightarrow> nat set \<times> bool" where
  "abs_mark S k = (if fresh S k then (insert k S, True) else (S, False))"

definition window_rel :: "replay_window \<Rightarrow> nat set \<Rightarrow> bool" where
  "window_rel w S \<longleftrightarrow>
     finite S \<and> (rw_has_any w \<longleftrightarrow> S \<noteq> {}) \<and>
     (S \<noteq> {} \<longrightarrow> unat (rw_head w) = Max S \<and>
        (\<forall>i<64. bit (rw_bitmap w) i \<longleftrightarrow> i \<le> Max S \<and> Max S - i \<in> S))"

lemma window_rel_zero [simp]: "window_rel zero_window {}"
  by (simp add: window_rel_def zero_window_def)

lemma window_rel_reset [simp]: "window_rel (reset_window w) {}"
  by (simp add: window_rel_def reset_window_def)

section \<open>Word facts\<close>

lemma unat_sub_head: "(n :: 64 word) \<le> h \<Longrightarrow> unat (h - n) = unat h - unat n"
  by (simp add: unat_sub)

lemma word64_le_iff: "window_size \<le> d \<longleftrightarrow> 64 \<le> unat d"
  by (simp add: window_size_def word_le_nat_alt)

lemma bit_shift_in:
  "i < 64 \<Longrightarrow> bit (push_bit s bm OR (1 :: 64 word)) i \<longleftrightarrow> i = 0 \<or> (s \<le> i \<and> bit bm (i - s))"
  by (auto simp: bit_simps)

lemma bit_set_mask:
  "i < 64 \<Longrightarrow> bit (bm OR (2 :: 64 word) ^ s) i \<longleftrightarrow> bit bm i \<or> i = s"
  by (auto simp: bit_simps)

section \<open>Each mark refines the abstract one\<close>

lemma mark_first:
  assumes "window_rel w {}" and "mark w n = (w', r)"
  shows "r \<and> window_rel w' {unat n}"
  using assms by (auto simp: mark_def window_rel_def bit_simps)

lemma mark_newer:
  assumes rel: "window_rel w S" and "S \<noteq> {}" and "Max S < unat n" and mk: "mark w n = (w', r)"
  shows "r \<and> window_rel w' (insert (unat n) S)"
proof -
  let ?h = "Max S" and ?s = "unat n - Max S"
  from rel \<open>S \<noteq> {}\<close> have h: "unat (rw_head w) = ?h" and fin: "finite S" and any: "rw_has_any w"
    and bits: "\<And>i. i < 64 \<Longrightarrow> bit (rw_bitmap w) i \<longleftrightarrow> i \<le> ?h \<and> ?h - i \<in> S"
    by (auto simp: window_rel_def)
  have lt: "rw_head w < n" using h assms(3) by (simp add: word_less_nat_alt)
  then have s: "unat (n - rw_head w) = ?s" using h by (simp add: unat_sub)
  have mx: "Max (insert (unat n) S) = unat n"
    by (subst Max_insert [OF fin \<open>S \<noteq> {}\<close>]) (use assms(3) in simp)
  have above: "k \<notin> S" if "?h < k" for k
    using that by (meson Max_ge fin leD)
  define bm where "bm = (if window_size \<le> n - rw_head w then 1
    else push_bit (unat (n - rw_head w)) (rw_bitmap w) OR 1)"
  have "bit bm i \<longleftrightarrow> i \<le> unat n \<and> unat n - i \<in> insert (unat n) S" if "i < 64" for i
  proof (cases "64 \<le> ?s")
    case True
    then have "bm = 1" by (simp add: bm_def word64_le_iff s)
    moreover have "i < ?s" using True that by simp
    moreover have "unat n - i \<notin> S" using \<open>i < ?s\<close> by (intro above) simp
    ultimately show ?thesis using that by (auto simp: bit_simps)
  next
    case False
    then have bm: "bm = push_bit ?s (rw_bitmap w) OR 1" by (simp add: bm_def word64_le_iff s)
    show ?thesis
    proof (cases "?s \<le> i")
      case True
      then have shift: "unat n - i = ?h - (i - ?s)" "(i \<le> unat n) = (i - ?s \<le> ?h)"
        using assms(3) by arith+
      have "i \<noteq> 0" and "unat n - i \<noteq> unat n"
        using True assms(3) by simp_all
      have "bit bm i \<longleftrightarrow> bit (rw_bitmap w) (i - ?s)"
        using that True \<open>i \<noteq> 0\<close> by (simp add: bm bit_shift_in)
      also have "\<dots> \<longleftrightarrow> i - ?s \<le> ?h \<and> ?h - (i - ?s) \<in> S"
        using that by (intro bits) simp
      also have "\<dots> \<longleftrightarrow> i \<le> unat n \<and> unat n - i \<in> S"
        by (simp only: shift)
      finally show ?thesis using \<open>unat n - i \<noteq> unat n\<close> by simp
    next
      case False
      then have "unat n - i \<notin> S" by (intro above) simp
      with False that assms(3) show ?thesis by (auto simp: bm bit_shift_in)
    qed
  qed
  moreover have "w' = w\<lparr>rw_bitmap := bm, rw_head := n\<rparr>" and r
    using mk any lt by (simp_all add: mark_def bm_def Let_def)
  ultimately show ?thesis using fin mx any by (simp add: window_rel_def)
qed

lemma mark_within:
  assumes rel: "window_rel w S" and ne: "S \<noteq> {}" and le: "unat n \<le> Max S"
    and mk: "mark w n = (w', r)"
  shows "(r \<longleftrightarrow> Max S - unat n < 64 \<and> unat n \<notin> S) \<and>
    window_rel w' (if r then insert (unat n) S else S)"
proof -
  let ?h = "Max S" and ?d = "Max S - unat n"
  from rel ne have h: "unat (rw_head w) = ?h" and fin: "finite S" and any: "rw_has_any w"
    and bits: "\<And>i. i < 64 \<Longrightarrow> bit (rw_bitmap w) i \<longleftrightarrow> i \<le> ?h \<and> ?h - i \<in> S"
    by (auto simp: window_rel_def)
  have le': "n \<le> rw_head w" using h le by (simp add: word_le_nat_alt)
  then have nlt: "\<not> rw_head w < n" by simp
  have d: "unat (rw_head w - n) = ?d" using le' h by (simp add: unat_sub_head)
  show ?thesis
  proof (cases "?d < 64 \<and> unat n \<notin> S")
    case True
    then have clear: "\<not> bit (rw_bitmap w) ?d" using bits [of ?d] le by simp
    with True mk any nlt d
    have r: "r" and w': "w' = w\<lparr>rw_bitmap := rw_bitmap w OR 2 ^ ?d\<rparr>"
      by (auto simp: mark_def Let_def word64_le_iff and_exp_eq_0_iff_not_bit)
    have mx: "Max (insert (unat n) S) = ?h"
      using fin ne le by (simp add: max_def)
    have "bit (rw_bitmap w OR 2 ^ ?d) i \<longleftrightarrow> i \<le> ?h \<and> ?h - i \<in> insert (unat n) S"
      if "i < 64" for i
      using bits [OF that] that le by (auto simp: bit_set_mask)
    with r w' True mx fin any h show ?thesis by (simp add: window_rel_def)
  next
    case False
    have "r = False \<and> w' = w"
    proof (cases "64 \<le> ?d")
      case True
      with mk any nlt d show ?thesis by (auto simp: mark_def Let_def word64_le_iff)
    next
      case notold: False
      with False have "bit (rw_bitmap w) ?d" using bits [of ?d] le by simp
      with notold mk any nlt d show ?thesis
        by (auto simp: mark_def Let_def word64_le_iff and_exp_eq_0_iff_not_bit)
    qed
    with False rel show ?thesis by auto
  qed
qed

lemma mark_refines:
  assumes "window_rel w S" and "mark w n = (w', r)"
  shows "abs_mark S (unat n) = (S', r') \<Longrightarrow> r = r' \<and> window_rel w' S'"
  using mark_first [of w n w' r] mark_newer [of w S n w' r] mark_within [of w S n w' r] assms
  by (cases "S = {}"; cases "Max S < unat n")
    (auto simp: abs_mark_def fresh_def split: if_splits)

fun abs_mark_all :: "nat set \<Rightarrow> nat list \<Rightarrow> nat set \<times> bool list" where
  "abs_mark_all S [] = (S, [])"
| "abs_mark_all S (k # ks) =
     (case abs_mark S k of (S1, r) \<Rightarrow> (case abs_mark_all S1 ks of (S2, rs) \<Rightarrow> (S2, r # rs)))"

lemma mark_all_refines:
  "window_rel w S \<Longrightarrow> mark_all w ns = (w', rs) \<Longrightarrow> abs_mark_all S (map unat ns) = (S', rs') \<Longrightarrow>
   rs = rs' \<and> window_rel w' S'"
proof (induction ns arbitrary: w S w' S' rs rs')
  case Nil
  then show ?case by simp
next
  case (Cons n ns)
  obtain w1 r where m: "mark w n = (w1, r)" by fastforce
  obtain S1 r1 where a: "abs_mark S (unat n) = (S1, r1)" by fastforce
  obtain w2 rs2 where ms: "mark_all w1 ns = (w2, rs2)" by fastforce
  obtain S2 rs3 where as: "abs_mark_all S1 (map unat ns) = (S2, rs3)" by fastforce
  from mark_refines [OF Cons.prems(1) m a] have "r = r1" "window_rel w1 S1" by auto
  with Cons.IH [OF _ ms as] Cons.prems m a ms as show ?case by auto
qed

lemma abs_mark_all_distinct:
  "abs_mark_all S ks = (S', rs) \<Longrightarrow> finite S \<Longrightarrow>
   distinct (accepted ks rs) \<and> set (accepted ks rs) \<inter> S = {} \<and> S' = S \<union> set (accepted ks rs)"
proof (induction ks arbitrary: S S' rs)
  case Nil
  then show ?case by simp
next
  case (Cons k ks)
  obtain S1 r where a: "abs_mark S k = (S1, r)" by fastforce
  obtain S2 rs2 where as: "abs_mark_all S1 ks = (S2, rs2)" by fastforce
  have S1: "S1 = (if r then insert k S else S)" and new: "r \<Longrightarrow> k \<notin> S"
    using a Cons.prems(2)
    by (auto simp: abs_mark_def fresh_def leD Max_ge split: if_splits)
  then have "finite S1" using Cons.prems(2) by simp
  with Cons.IH [OF as] have "distinct (accepted ks rs2)" "set (accepted ks rs2) \<inter> S1 = {}"
    "S2 = S1 \<union> set (accepted ks rs2)" by auto
  with Cons.prems(1) a as S1 new show ?case by (cases r) auto
qed

lemma accepted_unat: "accepted (map unat ns) rs = map unat (accepted ns rs)"
  by (simp add: accepted_def zip_map1 filter_map comp_def case_prod_beta)

lemma replay_run:
  obtains w rs S where "mark_all zero_window ns = (w, rs)"
    and "abs_mark_all {} (map unat ns) = (S, rs)" and "window_rel w S"
    and "distinct (accepted ns rs)" and "S = unat ` set (accepted ns rs)"
proof -
  obtain w rs S rs' where *: "mark_all zero_window ns = (w, rs)"
    "abs_mark_all {} (map unat ns) = (S, rs')" by fastforce
  from mark_all_refines [OF window_rel_zero *] have "rs = rs'" "window_rel w S" by auto
  moreover from abs_mark_all_distinct [OF *(2)] accepted_unat [of ns rs'] calculation
  have "distinct (accepted ns rs)" "S = unat ` set (accepted ns rs)"
    by (auto dest: distinct_map [THEN iffD1])
  ultimately show thesis using that * by blast
qed

lemma mark_reset: "mark_all (reset_window w) ns = mark_all zero_window ns"
  by (cases w) (simp add: reset_window_def zero_window_def)

section \<open>Properties\<close>

text \<open>
  C11: from the zero value, and after any \<^verbatim>\<open>Reset\<close>, the verdicts \<^verbatim>\<open>Mark\<close> returns over any
  sequence of nonces are those of the abstract window (the set of accepted nonces), and the head
  and bitmap it ends with represent that set.
\<close>
theorem replay_refines_abstract_window:
  "snd (mark_all (reset_window w) ns) = snd (abs_mark_all {} (map unat ns)) \<and>
   window_rel (fst (mark_all (reset_window w) ns)) (fst (abs_mark_all {} (map unat ns)))"
  by (rule replay_run [of ns]) (simp add: mark_reset)

text \<open>
  no nonce is accepted twice: over any sequence of nonces, in any order, the accepted ones are
  distinct.
\<close>
theorem replay_accepts_at_most_once:
  "distinct (accepted ns (snd (mark_all zero_window ns)))"
  by (rule replay_run [of ns]) simp

text \<open>
  the verdict on the next nonce, exactly: it is accepted if nothing was accepted before, if it
  is above every accepted nonce, or if it is less than 64 below the highest accepted one and was
  not accepted itself; it is dropped otherwise. So reordering within the window costs nothing.
\<close>
theorem replay_verdict:
  "snd (mark (fst (mark_all zero_window ns)) n) =
     (let A = unat ` set (accepted ns (snd (mark_all zero_window ns)))
      in A = {} \<or> Max A < unat n \<or> (Max A - unat n < 64 \<and> unat n \<notin> A))"
proof (rule replay_run [of ns])
  fix w rs S
  assume run: "mark_all zero_window ns = (w, rs)" "window_rel w S" "S = unat ` set (accepted ns rs)"
  obtain w' r where m: "mark w n = (w', r)" by fastforce
  obtain S' r' where "abs_mark S (unat n) = (S', r')" by fastforce
  with mark_refines [OF run(2) m] have "r = fresh S (unat n)"
    by (auto simp: abs_mark_def split: if_splits)
  with m run(1,3) show ?thesis by (simp add: fresh_def Let_def)
qed

end
