(* ===== verification/Frame_Cipher.thy ===== *)
theory Frame_Cipher
  imports Go_IO
begin

text \<open>
  The sealed-frame layer: \<^verbatim>\<open>internal/auth/session.go\<close> and \<^verbatim>\<open>internal/crypto/frame_cipher.go\<close>.

  The Noise cipher states come from a third-party package, so their type \<open>'c\<close> and the functions
  \<open>enc\<close> (\<^verbatim>\<open>CipherState.Encrypt\<close>), \<open>dec\<close> (\<^verbatim>\<open>CipherState.Decrypt\<close>) and \<open>nonce\<close> are parameters. What the
  program relies on is stated by two predicates over them: \<open>noise_law\<close> (paired states: what one
  side seals the other side opens, and both move to paired states; a 16-byte tag) and
  \<open>only_opens\<close> (at each step the receiver accepts nothing but the sender's next ciphertext).

  \<open>open_frame\<close>, \<open>opened\<close> and \<open>open_all\<close> say on byte lists what the reader must do.
\<close>

type_synonym 'c aead = "'c \<Rightarrow> bytes \<Rightarrow> bytes \<Rightarrow> 'c \<times> (go_error + bytes)"

section \<open>Sessions\<close>

record 'c session =
  ses_send :: "'c option"
  ses_recv :: "'c option"

definition new_session :: "'c option \<Rightarrow> 'c option \<Rightarrow> 'c session" where
  "new_session snd_cs rcv_cs = \<lparr>ses_send = snd_cs, ses_recv = rcv_cs\<rparr>"

text \<open>A nil \<^verbatim>\<open>*Session\<close> is \<open>None\<close>, a nil cipher state inside it too.\<close>

definition no_session :: go_error where
  "no_session = Errorf ''auth: session not initialized'' []"

definition session_encrypt ::
  "'c aead \<Rightarrow> 'c session option \<Rightarrow> bytes \<Rightarrow> bytes \<Rightarrow> 'c session option \<times> (go_error + bytes)" where
  "session_encrypt enc ses ad p =
     (case ses of
        None \<Rightarrow> (ses, Inl no_session)
      | Some s \<Rightarrow>
          (case ses_send s of
             None \<Rightarrow> (ses, Inl no_session)
           | Some cs \<Rightarrow>
               (case enc cs ad p of
                  (cs', Inl e) \<Rightarrow>
                    (Some (s\<lparr>ses_send := Some cs'\<rparr>), Inl (Wrapf ''auth: session encrypt: %w'' e))
                | (cs', Inr ct) \<Rightarrow> (Some (s\<lparr>ses_send := Some cs'\<rparr>), Inr ct))))"

definition session_decrypt ::
  "'c aead \<Rightarrow> 'c session option \<Rightarrow> bytes \<Rightarrow> bytes \<Rightarrow> 'c session option \<times> (go_error + bytes)" where
  "session_decrypt dec ses ad ct =
     (case ses of
        None \<Rightarrow> (ses, Inl no_session)
      | Some s \<Rightarrow>
          (case ses_recv s of
             None \<Rightarrow> (ses, Inl no_session)
           | Some cs \<Rightarrow>
               (case dec cs ad ct of
                  (cs', Inl e) \<Rightarrow>
                    (Some (s\<lparr>ses_recv := Some cs'\<rparr>), Inl (Wrapf ''auth: session decrypt: %w'' e))
                | (cs', Inr p) \<Rightarrow> (Some (s\<lparr>ses_recv := Some cs'\<rparr>), Inr p))))"

definition send_nonce :: "('c \<Rightarrow> 64 word) \<Rightarrow> 'c session option \<Rightarrow> 64 word" where
  "send_nonce nonce ses =
     (case ses of None \<Rightarrow> 0 | Some s \<Rightarrow> (case ses_send s of None \<Rightarrow> 0 | Some cs \<Rightarrow> nonce cs))"

definition recv_nonce :: "('c \<Rightarrow> 64 word) \<Rightarrow> 'c session option \<Rightarrow> 64 word" where
  "recv_nonce nonce ses =
     (case ses of None \<Rightarrow> 0 | Some s \<Rightarrow> (case ses_recv s of None \<Rightarrow> 0 | Some cs \<Rightarrow> nonce cs))"

section \<open>The frame cipher\<close>

definition max_sealed_payload :: nat where
  "max_sealed_payload = 60 * 1024"

record ('c, 'r, 'w) frame_cipher =
  fc_rd :: 'r
  fc_wr :: 'w
  fc_session :: "'c session option"
  fc_buf :: bytes

definition new_cipher :: "'r \<Rightarrow> 'w \<Rightarrow> 'c session option \<Rightarrow> ('c, 'r, 'w) frame_cipher" where
  "new_cipher r w ses = \<lparr>fc_rd = r, fc_wr = w, fc_session = ses, fc_buf = []\<rparr>"

definition write_limit_error :: "nat \<Rightarrow> go_error" where
  "write_limit_error n =
     Errorf ''crypto: write %d > MaxSealedPayload %d'' [int n, int max_sealed_payload]"

definition seal :: "bytes \<Rightarrow> bytes" where
  "seal ct = put_be32 (word_of_nat (length ct)) @ ct"

text \<open>
  \<^verbatim>\<open>Write\<close> in its two parts: sealing, which happens before the lock is taken, and the single
  \<^verbatim>\<open>inner.Write\<close> under \<^verbatim>\<open>writeMu\<close>.
\<close>

definition fc_seal ::
  "'c aead \<Rightarrow> ('c, 'r, 'w) frame_cipher \<Rightarrow> bytes \<Rightarrow> ('c, 'r, 'w) frame_cipher \<times> (go_error + bytes)" where
  "fc_seal enc c p =
     (case session_encrypt enc (fc_session c) [] p of
        (ses, Inl e) \<Rightarrow> (c\<lparr>fc_session := ses\<rparr>, Inl e)
      | (ses, Inr ct) \<Rightarrow> (c\<lparr>fc_session := ses\<rparr>, Inr (seal ct)))"

definition fc_emit ::
  "'w writer \<Rightarrow> ('c, 'r, 'w) frame_cipher \<Rightarrow> bytes \<Rightarrow> ('c, 'r, 'w) frame_cipher \<times> go_error option" where
  "fc_emit wr c fr =
     (case wr (fc_wr c) fr of
        (w', n, e) \<Rightarrow> (c\<lparr>fc_wr := w'\<rparr>, map_option (Wrapf ''crypto: write frame: %w'') e))"

definition fc_write :: "'c aead \<Rightarrow> 'w writer \<Rightarrow> ('c, 'r, 'w) frame_cipher writer" where
  "fc_write enc wr c p =
     (if p = [] then (c, 0, None)
      else if max_sealed_payload < length p then (c, 0, Some (write_limit_error (length p)))
      else
        case fc_seal enc c p of
          (c1, Inl e) \<Rightarrow> (c1, 0, Some e)
        | (c1, Inr fr) \<Rightarrow>
            (case fc_emit wr c1 fr of
               (c2, Some e) \<Rightarrow> (c2, 0, Some e)
             | (c2, None) \<Rightarrow> (c2, length p, None)))"

definition zero_length_error :: go_error where
  "zero_length_error = Errorf ''crypto: zero-length sealed frame'' []"

definition length_limit_error :: "nat \<Rightarrow> go_error" where
  "length_limit_error n = Errorf ''crypto: sealed frame length %d exceeds limit'' [int n]"

definition fc_read :: "'c aead \<Rightarrow> 'r reader \<Rightarrow> ('c, 'r, 'w) frame_cipher reader" where
  "fc_read dec rd c n =
     (if n = 0 then Some (c, [], None)
      else if fc_buf c \<noteq> [] then Some (c\<lparr>fc_buf := drop n (fc_buf c)\<rparr>, take n (fc_buf c), None)
      else
        case io_read_full rd (fc_rd c) 4 of
          None \<Rightarrow> None
        | Some (r1, hdr, Some e) \<Rightarrow> Some (c\<lparr>fc_rd := r1\<rparr>, [], Some e)
        | Some (r1, hdr, None) \<Rightarrow>
            let len = unat (get_be32 hdr)
            in if len = 0 then Some (c\<lparr>fc_rd := r1\<rparr>, [], Some zero_length_error)
               else if max_sealed_payload + 64 < len
               then Some (c\<lparr>fc_rd := r1\<rparr>, [], Some (length_limit_error len))
               else
                 case io_read_full rd r1 len of
                   None \<Rightarrow> None
                 | Some (r2, ct, Some e) \<Rightarrow>
                     Some (c\<lparr>fc_rd := r2\<rparr>, [], Some (Wrapf ''crypto: read ciphertext: %w'' e))
                 | Some (r2, ct, None) \<Rightarrow>
                     (case session_decrypt dec (fc_session c) [] ct of
                        (ses, Inl e) \<Rightarrow> Some (c\<lparr>fc_rd := r2, fc_session := ses\<rparr>, [], Some e)
                      | (ses, Inr pt) \<Rightarrow>
                          if n < length pt
                          then Some (c\<lparr>fc_rd := r2, fc_session := ses, fc_buf := drop n pt\<rparr>,
                                 take n pt, None)
                          else Some (c\<lparr>fc_rd := r2, fc_session := ses\<rparr>, pt, None)))"

definition fc_close ::
  "('w \<Rightarrow> 'w \<times> go_error option) \<Rightarrow> ('c, 'r, 'w) frame_cipher \<Rightarrow>
   ('c, 'r, 'w) frame_cipher \<times> go_error option" where
  "fc_close cls c = (case cls (fc_wr c) of (w', e) \<Rightarrow> (c\<lparr>fc_wr := w'\<rparr>, e))"

section \<open>What the reader does, on byte lists\<close>

definition open_frame ::
  "'c aead \<Rightarrow> 'c session option \<Rightarrow> bytes \<Rightarrow> go_error \<Rightarrow>
   go_error + bytes \<times> 'c session option \<times> bytes" where
  "open_frame dec ses bs fin =
     (if length bs < 4 then Inl (short_error bs fin)
      else
        let len = unat (get_be32 (take 4 bs)); body = drop 4 bs
        in if len = 0 then Inl zero_length_error
           else if max_sealed_payload + 64 < len then Inl (length_limit_error len)
           else if length body < len
           then Inl (Wrapf ''crypto: read ciphertext: %w'' (short_error body fin))
           else
             case session_decrypt dec ses [] (take len body) of
               (ses', Inl e) \<Rightarrow> Inl e
             | (ses', Inr pt) \<Rightarrow> Inr (pt, ses', drop len body))"

lemma open_frame_shorter:
  "open_frame dec ses bs fin = Inr (pt, ses', rest) \<Longrightarrow> length rest < length bs"
  by (auto simp: open_frame_def Let_def split: if_splits prod.splits sum.splits)

text \<open>All the plaintext of a stream up to its first error, and that error.\<close>

function opened ::
  "'c aead \<Rightarrow> 'c session option \<Rightarrow> bytes \<Rightarrow> go_error \<Rightarrow> bytes \<times> go_error" where
  "opened dec ses bs fin =
     (case open_frame dec ses bs fin of
        Inl e \<Rightarrow> ([], e)
      | Inr (pt, ses', rest) \<Rightarrow> (case opened dec ses' rest fin of (q, e) \<Rightarrow> (pt @ q, e)))"
  by pat_completeness auto
termination
  by (relation "measure (\<lambda>(dec, ses, bs, fin). length bs)") (auto dest: open_frame_shorter)

declare opened.simps [simp del]

text \<open>The plaintext of a whole number of sealed frames that all open, and the session after.\<close>

function open_all :: "'c aead \<Rightarrow> 'c session option \<Rightarrow> bytes \<Rightarrow> (bytes \<times> 'c session option) option" where
  "open_all dec ses bs =
     (if bs = [] then Some ([], ses)
      else
        case open_frame dec ses bs EOF of
          Inl e \<Rightarrow> None
        | Inr (pt, ses', rest) \<Rightarrow>
            map_option (\<lambda>(q, ses''). (pt @ q, ses'')) (open_all dec ses' rest))"
  by pat_completeness auto
termination
  by (relation "measure (\<lambda>(dec, ses, bs). length bs)") (auto dest: open_frame_shorter)

declare open_all.simps [simp del]

lemma open_all_Nil [simp]: "open_all dec ses [] = Some ([], ses)"
  by (simp add: open_all.simps)

lemma open_frame_extend:
  assumes "open_frame dec ses bs fin = Inr (pt, ses', rest)"
  shows "open_frame dec ses (bs @ cs) fin' = Inr (pt, ses', rest @ cs)"
  using assms by (auto simp: open_frame_def Let_def split: if_splits prod.splits sum.splits)

lemma open_all_step:
  "open_frame dec ses bs fin = Inr (pt, ses', rest) \<Longrightarrow>
   open_all dec ses (bs @ cs) =
     map_option (\<lambda>(q, ses''). (pt @ q, ses'')) (open_all dec ses' (rest @ cs))"
  using open_frame_extend [of dec ses bs fin pt ses' rest cs EOF]
  by (subst open_all.simps) (auto simp: open_frame_def)

lemma open_all_induct [consumes 1, case_names Nil frame]:
  assumes "open_all dec ses bs = Some (pt, ses')"
    and "\<And>ses. P ses [] [] ses"
    and "\<And>ses bs p ses1 rest q ses'. open_frame dec ses bs EOF = Inr (p, ses1, rest) \<Longrightarrow>
      open_all dec ses1 rest = Some (q, ses') \<Longrightarrow> P ses1 rest q ses' \<Longrightarrow> P ses bs (p @ q) ses'"
  shows "P ses bs pt ses'"
  using assms(1)
proof (induction "length bs" arbitrary: ses bs pt rule: less_induct)
  case less
  show ?case
  proof (cases "bs = []")
    case True
    with less.prems assms(2) show ?thesis by simp
  next
    case False
    with less.prems obtain p ses1 rest q where o: "open_frame dec ses bs EOF = Inr (p, ses1, rest)"
      "open_all dec ses1 rest = Some (q, ses')" "pt = p @ q"
      by (subst (asm) open_all.simps) (auto split: sum.splits prod.splits)
    with less.hyps [OF open_frame_shorter [OF o(1)] o(2)] assms(3) show ?thesis by simp
  qed
qed

lemma open_all_append:
  "open_all dec ses bs = Some (pt, ses') \<Longrightarrow>
   open_all dec ses (bs @ cs) = map_option (\<lambda>(q, ses''). (pt @ q, ses'')) (open_all dec ses' cs)"
proof (induction rule: open_all_induct)
  case (Nil ses)
  show ?case by (cases "open_all dec ses cs") auto
next
  case (frame ses bs p ses1 rest q ses')
  show ?case
    by (simp add: open_all_step [OF frame.hyps(1)] frame.IH option.map_comp comp_def case_prod_beta)
qed

lemma opened_open_all:
  "open_all dec ses bs = Some (pt, ses') \<Longrightarrow>
   opened dec ses (bs @ cs) fin = (case opened dec ses' cs fin of (q, e) \<Rightarrow> (pt @ q, e))"
proof (induction rule: open_all_induct)
  case (Nil ses)
  show ?case by simp
next
  case (frame ses bs p ses1 rest q ses')
  show ?case
    using open_frame_extend [OF frame.hyps(1), of cs fin] frame.IH
    by (subst opened.simps) (simp split: prod.splits)
qed

lemma opened_Nil [simp]: "opened dec ses [] fin = ([], fin)"
  by (subst opened.simps) (simp add: open_frame_def short_error_def)

lemma opened_whole:
  "open_all dec ses bs = Some (pt, ses') \<Longrightarrow> opened dec ses bs fin = (pt, fin)"
  using opened_open_all [of dec ses bs pt ses' "[]" fin] by simp

section \<open>The reader is a lawful byte source over any lawful byte source\<close>

definition fc_plain ::
  "'c aead \<Rightarrow> ('r \<Rightarrow> bytes) \<Rightarrow> ('r \<Rightarrow> go_error) \<Rightarrow> ('c, 'r, 'w) frame_cipher \<Rightarrow> bytes \<times> go_error" where
  "fc_plain dec pend fin c = opened dec (fc_session c) (pend (fc_rd c)) (fin (fc_rd c))"

definition fc_pending ::
  "'c aead \<Rightarrow> ('r \<Rightarrow> bytes) \<Rightarrow> ('r \<Rightarrow> go_error) \<Rightarrow> ('c, 'r, 'w) frame_cipher \<Rightarrow> bytes" where
  "fc_pending dec pend fin c = fc_buf c @ fst (fc_plain dec pend fin c)"

definition fc_final ::
  "'c aead \<Rightarrow> ('r \<Rightarrow> bytes) \<Rightarrow> ('r \<Rightarrow> go_error) \<Rightarrow> ('c, 'r, 'w) frame_cipher \<Rightarrow> go_error" where
  "fc_final dec pend fin c = snd (fc_plain dec pend fin c)"

definition fc_weight ::
  "'c aead \<Rightarrow> ('r \<Rightarrow> bytes) \<Rightarrow> ('r \<Rightarrow> go_error) \<Rightarrow> ('c, 'r, 'w) frame_cipher \<Rightarrow> nat" where
  "fc_weight dec pend fin c = length (fc_pending dec pend fin c) + length (pend (fc_rd c))"

context byte_source begin

lemma fc_read_error:
  assumes "0 < n" and "fc_buf c = []"
    and "open_frame dec (fc_session c) (pending (fc_rd c)) (final (fc_rd c)) = Inl e"
  shows "\<exists>c'. fc_read dec read c n = Some (c', [], Some e)"
proof (cases "length (pending (fc_rd c)) < 4")
  case True
  with assms read_full_short [OF True] show ?thesis
    by (auto simp: fc_read_def open_frame_def)
next
  case False
  let ?bs = "pending (fc_rd c)" and ?len = "unat (get_be32 (take 4 (pending (fc_rd c))))"
  obtain r1 where r1: "io_read_full read (fc_rd c) 4 = Some (r1, take 4 ?bs, None)"
    "pending r1 = drop 4 ?bs" "final r1 = final (fc_rd c)"
    using read_full_enough [of 4 "fc_rd c"] False by auto
  show ?thesis
  proof (cases "?len = 0 \<or> max_sealed_payload + 64 < ?len \<or> length (drop 4 ?bs) < ?len")
    case True
    with assms False r1 read_full_short [of r1 ?len] show ?thesis
      by (auto simp: fc_read_def open_frame_def Let_def split: if_splits)
  next
    case ok: False
    obtain r2 where "io_read_full read r1 ?len = Some (r2, take ?len (drop 4 ?bs), None)"
      using read_full_enough [of ?len r1] ok r1(2) by auto
    with ok assms False r1 show ?thesis
      by (auto simp: fc_read_def open_frame_def Let_def split: sum.splits prod.splits)
  qed
qed

lemma fc_read_frame:
  assumes "0 < n" and "fc_buf c = []"
    and "open_frame dec (fc_session c) (pending (fc_rd c)) (final (fc_rd c)) = Inr (pt, ses', rest)"
  shows "\<exists>c'. fc_read dec read c n = Some (c', take n pt, None) \<and> fc_buf c' = drop n pt \<and>
    fc_session c' = ses' \<and> pending (fc_rd c') = rest \<and> final (fc_rd c') = final (fc_rd c)"
proof -
  let ?bs = "pending (fc_rd c)" and ?len = "unat (get_be32 (take 4 (pending (fc_rd c))))"
  from assms(3) have h: "4 \<le> length ?bs" "?len \<noteq> 0" "\<not> max_sealed_payload + 64 < ?len"
    "?len \<le> length (drop 4 ?bs)" "rest = drop ?len (drop 4 ?bs)"
    and d: "session_decrypt dec (fc_session c) [] (take ?len (drop 4 ?bs)) = (ses', Inr pt)"
    by (auto simp: open_frame_def Let_def split: if_splits sum.splits prod.splits)
  obtain r1 where r1: "io_read_full read (fc_rd c) 4 = Some (r1, take 4 ?bs, None)"
    "pending r1 = drop 4 ?bs" "final r1 = final (fc_rd c)"
    using read_full_enough [of 4 "fc_rd c"] h by auto
  obtain r2 where r2: "io_read_full read r1 ?len = Some (r2, take ?len (drop 4 ?bs), None)"
    "pending r2 = rest" "final r2 = final (fc_rd c)"
    using read_full_enough [of ?len r1] h r1 by auto
  from assms(1,2) h d r1 r2 show ?thesis
    by (auto simp: fc_read_def Let_def)
qed

lemma fc_source:
  "byte_source (fc_read dec read) (fc_pending dec pending final) (fc_final dec pending final)
     (fc_weight dec pending final)"
proof unfold_locales
  fix n :: nat and c :: "('a, 'r, 'b) frame_cipher"
  assume "0 < n"
  then show "fc_read dec read c n \<noteq> None"
    using fc_read_error [of n c dec] fc_read_frame [of n c dec]
    by (cases "fc_buf c = []";
        cases "open_frame dec (fc_session c) (pending (fc_rd c)) (final (fc_rd c))")
      (fastforce simp: fc_read_def)+
next
  fix n :: nat and c c' :: "('a, 'r, 'b) frame_cipher" and d
  assume n: "0 < n" and rd: "fc_read dec read c n = Some (c', d, None)"
  show "fc_pending dec pending final c = d @ fc_pending dec pending final c' \<and>
    fc_final dec pending final c' = fc_final dec pending final c \<and>
    fc_weight dec pending final c' < fc_weight dec pending final c \<and> length d \<le> n"
  proof (cases "fc_buf c = []")
    case False
    with n rd have c': "c' = c\<lparr>fc_buf := drop n (fc_buf c)\<rparr>" "d = take n (fc_buf c)"
      by (simp_all add: fc_read_def)
    then show ?thesis
      using n False by (cases "fc_buf c")
        (auto simp: fc_pending_def fc_final_def fc_plain_def fc_weight_def)
  next
    case True
    show ?thesis
    proof (cases "open_frame dec (fc_session c) (pending (fc_rd c)) (final (fc_rd c))")
      case (Inl e)
      with fc_read_error [OF n True Inl] rd show ?thesis by auto
    next
      case (Inr x)
      obtain pt ses' rest where x: "x = (pt, ses', rest)" by (cases x)
      from fc_read_frame [OF n True Inr [unfolded x]] rd
      have c': "d = take n pt" "fc_buf c' = drop n pt" "fc_session c' = ses'"
        "pending (fc_rd c') = rest" "final (fc_rd c') = final (fc_rd c)" by auto
      have o: "opened dec (fc_session c) (pending (fc_rd c)) (final (fc_rd c)) =
          (case opened dec ses' rest (final (fc_rd c)) of (q, e) \<Rightarrow> (pt @ q, e))"
        using Inr x by (subst opened.simps) simp
      have "length rest < length (pending (fc_rd c))"
        using open_frame_shorter [OF Inr [unfolded x]] .
      with c' o True show ?thesis
        by (cases "opened dec ses' rest (final (fc_rd c))")
          (auto simp: fc_pending_def fc_final_def fc_plain_def fc_weight_def)
    qed
  qed
next
  fix n :: nat and c c' :: "('a, 'r, 'b) frame_cipher" and d e
  assume n: "0 < n" and rd: "fc_read dec read c n = Some (c', d, Some e)"
  then have buf: "fc_buf c = []" by (auto simp: fc_read_def split: if_splits)
  show "d = [] \<and> fc_pending dec pending final c = [] \<and> e = fc_final dec pending final c"
  proof (cases "open_frame dec (fc_session c) (pending (fc_rd c)) (final (fc_rd c))")
    case (Inl e')
    have "opened dec (fc_session c) (pending (fc_rd c)) (final (fc_rd c)) = ([], e')"
      using Inl by (subst opened.simps) simp
    with fc_read_error [OF n buf Inl] rd buf show ?thesis
      by (auto simp: fc_pending_def fc_final_def fc_plain_def)
  next
    case (Inr x)
    obtain pt ses' rest where x: "x = (pt, ses', rest)" by (cases x)
    with fc_read_frame [OF n buf Inr [unfolded x]] rd show ?thesis by auto
  qed
qed

end

interpretation sealed: byte_source "fc_read dec pipe_read" "fc_pending dec pipe_pending in_end"
    "fc_final dec pipe_pending in_end" "fc_weight dec pipe_pending in_end" for dec
  by (rule pipe.fc_source)

section \<open>The writer is a lawful byte sink over any lawful byte sink\<close>

text \<open>
  \<open>R s r\<close> is the relation "sender state \<open>s\<close> and receiver state \<open>r\<close> are in step". The receiver that
  defines what was sent starts in session \<open>ses0\<close> and looks at the wire from offset \<open>k\<close> on (the
  handshake messages come before).
\<close>

definition noise_law :: "'c aead \<Rightarrow> 'c aead \<Rightarrow> ('c \<Rightarrow> 'c \<Rightarrow> bool) \<Rightarrow> bool" where
  "noise_law enc dec R \<longleftrightarrow>
     (\<forall>s r ad p s' ct. R s r \<longrightarrow> enc s ad p = (s', Inr ct) \<longrightarrow>
        length ct = length p + 16 \<and> (\<exists>r'. dec r ad ct = (r', Inr p) \<and> R s' r'))"

definition in_step :: "('c \<Rightarrow> 'c \<Rightarrow> bool) \<Rightarrow> 'c session option \<Rightarrow> 'c session option \<Rightarrow> bool" where
  "in_step R a b =
     (case (a, b) of
        (Some x, Some y) \<Rightarrow>
          (case (ses_send x, ses_recv y) of (Some s, Some r) \<Rightarrow> R s r | _ \<Rightarrow> False)
      | _ \<Rightarrow> False)"

definition fc_sent ::
  "'c aead \<Rightarrow> 'c session option \<Rightarrow> nat \<Rightarrow> ('w \<Rightarrow> bytes) \<Rightarrow> ('c, 'r, 'w) frame_cipher \<Rightarrow> bytes" where
  "fc_sent dec ses0 k wire c =
     (case open_all dec ses0 (drop k (wire (fc_wr c))) of None \<Rightarrow> [] | Some (pt, _) \<Rightarrow> pt)"

definition fc_inv ::
  "'c aead \<Rightarrow> 'c aead \<Rightarrow> ('c \<Rightarrow> 'c \<Rightarrow> bool) \<Rightarrow> 'c session option \<Rightarrow> nat \<Rightarrow> ('w \<Rightarrow> bytes) \<Rightarrow>
   ('w \<Rightarrow> bool) \<Rightarrow> ('c, 'r, 'w) frame_cipher \<Rightarrow> bool" where
  "fc_inv enc dec R ses0 k wire good c \<longleftrightarrow>
     noise_law enc dec R \<and> good (fc_wr c) \<and> k \<le> length (wire (fc_wr c)) \<and>
     (\<exists>pt ses. open_all dec ses0 (drop k (wire (fc_wr c))) = Some (pt, ses) \<and>
        in_step R (fc_session c) ses)"

lemma in_step_decrypt:
  assumes "noise_law enc dec R" and "in_step R a b" and "session_encrypt enc a ad p = (a', Inr ct)"
  shows "length ct = length p + 16 \<and>
    (\<exists>b'. session_decrypt dec b ad ct = (b', Inr p) \<and> in_step R a' b')"
proof -
  obtain x y s r where xy: "a = Some x" "b = Some y" "ses_send x = Some s" "ses_recv y = Some r" "R s r"
    using assms(2) by (auto simp: in_step_def split: option.splits)
  then obtain s' where e: "enc s ad p = (s', Inr ct)" "a' = Some (x\<lparr>ses_send := Some s'\<rparr>)"
    using assms(3) by (auto simp: session_encrypt_def split: prod.splits sum.splits)
  with assms(1) xy(5) obtain r' where "dec r ad ct = (r', Inr p)" "R s' r'" "length ct = length p + 16"
    unfolding noise_law_def by blast
  with xy e show ?thesis by (auto simp: session_decrypt_def in_step_def)
qed

lemma open_frame_seal:
  assumes "session_decrypt dec ses [] ct = (ses', Inr pt)"
    and "ct \<noteq> []" and "length ct \<le> max_sealed_payload + 64"
  shows "open_frame dec ses (seal ct @ rest) fin = Inr (pt, ses', rest)"
  using assms by (simp add: open_frame_def seal_def max_sealed_payload_def Let_def)

lemma open_all_seal:
  assumes "session_decrypt dec ses [] ct = (ses', Inr pt)"
    and "ct \<noteq> []" and "length ct \<le> max_sealed_payload + 64"
  shows "open_all dec ses (seal ct) = Some (pt, ses')"
  using open_all_step [OF open_frame_seal [OF assms, of "[]" EOF], of "[]"] by simp

context byte_sink begin

lemma fc_write_ok:
  assumes inv: "fc_inv enc dec R ses0 k sent inv c"
    and wr: "fc_write enc put c p = (c', n, None)"
  shows "fc_sent dec ses0 k sent c' = fc_sent dec ses0 k sent c @ p \<and>
    fc_inv enc dec R ses0 k sent inv c'"
proof (cases "p = []")
  case True
  with wr inv show ?thesis by (simp add: fc_write_def)
next
  case False
  from wr False obtain ses ct w' m where
    len: "length p \<le> max_sealed_payload" and
    enc: "session_encrypt enc (fc_session c) [] p = (ses, Inr ct)" and
    put: "put (fc_wr c) (seal ct) = (w', m, None)" and
    c': "c' = c\<lparr>fc_session := ses, fc_wr := w'\<rparr>"
    by (auto simp: fc_write_def fc_seal_def fc_emit_def split: if_splits prod.splits sum.splits
        option.splits)
  from inv obtain pt rs where law: "noise_law enc dec R" and i: "inv (fc_wr c)"
    and k: "k \<le> length (sent (fc_wr c))"
    and op: "open_all dec ses0 (drop k (sent (fc_wr c))) = Some (pt, rs)"
    and st: "in_step R (fc_session c) rs"
    by (auto simp: fc_inv_def)
  from in_step_decrypt [OF law st enc] obtain rs' where
    ct: "length ct = length p + 16" and d: "session_decrypt dec rs [] ct = (rs', Inr p)"
    and st': "in_step R ses rs'" by blast
  have s': "sent w' = sent (fc_wr c) @ seal ct" and i': "inv w'"
    using write_ok [OF i put] by auto
  have "ct \<noteq> []" and "length ct \<le> max_sealed_payload + 64"
    using ct len by auto
  with op d k s' have "open_all dec ses0 (drop k (sent w')) = Some (pt @ p, rs')"
    by (simp add: open_all_append open_all_seal)
  with op law i' k s' st' c' show ?thesis
    by (simp add: fc_sent_def fc_inv_def)
qed

lemma fc_write_err:
  assumes inv: "fc_inv enc dec R ses0 k sent inv c"
    and wr: "fc_write enc put c p = (c', n, Some e)"
  shows "fc_sent dec ses0 k sent c' = fc_sent dec ses0 k sent c"
proof -
  have "sent (fc_wr c') = sent (fc_wr c)"
    using wr inv write_err [of "fc_wr c"]
    by (auto simp: fc_write_def fc_seal_def fc_emit_def fc_inv_def
        split: if_splits prod.splits sum.splits option.splits)
  then show ?thesis by (simp add: fc_sent_def)
qed

lemma fc_sink:
  "byte_sink (fc_write enc put) (fc_sent dec ses0 k sent) (fc_inv enc dec R ses0 k sent inv)"
  by unfold_locales (blast dest: fc_write_ok fc_write_err)+

end

interpretation sealed_end: byte_sink "fc_write enc pipe_write" "fc_sent dec ses0 k pipe_sent"
    "fc_inv enc dec R ses0 k pipe_sent (\<lambda>_. True)" for enc dec R ses0 k
  by (rule pipe_end.fc_sink)

text \<open>
  \<open>left s\<close> bounds from below how many messages the sending state \<open>s\<close> can still seal before its
  nonce is used up.
\<close>

definition noise_lasts :: "'c aead \<Rightarrow> ('c \<Rightarrow> nat) \<Rightarrow> bool" where
  "noise_lasts enc left \<longleftrightarrow>
     (\<forall>s ad p. 0 < left s \<longrightarrow> (\<exists>s' ct. enc s ad p = (s', Inr ct) \<and> left s \<le> Suc (left s')))"

definition fc_budget :: "('c \<Rightarrow> nat) \<Rightarrow> ('w \<Rightarrow> nat) \<Rightarrow> ('c, 'r, 'w) frame_cipher \<Rightarrow> nat" where
  "fc_budget left budget c =
     (case fc_session c of
        None \<Rightarrow> 0
      | Some x \<Rightarrow> (case ses_send x of None \<Rightarrow> 0 | Some s \<Rightarrow> min (left s) (budget (fc_wr c))))"

context reliable_sink begin

lemma fc_put_succeeds:
  assumes law: "noise_law enc dec R" and lasts: "noise_lasts enc left"
    and i: "fc_inv enc dec R ses0 k sent inv c" and room: "max_sealed_payload + 20 \<le> limit"
    and p: "length p \<le> max_sealed_payload" and b: "0 < fc_budget left budget c"
  shows "\<exists>c' n. fc_write enc put c p = (c', n, None) \<and>
    fc_budget left budget c \<le> Suc (fc_budget left budget c')"
proof (cases "p = []")
  case True
  then show ?thesis by (simp add: fc_write_def)
next
  case False
  from b obtain x s where x: "fc_session c = Some x" "ses_send x = Some s"
    and b': "0 < left s" "0 < budget (fc_wr c)"
    by (auto simp: fc_budget_def split: option.splits)
  from i obtain rs where st: "in_step R (fc_session c) rs" and iw: "inv (fc_wr c)"
    by (auto simp: fc_inv_def)
  from lasts b'(1) obtain s' ct where e: "enc s [] p = (s', Inr ct)" "left s \<le> Suc (left s')"
    unfolding noise_lasts_def by blast
  then have se: "session_encrypt enc (fc_session c) [] p = (Some (x\<lparr>ses_send := Some s'\<rparr>), Inr ct)"
    using x by (simp add: session_encrypt_def)
  from in_step_decrypt [OF law st this] have "length (seal ct) \<le> limit"
    using p room by (simp add: seal_def)
  from put_succeeds [OF iw this b'(2)] obtain w' n where
    w: "put (fc_wr c) (seal ct) = (w', n, None)" "budget (fc_wr c) \<le> Suc (budget w')" by blast
  from False p se w(1) have "fc_write enc put c p =
      (c\<lparr>fc_session := Some (x\<lparr>ses_send := Some s'\<rparr>), fc_wr := w'\<rparr>, length p, None)"
    by (simp add: fc_write_def fc_seal_def fc_emit_def)
  with x e w show ?thesis by (auto simp: fc_budget_def)
qed

lemma fc_reliable:
  assumes "max_sealed_payload + 20 \<le> limit"
  shows "reliable_sink (fc_write enc put :: ('c, 'r, 'w) frame_cipher writer)
    (fc_sent dec ses0 k sent) (\<lambda>c. noise_lasts enc left \<and> fc_inv enc dec R ses0 k sent inv c)
    max_sealed_payload (fc_budget left budget)"
proof unfold_locales
  fix c :: "('c, 'r, 'w) frame_cipher" and p :: bytes
  assume i: "noise_lasts enc left \<and> fc_inv enc dec R ses0 k sent inv c"
    and p: "length p \<le> max_sealed_payload" and b: "0 < fc_budget left budget c"
  from i have "noise_law enc dec R" by (simp add: fc_inv_def)
  from fc_put_succeeds [OF this _ _ assms p b] i
  show "\<exists>c' n. fc_write enc put c p = (c', n, None) \<and>
      fc_budget left budget c \<le> Suc (fc_budget left budget c')"
    by blast
qed (blast dest: fc_write_ok fc_write_err)+

end

interpretation sealed_pipe: reliable_sink "fc_write enc pipe_write" "fc_sent dec ses0 k pipe_sent"
    "\<lambda>c. noise_lasts enc left \<and> fc_inv enc dec R ses0 k pipe_sent (\<lambda>w. \<not> out_closed w) c"
    max_sealed_payload "fc_budget left (\<lambda>_. budget)" for enc dec R ses0 k left budget
  by (rule open_pipe.fc_reliable [OF order.refl])

section \<open>What both ends see\<close>

text \<open>The ciphertexts the Noise sender produces for a sequence of writes; an empty write seals nothing.\<close>

fun seal_all :: "'c aead \<Rightarrow> 'c \<Rightarrow> bytes list \<Rightarrow> bytes list option" where
  "seal_all enc s [] = Some []"
| "seal_all enc s (p # ps) =
     (if p = [] then seal_all enc s ps
      else
        case enc s [] p of
          (s', Inl e) \<Rightarrow> None
        | (s', Inr ct) \<Rightarrow> map_option ((#) ct) (seal_all enc s' ps))"

lemma fc_write_sealed:
  assumes "p \<noteq> []" and "length p \<le> max_sealed_payload" and "enc s [] p = (s', Inr ct)"
    and "\<not> out_closed (fc_wr c)" and "fc_session c = Some (new_session (Some s) t)"
  shows "fc_write enc pipe_write c p =
    (c\<lparr>fc_session := Some (new_session (Some s') t),
       fc_wr := (fc_wr c)\<lparr>out_chunks := out_chunks (fc_wr c) @ [seal ct]\<rparr>\<rparr>, length p, None)"
  using assms
  by (simp add: fc_write_def fc_seal_def fc_emit_def session_encrypt_def new_session_def pipe_write_def)

lemma write_all_sealed:
  "seal_all enc s ps = Some cts \<Longrightarrow> \<forall>p \<in> set ps. length p \<le> max_sealed_payload \<Longrightarrow>
   \<not> out_closed (fc_wr c) \<Longrightarrow> fc_session c = Some (new_session (Some s) t) \<Longrightarrow>
   \<exists>c'. write_all (fc_write enc pipe_write) c ps = Some c' \<and>
     pipe_sent (fc_wr c') = pipe_sent (fc_wr c) @ concat (map seal cts)"
proof (induction ps arbitrary: s c cts)
  case Nil
  then show ?case by simp
next
  case (Cons p ps)
  show ?case
  proof (cases "p = []")
    case True
    with Cons show ?thesis by (simp add: fc_write_def)
  next
    case False
    with Cons.prems(1) obtain s' ct cts' where
      e: "enc s [] p = (s', Inr ct)" "seal_all enc s' ps = Some cts'" "cts = ct # cts'"
      by (auto split: prod.splits sum.splits)
    have "length p \<le> max_sealed_payload" using Cons.prems(2) by simp
    from fc_write_sealed [where c = c and enc = enc, OF False this e(1) Cons.prems(3) Cons.prems(4)] Cons.prems(2)
      Cons.IH [OF e(2), of "c\<lparr>fc_session := Some (new_session (Some s') t),
        fc_wr := (fc_wr c)\<lparr>out_chunks := out_chunks (fc_wr c) @ [seal ct]\<rparr>\<rparr>"] Cons.prems(3) e(3)
    show ?thesis by (auto simp: pipe_sent_def)
  qed
qed

text \<open>
  everything written through a frame cipher is read back unchanged through the paired one.
  When the Noise sender seals all the writes and none is over the limit, every \<^verbatim>\<open>Write\<close>
  succeeds and the wire carries the length-prefixed ciphertexts; and however the transport
  cuts that wire into pieces, reading \<open>m\<close> bytes through the receiving cipher gives the first
  \<open>m\<close> bytes of the plaintext, or, at the end of the stream, all of it and the end's error.
\<close>

theorem sealed_roundtrip:
  assumes law: "noise_law enc dec R" and step: "R s r"
    and cts: "seal_all enc s ps = Some cts"
    and small: "\<forall>p \<in> set ps. length p \<le> max_sealed_payload"
  shows "\<exists>c. write_all (fc_write enc pipe_write)
        (new_cipher rd0 \<lparr>out_chunks = [], out_closed = False\<rparr> (Some (new_session (Some s) t))) ps =
      Some c \<and>
    pipe_sent (fc_wr c) = concat (map seal cts) \<and>
    (\<forall>rd m. pipe_pending rd = pipe_sent (fc_wr c) \<longrightarrow>
      (\<exists>c'. io_read_full (fc_read dec pipe_read)
          (new_cipher rd w (Some (new_session t' (Some r)))) m =
        Some (c', take m (concat ps),
          if m \<le> length (concat ps) then None else Some (short_error (concat ps) (in_end rd)))))"
proof -
  let ?c0 = "new_cipher rd0 \<lparr>out_chunks = [], out_closed = False\<rparr> (Some (new_session (Some s) t))"
  let ?ses = "Some (new_session t' (Some r))"
  obtain c where c: "write_all (fc_write enc pipe_write) ?c0 ps = Some c"
    and wire: "pipe_sent (fc_wr c) = concat (map seal cts)"
    using write_all_sealed [OF cts small, of ?c0 t] by (auto simp: new_cipher_def pipe_sent_def)
  have inv: "fc_inv enc dec R ?ses 0 pipe_sent (\<lambda>_. True) ?c0"
    using law step by (simp add: fc_inv_def new_cipher_def pipe_sent_def in_step_def new_session_def)
  from sealed_end.write_all_sent [OF this c] obtain ses' where
    op: "open_all dec ?ses (pipe_sent (fc_wr c)) = Some (concat ps, ses')"
    by (auto simp: fc_inv_def fc_sent_def new_cipher_def pipe_sent_def)
  have "\<exists>c'. io_read_full (fc_read dec pipe_read) (new_cipher rd w ?ses) m =
      Some (c', take m (concat ps),
        if m \<le> length (concat ps) then None else Some (short_error (concat ps) (in_end rd)))"
    if "pipe_pending rd = pipe_sent (fc_wr c)" for rd m
  proof -
    have p: "fc_pending dec pipe_pending in_end (new_cipher rd w ?ses) = concat ps"
      "fc_final dec pipe_pending in_end (new_cipher rd w ?ses) = in_end rd"
      using opened_whole [OF op] that
      by (simp_all add: fc_pending_def fc_final_def fc_plain_def new_cipher_def)
    show ?thesis
    proof (cases "m \<le> length (concat ps)")
      case True
      with sealed.read_full_enough [of m dec "new_cipher rd w ?ses"] p show ?thesis by auto
    next
      case False
      with sealed.read_full_short [of dec "new_cipher rd w ?ses" m] p show ?thesis by auto
    qed
  qed
  with c wire show ?thesis by blast
qed

text \<open>
  A stand-in for the cipher states, for concrete runs: the state is the nonce, sealing appends
  a 16-byte tag that holds it.
\<close>

definition tag_enc :: "nat aead" where
  "tag_enc k ad p = (Suc k, Inr (p @ replicate 16 (word_of_nat k)))"

definition tag_dec :: "nat aead" where
  "tag_dec k ad ct =
     (if 16 \<le> length ct \<and> drop (length ct - 16) ct = replicate 16 (word_of_nat k)
      then (Suc k, Inr (take (length ct - 16) ct))
      else (k, Inl (Errorf ''chacha20poly1305: message authentication failed'' [])))"

lemma tag_law: "noise_law tag_enc tag_dec (=)"
  by (simp add: noise_law_def tag_enc_def tag_dec_def)

lemma sealed_roundtrip_witness:
  "\<exists>c. write_all (fc_write tag_enc pipe_write)
      (new_cipher () \<lparr>out_chunks = [], out_closed = False\<rparr> (Some (new_session (Some 0) None)))
      [[1, 2, 3], [], [4]] = Some c \<and>
    (\<exists>c'. io_read_full (fc_read tag_dec pipe_read)
        (new_cipher (pipe_join (fc_wr c)) () (Some (new_session None (Some 0)))) 9 =
      Some (c', [1, 2, 3, 4], Some UnexpectedEOF))"
proof -
  have cts: "seal_all tag_enc 0 [[1, 2, 3], [], [4]] =
      Some [[1, 2, 3] @ replicate 16 0, 4 # replicate 16 1]"
    by (simp add: tag_enc_def)
  have small: "\<forall>p \<in> set [[1, 2, 3], [], [4]]. length (p :: bytes) \<le> max_sealed_payload"
    by (simp add: max_sealed_payload_def)
  from sealed_roundtrip [OF tag_law refl cts small,
      where t = None and t' = None and w = "()" and ?rd0.0 = "()"]
  obtain c where "write_all (fc_write tag_enc pipe_write)
      (new_cipher () \<lparr>out_chunks = [], out_closed = False\<rparr> (Some (new_session (Some 0) None)))
      [[1, 2, 3], [], [4]] = Some c"
    and all: "\<forall>rd m. pipe_pending rd = pipe_sent (fc_wr c) \<longrightarrow>
      (\<exists>c'. io_read_full (fc_read tag_dec pipe_read)
          (new_cipher rd () (Some (new_session None (Some 0)))) m =
        Some (c', take m (concat [[1, 2, 3], [], [4]]),
          if m \<le> length (concat [[1, 2, 3], [], [4 :: byte]]) then None
          else Some (short_error (concat [[1, 2, 3], [], [4]]) (in_end rd))))"
    by blast
  from this(1) all [rule_format, of "pipe_join (fc_wr c)" 9] show ?thesis
    by (auto simp: short_error_def)
qed

section \<open>Nothing but what the peer sealed is ever delivered\<close>

text \<open>
  Authenticity of the Noise receiver \<open>r\<close>, when the peer sealed the messages \<open>ms\<close> (ciphertext
  and plaintext, in order): it opens nothing but the first of them, and after it nothing but
  the next.
\<close>

fun only_opens :: "'c aead \<Rightarrow> 'c \<Rightarrow> (bytes \<times> bytes) list \<Rightarrow> bool" where
  "only_opens dec r [] = (\<forall>ct r' p. dec r [] ct \<noteq> (r', Inr p))"
| "only_opens dec r (m # ms) =
     (\<forall>ct r' p. dec r [] ct = (r', Inr p) \<longrightarrow>
        ct = fst m \<and> p = snd m \<and> only_opens dec r' ms)"

lemma open_frame_authentic:
  assumes "only_opens dec r ms" and "ses_recv x = Some r"
    and "open_frame dec (Some x) bs fin = Inr (pt, ses', rest)"
  shows "\<exists>ct r' ms'. ms = (ct, pt) # ms' \<and> ses' = Some (x\<lparr>ses_recv := Some r'\<rparr>) \<and> only_opens dec r' ms'"
proof -
  from assms(2,3) obtain ct r' where d: "dec r [] ct = (r', Inr pt)"
    and "ses' = Some (x\<lparr>ses_recv := Some r'\<rparr>)"
    by (auto simp: open_frame_def session_decrypt_def Let_def split: if_splits prod.splits sum.splits)
  with assms(1) show ?thesis by (cases ms) auto
qed

lemma opened_authentic:
  "only_opens dec r ms \<Longrightarrow> ses_recv x = Some r \<Longrightarrow>
   \<exists>j \<le> length ms. fst (opened dec (Some x) bs fin) = concat (map snd (take j ms))"
proof (induction "length bs" arbitrary: bs r ms x rule: less_induct)
  case less
  show ?case
  proof (cases "open_frame dec (Some x) bs fin")
    case (Inl e)
    then show ?thesis by (subst opened.simps) (auto intro: exI [of _ 0])
  next
    case (Inr y)
    obtain pt ses' rest where y: "y = (pt, ses', rest)" by (cases y)
    from open_frame_authentic [OF less.prems Inr [unfolded y]] obtain ct r' ms' where
      ms: "ms = (ct, pt) # ms'" and ses: "ses' = Some (x\<lparr>ses_recv := Some r'\<rparr>)"
      and o: "only_opens dec r' ms'" by blast
    from less.hyps [OF open_frame_shorter [OF Inr [unfolded y]] o, of "x\<lparr>ses_recv := Some r'\<rparr>"]
    obtain j where "j \<le> length ms'"
      "fst (opened dec ses' rest fin) = concat (map snd (take j ms'))"
      using ses by auto
    with Inr y ms show ?thesis
      by (subst opened.simps) (auto intro!: exI [of _ "Suc j"] split: prod.splits)
  qed
qed

text \<open>
  C10: whatever bytes an attacker puts on the wire, forged, cut, replayed or reordered, and
  however the transport splits them, the plaintext that comes out of the receiving frame cipher is
  the plaintext of the first messages the peer sealed, in their order and none twice.
\<close>

theorem sealed_stream_authentic:
  assumes "only_opens dec r ms"
  shows "\<exists>j \<le> length ms. \<exists>c' e.
    io_read_full (fc_read dec pipe_read) (new_cipher rd w (Some (new_session t (Some r)))) m =
      Some (c', take m (concat (map snd (take j ms))), e)"
proof -
  let ?c = "new_cipher rd w (Some (new_session t (Some r)))"
  obtain j where j: "j \<le> length ms"
    and p: "fc_pending dec pipe_pending in_end ?c = concat (map snd (take j ms))"
    using opened_authentic [OF assms, of "new_session t (Some r)" "pipe_pending rd" "in_end rd"]
    by (auto simp: fc_pending_def fc_plain_def new_cipher_def new_session_def)
  show ?thesis
  proof (cases "m \<le> length (fc_pending dec pipe_pending in_end ?c)")
    case True
    with sealed.read_full_enough [OF this] j p show ?thesis by auto
  next
    case False
    with sealed.read_full_short [of dec ?c m] j p show ?thesis by auto
  qed
qed

text \<open>A receiver that opens a given list of messages and nothing else, for concrete runs.\<close>

fun list_dec :: "(bytes \<times> bytes) list aead" where
  "list_dec [] ad ct = ([], Inl (Errorf ''chacha20poly1305: message authentication failed'' []))"
| "list_dec (m # ms) ad ct =
     (if ct = fst m then (ms, Inr (snd m))
      else (m # ms, Inl (Errorf ''chacha20poly1305: message authentication failed'' [])))"

lemma list_dec_only_opens: "only_opens list_dec ms ms"
  by (induction ms) auto

lemma sealed_stream_authentic_witness:
  "\<exists>j \<le> 2. \<exists>c' e. io_read_full (fc_read list_dec pipe_read)
      (new_cipher \<lparr>in_chunks = [[0, 0, 0, 1, 7], [0, 0, 0, 1, 7]], in_end = EOF\<rparr> ()
        (Some (new_session None (Some [([7], [1]), ([8], [2])])))) 3 =
    Some (c', take 3 (concat (map snd (take j [([7 :: byte], [1 :: byte]), ([8], [2])]))), e)"
  using sealed_stream_authentic [OF list_dec_only_opens [of "[([7], [1]), ([8], [2])]"],
      of "\<lparr>in_chunks = [[0, 0, 0, 1, 7], [0, 0, 0, 1, 7]], in_end = EOF\<rparr>" "()" None 3]
  by (simp add: numeral_2_eq_2)

section \<open>Refused and failing writes\<close>

text \<open>
  a write over \<^verbatim>\<open>MaxSealedPayload\<close> is refused before anything is sealed, so the nonce does
  not move and nothing reaches the wire, and an empty write does nothing at all; every other
  write makes at most one write to the inner stream, the length prefix and the ciphertext in
  one buffer, and returns either the whole length and no error, or zero and an error.
\<close>

theorem fc_write_verdict:
  "(p = [] \<longrightarrow> fc_write enc wr c p = (c, 0, None)) \<and>
   (max_sealed_payload < length p \<longrightarrow>
      fc_write enc wr c p = (c, 0, Some (write_limit_error (length p)))) \<and>
   (p \<noteq> [] \<and> length p \<le> max_sealed_payload \<longrightarrow>
      (case session_encrypt enc (fc_session c) [] p of
         (ses, Inl e) \<Rightarrow> fc_write enc wr c p = (c\<lparr>fc_session := ses\<rparr>, 0, Some e)
       | (ses, Inr ct) \<Rightarrow>
           (case wr (fc_wr c) (put_be32 (word_of_nat (length ct)) @ ct) of
              (w', n, None) \<Rightarrow>
                fc_write enc wr c p = (c\<lparr>fc_session := ses, fc_wr := w'\<rparr>, length p, None)
            | (w', n, Some e) \<Rightarrow>
                fc_write enc wr c p =
                  (c\<lparr>fc_session := ses, fc_wr := w'\<rparr>, 0, Some (Wrapf ''crypto: write frame: %w'' e)))))"
  by (auto simp: fc_write_def fc_seal_def fc_emit_def seal_def max_sealed_payload_def
      split: prod.splits sum.splits option.splits)

lemma fc_write_verdict_witness:
  "fc_write tag_enc pipe_write
     (new_cipher () \<lparr>out_chunks = [], out_closed = True\<rparr> (Some (new_session (Some 4) None))) [9] =
   (new_cipher () \<lparr>out_chunks = [], out_closed = True\<rparr> (Some (new_session (Some 5) None)), 0,
     Some (Wrapf ''crypto: write frame: %w'' ClosedPipe))"
  using fc_write_verdict [of "[9]" tag_enc pipe_write
      "new_cipher () \<lparr>out_chunks = [], out_closed = True\<rparr> (Some (new_session (Some 4) None))"]
  by (simp add: max_sealed_payload_def session_encrypt_def new_session_def new_cipher_def
      tag_enc_def pipe_write_def)

text \<open>
  \<^verbatim>\<open>Encrypt\<close> runs before \<^verbatim>\<open>writeMu\<close> is taken. Two writers that seal in one order and take the
  lock in the other put the frames on the wire against the nonce order: the receiver opens
  neither, and the stream is dead.
\<close>

lemma writers_can_overtake_each_other:
  assumes s1: "fc_seal enc c p1 = (c1, Inr (seal ct1))"
    and s2: "fc_seal enc c1 p2 = (c2, Inr (seal ct2))"
    and e2: "fc_emit pipe_write c2 (seal ct2) = (c3, None)"
    and e1: "fc_emit pipe_write c3 (seal ct1) = (c4, None)"
    and fresh: "pipe_sent (fc_wr c) = []" and len: "length ct2 \<le> max_sealed_payload + 64"
    and auth: "only_opens dec r [(ct1, p1), (ct2, p2)]" and ne: "ct1 \<noteq> ct2" "ct2 \<noteq> []"
  shows "pipe_sent (fc_wr c4) = seal ct2 @ seal ct1 \<and>
    (\<exists>e. opened dec (Some (new_session t (Some r))) (pipe_sent (fc_wr c4)) EOF = ([], e))"
proof -
  have "fc_wr c2 = fc_wr c"
    using s1 s2 by (auto simp: fc_seal_def split: prod.splits sum.splits)
  then have wire: "pipe_sent (fc_wr c4) = seal ct2 @ seal ct1"
    using e1 e2 fresh
    by (auto simp: fc_emit_def pipe_write_def pipe_sent_def split: if_splits prod.splits)
  from auth have "\<forall>ct r' p. dec r [] ct = (r', Inr p) \<longrightarrow> ct = ct1"
    by (simp only: only_opens.simps(2) fst_conv) blast
  with ne have no: "dec r [] ct2 \<noteq> (r', Inr p)" for r' p by blast
  obtain r' e where "dec r [] ct2 = (r', Inl e)"
  proof (cases "dec r [] ct2")
    case (Pair r' x)
    with no that show ?thesis by (cases x) blast+
  qed
  then have "open_frame dec (Some (new_session t (Some r))) (seal ct2 @ seal ct1) EOF =
      Inl (Wrapf ''auth: session decrypt: %w'' e)"
    using len ne
    by (simp add: open_frame_def seal_def max_sealed_payload_def session_decrypt_def
        new_session_def Let_def)
  with wire show ?thesis by (subst opened.simps) simp
qed

end
