(* ===== verification/Coalesce.thy ===== *)
theory Coalesce
  imports Mux_Frame Frame_Cipher "HOL-Library.Stream"
begin

text \<open>
  Write coalescing and padding, \<^verbatim>\<open>internal/shaper/coalesce.go\<close>. The state is the buffer, whether
  the flush timer is armed, whether the connection is closed, whether the cover loop runs, and
  the counters; the calls of \<^verbatim>\<open>math/rand\<close> draw from the stream \<open>cc_rand\<close>, \<^verbatim>\<open>Intn(n)\<close> being the
  next number modulo \<open>n\<close>. The mutex makes each of \<^verbatim>\<open>Write\<close>, \<^verbatim>\<open>timerFlush\<close>, one tick of \<^verbatim>\<open>coverLoop\<close>
  and \<^verbatim>\<open>Close\<close> one step (\<open>coal_step\<close>); the timer may also fire late, after it was stopped.

  The coalescer is shown to be a lawful frame sink over any lawful byte sink, and to lose
  nothing over a sink that takes every write up to some size (\<open>reliable_sink\<close>).
\<close>

section \<open>State and operations\<close>

record coalesce_config =
  flush_interval :: int
  flush_bytes :: int
  min_padded :: int
  max_padded :: int
  cover_interval :: int

definition millisecond :: int where
  "millisecond = 1000000"

definition coalesce_defaults :: "coalesce_config \<Rightarrow> coalesce_config" where
  "coalesce_defaults c =
     (let c1 = (if flush_interval c \<le> 0 then c\<lparr>flush_interval := 8 * millisecond\<rparr> else c);
          c2 = (if flush_bytes c1 \<le> 0 then c1\<lparr>flush_bytes := 1300\<rparr> else c1);
          c3 = (if min_padded c2 \<le> 0 then c2\<lparr>min_padded := 1100\<rparr> else c2);
          c4 = (if max_padded c3 < min_padded c3 then c3\<lparr>max_padded := 1450\<rparr> else c3)
      in if cover_interval c4 = 0 then c4\<lparr>cover_interval := 25000 * millisecond\<rparr> else c4)"

record 'w coalescer =
  cc_inner :: 'w
  cc_cfg :: coalesce_config
  cc_buf :: bytes
  cc_timer :: bool
  cc_closed :: bool
  cc_cover :: bool
  cc_flushes :: "64 word"
  cc_padding :: "64 word"
  cc_bytes :: "64 word"
  cc_rand :: "nat stream"

definition new_coalescer :: "'w \<Rightarrow> coalesce_config \<Rightarrow> nat stream \<Rightarrow> 'w coalescer" where
  "new_coalescer inner cfg rnd =
     (let cfg' = coalesce_defaults cfg
      in \<lparr>cc_inner = inner, cc_cfg = cfg', cc_buf = [], cc_timer = False, cc_closed = False,
          cc_cover = (0 < cover_interval cfg'), cc_flushes = 0, cc_padding = 0, cc_bytes = 0,
          cc_rand = rnd\<rparr>)"

text \<open>The target size of a flush, and the random numbers left after choosing it.\<close>

definition pick_target :: "coalesce_config \<Rightarrow> nat stream \<Rightarrow> int \<times> nat stream" where
  "pick_target cfg rnd =
     (let span = max_padded cfg - min_padded cfg
      in if 0 < span then (min_padded cfg + int (shd rnd) mod (span + 1), stl rnd)
         else (min_padded cfg, rnd))"

definition padding_bytes :: "nat \<Rightarrow> bytes" where
  "padding_bytes n =
     [protocol_version, type_padding, 0, 0, 0, 0] @ put_be16 (word_of_nat n) @ replicate n 0"

text \<open>The \<^verbatim>\<open>inner.Write(c.buf)\<close> at the end of every branch of \<^verbatim>\<open>flushLocked\<close>, with its bookkeeping.\<close>

definition emit_buf :: "'w writer \<Rightarrow> 'w coalescer \<Rightarrow> 'w coalescer \<times> go_error option" where
  "emit_buf wr c =
     (case wr (cc_inner c) (cc_buf c) of
        (w', n, e) \<Rightarrow>
          (c\<lparr>cc_inner := w', cc_bytes := cc_bytes c + word_of_nat (length (cc_buf c)),
             cc_flushes := cc_flushes c + 1, cc_buf := []\<rparr>, e))"

definition flush_locked :: "'w writer \<Rightarrow> bool \<Rightarrow> 'w coalescer \<Rightarrow> 'w coalescer \<times> go_error option" where
  "flush_locked wr pure_cover c0 =
     (let c1 = c0\<lparr>cc_timer := False\<rparr>
      in if cc_buf c1 = [] \<and> \<not> pure_cover then (c1, None)
         else
           let (target, rnd) = pick_target (cc_cfg c1) (cc_rand c1);
               c2 = c1\<lparr>cc_rand := rnd\<rparr>;
               pad = target - int (length (cc_buf c2)) - int header_size
           in if target \<le> int (length (cc_buf c2)) then emit_buf wr c2
              else if pad < 1 then emit_buf wr c2
              else
                let n = (if int max_payload < pad then max_payload else nat pad);
                    (c3, e) = emit_buf wr (c2\<lparr>cc_buf := cc_buf c2 @ padding_bytes n\<rparr>)
                in (c3\<lparr>cc_padding := cc_padding c3 + word_of_nat n\<rparr>, e))"

definition coal_write :: "'w writer \<Rightarrow> 'w coalescer writer" where
  "coal_write wr c p =
     (if cc_closed c then (c, 0, Some ClosedPipe)
      else
        let c1 = c\<lparr>cc_buf := cc_buf c @ p\<rparr>
        in if flush_bytes (cc_cfg c1) \<le> int (length (cc_buf c1))
           then (case flush_locked wr False c1 of
               (c2, Some e) \<Rightarrow> (c2, 0, Some e)
             | (c2, None) \<Rightarrow> (c2, length p, None))
           else (c1\<lparr>cc_timer := True\<rparr>, length p, None))"

definition timer_flush :: "'w writer \<Rightarrow> 'w coalescer \<Rightarrow> 'w coalescer" where
  "timer_flush wr c =
     (let c1 = c\<lparr>cc_timer := False\<rparr>
      in if cc_closed c1 then c1 else fst (flush_locked wr False c1))"

definition cover_tick :: "'w writer \<Rightarrow> 'w coalescer \<Rightarrow> 'w coalescer" where
  "cover_tick wr c =
     (if \<not> cc_cover c then c
      else if cc_closed c then c\<lparr>cc_cover := False\<rparr>
      else if cc_buf c = [] then fst (flush_locked wr True c)
      else c)"

definition coal_close ::
  "'w writer \<Rightarrow> ('w \<Rightarrow> 'w \<times> go_error option) \<Rightarrow> 'w coalescer \<Rightarrow> 'w coalescer \<times> go_error option" where
  "coal_close wr cls c =
     (if cc_closed c then (c, None)
      else
        let c1 = c\<lparr>cc_closed := True, cc_timer := False\<rparr>;
            c2 = (if cc_buf c1 \<noteq> [] then c1\<lparr>cc_inner := fst (wr (cc_inner c1) (cc_buf c1)), cc_buf := []\<rparr>
                  else c1)
        in (case cls (cc_inner c2) of (w', e) \<Rightarrow> (c2\<lparr>cc_inner := w'\<rparr>, e)))"

definition coal_read :: "'w reader \<Rightarrow> 'w coalescer reader" where
  "coal_read rd c n =
     (case rd (cc_inner c) n of
        None \<Rightarrow> None
      | Some (r', d, e) \<Rightarrow> Some (c\<lparr>cc_inner := r'\<rparr>, d, e))"

definition coal_stats :: "'w coalescer \<Rightarrow> 64 word \<times> 64 word \<times> 64 word" where
  "coal_stats c = (cc_flushes c, cc_padding c, cc_bytes c)"

text \<open>The steps the goroutines around one coalescer take.\<close>

datatype coal_event = Put frame | Timer_fire | Cover_tick | Shut

fun coal_step ::
  "'w writer \<Rightarrow> ('w \<Rightarrow> 'w \<times> go_error option) \<Rightarrow> coal_event \<Rightarrow> 'w coalescer \<Rightarrow> 'w coalescer" where
  "coal_step wr cls (Put f) c = fst (write_frame (coal_write wr) c f)"
| "coal_step wr cls Timer_fire c = timer_flush wr c"
| "coal_step wr cls Cover_tick c = cover_tick wr c"
| "coal_step wr cls Shut c = fst (coal_close wr cls c)"

fun coal_run ::
  "'w writer \<Rightarrow> ('w \<Rightarrow> 'w \<times> go_error option) \<Rightarrow> coal_event list \<Rightarrow> 'w coalescer \<Rightarrow> 'w coalescer" where
  "coal_run wr cls [] c = c"
| "coal_run wr cls (ev # evs) c = coal_run wr cls evs (coal_step wr cls ev c)"

text \<open>The frames offered before the connection is closed.\<close>

fun offered :: "coal_event list \<Rightarrow> frame list" where
  "offered [] = []"
| "offered (Put f # evs) = f # offered evs"
| "offered (Shut # evs) = []"
| "offered (ev # evs) = offered evs"

section \<open>What a flush sends\<close>

definition padding_frame :: "nat \<Rightarrow> frame" where
  "padding_frame n =
     \<lparr>version = protocol_version, ftype = type_padding, stream_id = 0, payload = replicate n 0\<rparr>"

lemma padding_bytes_frame: "padding_bytes n = encode_frame (padding_frame n)"
  by (simp add: padding_bytes_def padding_frame_def encode_frame_def put_be32_def)

lemma length_padding_bytes [simp]: "length (padding_bytes n) = header_size + n"
  by (simp add: padding_bytes_frame padding_frame_def)

lemma valid_padding_frame [simp]: "n \<le> max_payload \<Longrightarrow> valid_frame (padding_frame n)"
  by (simp add: valid_frame_def padding_frame_def)

lemma visible_padding_frame [simp]: "visible [padding_frame n] = []"
  by (simp add: visible_def padding_frame_def)

text \<open>The PADDING frames a flush appends to a buffer of \<open>k\<close> bytes for target \<open>t\<close>: none or one.\<close>

definition flush_padding :: "int \<Rightarrow> nat \<Rightarrow> frame list" where
  "flush_padding t k =
     (if t - int k - int header_size < 1 then []
      else [padding_frame (min max_payload (nat (t - int k - int header_size)))])"

definition padded :: "'w coalescer \<Rightarrow> bytes" where
  "padded c =
     cc_buf c @ encode_frames (flush_padding (fst (pick_target (cc_cfg c) (cc_rand c))) (length (cc_buf c)))"

lemma flush_idle:
  "cc_buf c = [] \<Longrightarrow> flush_locked wr False c = (c\<lparr>cc_timer := False\<rparr>, None)"
  by (simp add: flush_locked_def)

lemma cap_padding: "(if int m < k then m else nat k) = min m (nat k)"
  by (auto simp: min_def)

lemma flush_emits:
  assumes "cc_buf c \<noteq> [] \<or> cov" and "wr (cc_inner c) (padded c) = (w', n, e)"
  shows "\<exists>c'. flush_locked wr cov c = (c', e) \<and> cc_inner c' = w' \<and> cc_buf c' = [] \<and>
    \<not> cc_timer c' \<and> cc_closed c' = cc_closed c \<and> cc_cfg c' = cc_cfg c \<and>
    cc_cover c' = cc_cover c \<and> cc_flushes c' = cc_flushes c + 1 \<and>
    cc_bytes c' = cc_bytes c + word_of_nat (length (padded c))"
proof -
  obtain t rnd where t: "pick_target (cc_cfg c) (cc_rand c) = (t, rnd)" by fastforce
  show ?thesis
  proof (cases "t - int (length (cc_buf c)) - int header_size < 1")
    case True
    with assms t show ?thesis
      by (auto simp: flush_locked_def emit_buf_def padded_def flush_padding_def Let_def)
  next
    case False
    then have "\<not> t \<le> int (length (cc_buf c))" by simp
    with assms t False show ?thesis
      by (auto simp: flush_locked_def emit_buf_def padded_def flush_padding_def padding_bytes_frame
          Let_def cap_padding)
  qed
qed

lemma pick_target_range:
  assumes "pick_target cfg rnd = (t, rnd')"
  shows "min_padded cfg \<le> t" and "t \<le> max (min_padded cfg) (max_padded cfg)"
  using assms pos_mod_bound [of "max_padded cfg - min_padded cfg + 1" "int (shd rnd)"]
  by (auto simp: pick_target_def Let_def split: if_splits)

lemma flush_padding_valid [simp]: "list_all valid_frame (flush_padding t k)"
  by (simp add: flush_padding_def)

lemma visible_flush_padding [simp]: "visible (flush_padding t k) = []"
  by (simp add: flush_padding_def)

lemma framed_padded:
  "framed (cc_buf c) \<Longrightarrow> framed (padded c)" "framed (cc_buf c) \<Longrightarrow> received (padded c) = received (cc_buf c)"
  by (simp_all add: padded_def framed_append_frames)

section \<open>The coalescer is a lawful frame sink\<close>

text \<open>
  What the coalescer has promised to deliver is what the inner stream took and what is still
  in the buffer. Here every whole-frame write is covered, failing inner writes included.
\<close>

definition coal_pledged :: "('w \<Rightarrow> bytes) \<Rightarrow> 'w coalescer \<Rightarrow> bytes" where
  "coal_pledged sent c = sent (cc_inner c) @ cc_buf c"

definition coal_inv :: "('w \<Rightarrow> bytes) \<Rightarrow> ('w \<Rightarrow> bool) \<Rightarrow> 'w coalescer \<Rightarrow> bool" where
  "coal_inv sent good c \<longleftrightarrow> good (cc_inner c) \<and> framed (sent (cc_inner c)) \<and> framed (cc_buf c)"

lemma coal_write_cases:
  assumes "coal_write wr c p = (c', n, e)"
  obtains (closed) "cc_closed c" "c' = c" "e = Some ClosedPipe"
  | (kept) "\<not> cc_closed c" "int (length (cc_buf c @ p)) < flush_bytes (cc_cfg c)"
      "c' = c\<lparr>cc_buf := cc_buf c @ p, cc_timer := True\<rparr>" "n = length p" "e = None"
  | (flushed) "\<not> cc_closed c" "flush_bytes (cc_cfg c) \<le> int (length (cc_buf c @ p))"
      "flush_locked wr False (c\<lparr>cc_buf := cc_buf c @ p\<rparr>) = (c', e)"
      "n = (if e = None then length p else 0)"
  using assms by (auto simp: coal_write_def Let_def not_le split: if_splits prod.splits option.splits)

context byte_sink begin

lemma flush_ok:
  assumes "inv (cc_inner c)" and "framed (sent (cc_inner c))" and "framed (cc_buf c)"
    and "flush_locked put cov c = (c', None)"
  shows "coal_inv sent inv c' \<and> cc_buf c' = [] \<and>
    received (sent (cc_inner c')) = received (sent (cc_inner c)) @ received (cc_buf c)"
proof (cases "cc_buf c \<noteq> [] \<or> cov")
  case True
  obtain w' n e where w: "put (cc_inner c) (padded c) = (w', n, e)" by (cases "put (cc_inner c) (padded c)")
  from flush_emits [where wr = put, OF True w] assms(4) have e: "e = None" and c': "cc_inner c' = w'" "cc_buf c' = []"
    by auto
  from write_ok [OF assms(1) w [unfolded e]] assms(2,3) c' show ?thesis
    by (simp add: coal_inv_def framed_append framed_padded)
next
  case False
  with assms show ?thesis by (auto simp: flush_idle coal_inv_def)
qed

lemma flush_err:
  assumes "inv (cc_inner c)" and "flush_locked put cov c = (c', Some e)"
  shows "cc_buf c' = [] \<and> sent (cc_inner c') = sent (cc_inner c)"
proof (cases "cc_buf c \<noteq> [] \<or> cov")
  case True
  obtain w' n e' where w: "put (cc_inner c) (padded c) = (w', n, e')"
    by (cases "put (cc_inner c) (padded c)")
  from flush_emits [where wr = put, OF True w] assms(2) have "e' = Some e" and c': "cc_inner c' = w'" "cc_buf c' = []"
    by auto
  with write_err [OF assms(1)] w show ?thesis by blast
next
  case False
  with assms show ?thesis by (auto simp: flush_idle)
qed

lemma coal_sink:
  "frame_sink (coal_write put) (\<lambda>c. received (coal_pledged sent c)) (coal_inv sent inv)"
proof unfold_locales
  fix c :: "'w coalescer" and f c' n
  assume i: "coal_inv sent inv c" and f: "valid_frame f"
    and w: "coal_write put c (encode_frame f) = (c', n, None)"
  from w show "received (coal_pledged sent c') = received (coal_pledged sent c) @ visible [f] \<and>
    coal_inv sent inv c'"
  proof (cases rule: coal_write_cases)
    case kept
    with i f show ?thesis
      by (simp add: coal_pledged_def coal_inv_def framed_append framed_append_frame)
  next
    case flushed
    from flush_ok [OF _ _ _ flushed(3)] i f
    show ?thesis
      by (simp add: coal_pledged_def coal_inv_def framed_append framed_append_frame)
  qed simp
next
  fix c :: "'w coalescer" and f c' n e
  assume i: "coal_inv sent inv c"
    and w: "coal_write put c (encode_frame f) = (c', n, Some e)"
  from w show "\<exists>lost. received (coal_pledged sent c) = received (coal_pledged sent c') @ lost"
  proof (cases rule: coal_write_cases)
    case flushed
    from flush_err [OF _ flushed(3)] i show ?thesis
      by (simp add: coal_pledged_def coal_inv_def framed_append)
  qed simp_all
qed

end

interpretation coal: frame_sink "coal_write pipe_write" "\<lambda>c. received (coal_pledged pipe_sent c)"
    "coal_inv pipe_sent (\<lambda>_. True)"
  by (rule pipe_end.coal_sink)

interpretation coal_sealed: frame_sink "coal_write (fc_write enc pipe_write)"
    "\<lambda>c. received (coal_pledged (fc_sent dec ses0 k pipe_sent) c)"
    "coal_inv (fc_sent dec ses0 k pipe_sent) (fc_inv enc dec R ses0 k pipe_sent (\<lambda>_. True))"
    for enc dec R ses0 k
  by (rule sealed_end.coal_sink)

section \<open>Nothing is lost over a sink that takes every write\<close>

text \<open>\<open>limit\<close> is the largest write the inner stream takes.\<close>

definition config_fits :: "nat \<Rightarrow> coalesce_config \<Rightarrow> bool" where
  "config_fits limit cfg \<longleftrightarrow>
     0 < flush_bytes cfg \<and> flush_bytes cfg \<le> int limit \<and> min_padded cfg \<le> int limit \<and> max_padded cfg \<le> int limit"

definition frame_fits :: "nat \<Rightarrow> coalesce_config \<Rightarrow> frame \<Rightarrow> bool" where
  "frame_fits limit cfg f \<longleftrightarrow>
     valid_frame f \<and> int (length (encode_frame f)) + flush_bytes cfg \<le> int limit"

definition coal_ok :: "nat \<Rightarrow> ('w \<Rightarrow> bytes) \<Rightarrow> ('w \<Rightarrow> bool) \<Rightarrow> 'w coalescer \<Rightarrow> bool" where
  "coal_ok limit sent good c \<longleftrightarrow>
     (cc_closed c \<longrightarrow> cc_buf c = []) \<and>
     (\<not> cc_closed c \<longrightarrow> good (cc_inner c)) \<and> framed (sent (cc_inner c)) \<and> framed (cc_buf c) \<and>
     (cc_buf c \<noteq> [] \<longrightarrow> cc_timer c) \<and>
     int (length (cc_buf c)) < flush_bytes (cc_cfg c) \<and> config_fits limit (cc_cfg c)"

lemma config_fits_defaults:
  assumes "1450 \<le> limit" and "flush_bytes cfg \<le> int limit"
    and "min_padded cfg \<le> int limit" and "max_padded cfg \<le> int limit"
  shows "config_fits limit (coalesce_defaults cfg)"
  using assms by (simp add: config_fits_def coalesce_defaults_def Let_def)

lemma length_flush_padding:
  "length (encode_frames (flush_padding t k)) \<le> nat (t - int k)"
  by (auto simp: flush_padding_def padding_frame_def header_size_def min_def)

lemma length_padded:
  assumes "int (length (cc_buf c)) \<le> int limit" and "config_fits limit (cc_cfg c)"
  shows "length (padded c) \<le> limit"
proof -
  obtain t rnd where t: "pick_target (cc_cfg c) (cc_rand c) = (t, rnd)" by fastforce
  with pick_target_range [OF t] assms length_flush_padding [of t "length (cc_buf c)"]
  show ?thesis by (auto simp: padded_def config_fits_def)
qed

context reliable_sink begin

lemma flush_delivers:
  assumes "inv (cc_inner c)" and "framed (sent (cc_inner c))" and "framed (cc_buf c)"
    and "config_fits limit (cc_cfg c)" and "int (length (cc_buf c)) \<le> int limit"
    and "0 < budget (cc_inner c)"
  shows "\<exists>c'. flush_locked put cov c = (c', None) \<and> cc_buf c' = [] \<and>
    cc_closed c' = cc_closed c \<and> cc_cfg c' = cc_cfg c \<and> cc_cover c' = cc_cover c \<and>
    inv (cc_inner c') \<and> framed (sent (cc_inner c')) \<and>
    received (sent (cc_inner c')) = received (sent (cc_inner c)) @ received (cc_buf c) \<and>
    budget (cc_inner c) \<le> Suc (budget (cc_inner c'))"
proof (cases "cc_buf c \<noteq> [] \<or> cov")
  case True
  from put_succeeds [OF assms(1) length_padded [OF assms(5,4)] assms(6)] obtain w' n where
    w: "put (cc_inner c) (padded c) = (w', n, None)" "budget (cc_inner c) \<le> Suc (budget w')" by blast
  from flush_emits [where wr = put, OF True w(1)] obtain c' where
    c': "flush_locked put cov c = (c', None)" "cc_inner c' = w'" "cc_buf c' = []"
      "cc_closed c' = cc_closed c" "cc_cfg c' = cc_cfg c" "cc_cover c' = cc_cover c" by blast
  from flush_ok [OF assms(1-3) c'(1)] have
    "inv w'" "framed (sent w')" "received (sent w') = received (sent (cc_inner c)) @ received (cc_buf c)"
    using c' by (simp_all add: coal_inv_def)
  with c' w(2) show ?thesis by simp
next
  case False
  with assms show ?thesis by (simp add: flush_idle)
qed

lemma coal_write_delivers:
  assumes ok: "coal_ok limit sent inv c" and opn: "\<not> cc_closed c"
    and f: "frame_fits limit (cc_cfg c) f" and b: "0 < budget (cc_inner c)"
  shows "\<exists>c' n. coal_write put c (encode_frame f) = (c', n, None) \<and> coal_ok limit sent inv c' \<and>
    \<not> cc_closed c' \<and> cc_cfg c' = cc_cfg c \<and>
    received (coal_pledged sent c') = received (coal_pledged sent c) @ visible [f] \<and>
    budget (cc_inner c) \<le> Suc (budget (cc_inner c'))"
proof -
  let ?c1 = "c\<lparr>cc_buf := cc_buf c @ encode_frame f\<rparr>"
  have v: "valid_frame f" and fit: "int (length (encode_frame f)) + flush_bytes (cc_cfg c) \<le> int limit"
    using f by (simp_all add: frame_fits_def)
  have c1: "framed (cc_buf ?c1)" "received (cc_buf ?c1) = received (cc_buf c) @ visible [f]"
    using ok v by (simp_all add: coal_ok_def framed_append_frame)
  show ?thesis
  proof (cases "flush_bytes (cc_cfg c) \<le> int (length (cc_buf ?c1))")
    case True
    have "int (length (cc_buf ?c1)) \<le> int limit"
      using ok fit by (simp add: coal_ok_def del: length_encode_frame)
    with flush_delivers [of ?c1 False] ok opn b c1 obtain c' where
      "flush_locked put False ?c1 = (c', None)" "cc_buf c' = []" "cc_closed c' = cc_closed c"
      "cc_cfg c' = cc_cfg c" "inv (cc_inner c')" "framed (sent (cc_inner c'))"
      "received (sent (cc_inner c')) =
         received (sent (cc_inner c)) @ received (cc_buf c) @ visible [f]"
      "budget (cc_inner c) \<le> Suc (budget (cc_inner c'))"
      by (auto simp: coal_ok_def)
    with True ok opn show ?thesis
      by (simp add: coal_write_def coal_ok_def coal_pledged_def framed_append config_fits_def)
  next
    case False
    with ok opn c1 show ?thesis
      by (simp add: coal_write_def coal_ok_def coal_pledged_def framed_append)
  qed
qed

text \<open>One step, before the connection is closed and after.\<close>

lemma coal_step_delivers:
  assumes ok: "coal_ok limit sent inv c" and opn: "\<not> cc_closed c"
    and fits: "list_all (frame_fits limit (cc_cfg c)) (offered [ev])"
    and b: "0 < budget (cc_inner c)" and cls: "\<And>w. sent (fst (cls w)) = sent w"
  shows "coal_ok limit sent inv (coal_step put cls ev c) \<and>
    (cc_closed (coal_step put cls ev c) \<longleftrightarrow> ev = Shut) \<and>
    cc_cfg (coal_step put cls ev c) = cc_cfg c \<and>
    received (coal_pledged sent (coal_step put cls ev c)) =
      received (coal_pledged sent c) @ visible (offered [ev]) \<and>
    (ev \<noteq> Shut \<longrightarrow> budget (cc_inner c) \<le> Suc (budget (cc_inner (coal_step put cls ev c))))"
proof (cases ev)
  case (Put f)
  with fits have f: "frame_fits limit (cc_cfg c) f" by simp
  then have "length (payload f) \<le> max_payload" by (simp add: frame_fits_def valid_frame_def)
  with coal_write_delivers [OF ok opn f b] Put show ?thesis
    by (auto simp: write_frame_def)
next
  case Timer_fire
  let ?c1 = "c\<lparr>cc_timer := False\<rparr>"
  from ok opn have "inv (cc_inner ?c1)" "framed (sent (cc_inner ?c1))" "framed (cc_buf ?c1)"
    "config_fits limit (cc_cfg ?c1)" "int (length (cc_buf ?c1)) \<le> int limit"
    by (auto simp: coal_ok_def config_fits_def)
  from flush_delivers [OF this, of False] b obtain c' where c':
    "flush_locked put False ?c1 = (c', None)" "cc_buf c' = []" "cc_closed c' = cc_closed c"
    "cc_cfg c' = cc_cfg c" "inv (cc_inner c')" "framed (sent (cc_inner c'))"
    "received (sent (cc_inner c')) = received (sent (cc_inner c)) @ received (cc_buf c)"
    "budget (cc_inner c) \<le> Suc (budget (cc_inner c'))" by auto
  have "timer_flush put c = c'" using c'(1) opn by (simp add: timer_flush_def)
  with Timer_fire c' ok opn show ?thesis
    by (simp add: coal_ok_def coal_pledged_def framed_append config_fits_def)
next
  case Cover_tick
  show ?thesis
  proof (cases "cc_cover c \<and> cc_buf c = []")
    case True
    from ok opn have "inv (cc_inner c)" "framed (sent (cc_inner c))" "framed (cc_buf c)"
      "config_fits limit (cc_cfg c)" "int (length (cc_buf c)) \<le> int limit"
      by (auto simp: coal_ok_def config_fits_def)
    from flush_delivers [OF this b, of True] obtain c' where c':
      "flush_locked put True c = (c', None)" "cc_buf c' = []" "cc_closed c' = cc_closed c"
      "cc_cfg c' = cc_cfg c" "inv (cc_inner c')" "framed (sent (cc_inner c'))"
      "received (sent (cc_inner c')) = received (sent (cc_inner c)) @ received (cc_buf c)"
      "budget (cc_inner c) \<le> Suc (budget (cc_inner c'))" by auto
    have "cover_tick put c = c'" using True c'(1) opn by (simp add: cover_tick_def)
    with Cover_tick c' ok opn True show ?thesis
      by (simp add: coal_ok_def coal_pledged_def config_fits_def)
  next
    case False
    with Cover_tick ok opn show ?thesis by (auto simp: cover_tick_def)
  qed
next
  case Shut
  show ?thesis
  proof (cases "cc_buf c = []")
    case True
    obtain w e where w: "cls (cc_inner c) = (w, e)" by fastforce
    with cls [of "cc_inner c"] have "sent w = sent (cc_inner c)" by simp
    with Shut True w ok opn show ?thesis
      by (simp add: coal_close_def coal_ok_def coal_pledged_def config_fits_def)
  next
    case False
    from ok opn have i: "inv (cc_inner c)" and l: "length (cc_buf c) \<le> limit"
      by (auto simp: coal_ok_def config_fits_def)
    from put_succeeds [OF i l b] obtain w' n where w: "put (cc_inner c) (cc_buf c) = (w', n, None)"
      by blast
    obtain w2 e where w2: "cls w' = (w2, e)" by fastforce
    with cls [of w'] write_ok [OF i w] have "sent w2 = sent (cc_inner c) @ cc_buf c" by simp
    with Shut False w w2 ok opn show ?thesis
      by (simp add: coal_close_def coal_ok_def coal_pledged_def framed_append config_fits_def)
  qed
qed

lemma coal_closed_idle:
  assumes "cc_closed c" and "coal_ok limit sent inv c"
  shows "cc_inner (coal_run put cls evs c) = cc_inner c \<and> cc_buf (coal_run put cls evs c) = [] \<and>
    cc_closed (coal_run put cls evs c)"
proof -
  have step: "cc_closed (coal_step put cls ev c) \<and> cc_buf (coal_step put cls ev c) = cc_buf c \<and>
      cc_inner (coal_step put cls ev c) = cc_inner c" if "cc_closed c" for ev and c :: "'w coalescer"
    using that
    by (cases ev) (auto simp: write_frame_def coal_write_def timer_flush_def cover_tick_def
        coal_close_def)
  have "cc_closed c \<Longrightarrow> cc_inner (coal_run put cls evs c) = cc_inner c \<and>
      cc_buf (coal_run put cls evs c) = cc_buf c \<and> cc_closed (coal_run put cls evs c)"
    by (induction evs arbitrary: c) (simp_all add: step)
  with assms show ?thesis by (simp add: coal_ok_def)
qed

lemma coal_run_delivers:
  assumes cls: "\<And>w. sent (fst (cls w)) = sent w"
  shows "coal_ok limit sent inv c \<Longrightarrow> \<not> cc_closed c \<Longrightarrow>
    list_all (frame_fits limit (cc_cfg c)) (offered evs) \<Longrightarrow> length evs \<le> budget (cc_inner c) \<Longrightarrow>
    received (coal_pledged sent (coal_run put cls evs c)) =
      received (coal_pledged sent c) @ visible (offered evs) \<and>
    framed (sent (cc_inner (coal_run put cls evs c))) \<and>
    (Shut \<in> set evs \<longrightarrow> cc_buf (coal_run put cls evs c) = [])"
proof (induction evs arbitrary: c)
  case Nil
  then show ?case by (simp add: coal_ok_def)
next
  case (Cons ev evs)
  have off: "offered (ev # evs) = offered [ev] @ (if ev = Shut then [] else offered evs)"
    by (cases ev) simp_all
  from Cons.prems off have fits: "list_all (frame_fits limit (cc_cfg c)) (offered [ev])"
    and b: "0 < budget (cc_inner c)" by auto
  note st = coal_step_delivers [OF Cons.prems(1,2) fits b cls]
  show ?case
  proof (cases "ev = Shut")
    case True
    with st have "cc_closed (coal_step put cls ev c)" "coal_ok limit sent inv (coal_step put cls ev c)"
      by simp_all
    from coal_closed_idle [OF this, of cls evs] this st True off show ?thesis
      by (simp add: coal_ok_def coal_pledged_def del: coal_step.simps)
  next
    case False
    with st Cons.IH [of "coal_step put cls ev c"] Cons.prems off show ?thesis by auto
  qed
qed

text \<open>What the close of the inner stream leaves, it leaves for good.\<close>

lemma coal_shut_after:
  assumes ok: "coal_ok limit sent inv c" and opn: "\<not> cc_closed c" and b: "0 < budget (cc_inner c)"
    and after: "\<And>w. inv w \<Longrightarrow> P (fst (cls w))"
  shows "P (cc_inner (coal_step put cls Shut c))"
proof -
  from ok opn have i: "inv (cc_inner c)" and l: "length (cc_buf c) \<le> limit"
    by (auto simp: coal_ok_def config_fits_def)
  from put_succeeds [OF i l b] obtain w' n where w: "put (cc_inner c) (cc_buf c) = (w', n, None)"
    by blast
  from write_ok [OF i w] have "inv w'" by simp
  with after [of w'] after [OF i] w opn show ?thesis
    by (cases "cls w'"; cases "cls (cc_inner c)") (auto simp: coal_close_def Let_def)
qed

lemma coal_run_after:
  assumes cls: "\<And>w. sent (fst (cls w)) = sent w" and after: "\<And>w. inv w \<Longrightarrow> P (fst (cls w))"
  shows "coal_ok limit sent inv c \<Longrightarrow> \<not> cc_closed c \<Longrightarrow>
    list_all (frame_fits limit (cc_cfg c)) (offered evs) \<Longrightarrow> length evs \<le> budget (cc_inner c) \<Longrightarrow>
    Shut \<in> set evs \<Longrightarrow> P (cc_inner (coal_run put cls evs c))"
proof (induction evs arbitrary: c)
  case (Cons ev evs)
  have off: "offered (ev # evs) = offered [ev] @ (if ev = Shut then [] else offered evs)"
    by (cases ev) simp_all
  from Cons.prems off have fits: "list_all (frame_fits limit (cc_cfg c)) (offered [ev])"
    and b: "0 < budget (cc_inner c)" by auto
  note st = coal_step_delivers [OF Cons.prems(1,2) fits b cls]
  show ?case
  proof (cases "ev = Shut")
    case True
    with st coal_closed_idle [of "coal_step put cls ev c" cls evs]
      coal_shut_after [where P = P and cls = cls, OF Cons.prems(1,2) b after]
    show ?thesis by (simp del: coal_step.simps)
  next
    case False
    with st Cons.IH [of "coal_step put cls ev c"] Cons.prems off show ?thesis by auto
  qed
qed simp

text \<open>Before the close every further frame is taken, as long as the inner stream lasts.\<close>

lemma coal_run_open:
  assumes cls: "\<And>w. sent (fst (cls w)) = sent w"
  shows "coal_ok limit sent inv c \<Longrightarrow> \<not> cc_closed c \<Longrightarrow>
    list_all (frame_fits limit (cc_cfg c)) (offered evs) \<Longrightarrow> length evs \<le> budget (cc_inner c) \<Longrightarrow>
    Shut \<notin> set evs \<Longrightarrow>
    coal_ok limit sent inv (coal_run put cls evs c) \<and> \<not> cc_closed (coal_run put cls evs c) \<and>
    cc_cfg (coal_run put cls evs c) = cc_cfg c \<and>
    budget (cc_inner c) \<le> length evs + budget (cc_inner (coal_run put cls evs c))"
proof (induction evs arbitrary: c)
  case (Cons ev evs)
  have off: "offered (ev # evs) = offered [ev] @ offered evs" using Cons.prems(5) by (cases ev) simp_all
  from Cons.prems off have fits: "list_all (frame_fits limit (cc_cfg c)) (offered [ev])"
    and b: "0 < budget (cc_inner c)" by auto
  note st = coal_step_delivers [OF Cons.prems(1,2) fits b cls]
  have opn: "ev \<noteq> Shut" using Cons.prems(5) by auto
  from st opn Cons.IH [of "coal_step put cls ev c"] Cons.prems off show ?case
    by (auto simp del: coal_step.simps)
qed simp

end

section \<open>Properties\<close>

lemma offered_Shut: "offered (evs @ [Shut]) = offered evs"
  by (induction evs rule: offered.induct) simp_all

lemma offered_append: "offered (xs @ ys) = (if Shut \<in> set xs then offered xs else offered xs @ offered ys)"
  by (induction xs rule: offered.induct) simp_all

text \<open>
  C24: whatever the order of writes, timer firings and cover ticks, and whatever the random
  sizes drawn, once the connection is closed the peer has received exactly the frames that were
  written before the close, each once, in their order, and no byte is left over: batching,
  padding and cover traffic are invisible above the wire.
\<close>

theorem coalescer_delivers_in_order:
  assumes "list_all valid_frame (offered evs)"
  shows "let c = coal_run pipe_write (\<lambda>w. (pipe_close w, None)) (evs @ [Shut])
                   (new_coalescer \<lparr>out_chunks = [], out_closed = False\<rparr> cfg rnd)
         in cc_buf c = [] \<and>
            (\<exists>fs. parse_all (pipe_sent (cc_inner c)) EOF = (fs, EOF) \<and>
                  visible fs = visible (offered evs))"
proof -
  let ?c0 = "new_coalescer \<lparr>out_chunks = [], out_closed = False\<rparr> cfg rnd"
  let ?cfg = "coalesce_defaults cfg"
  define limit where "limit = nat (flush_bytes ?cfg + \<bar>min_padded ?cfg\<bar> + \<bar>max_padded ?cfg\<bar>) + 65543"
  have pos: "0 < flush_bytes ?cfg" by (simp add: coalesce_defaults_def Let_def)
  then have fits: "config_fits limit ?cfg" unfolding config_fits_def limit_def by linarith
  have "frame_fits limit ?cfg f" if "valid_frame f" for f
  proof -
    have "int (length (encode_frame f)) \<le> 65543"
      using that by (simp add: valid_frame_def max_payload_def header_size_def)
    with that pos show ?thesis unfolding frame_fits_def limit_def by linarith
  qed
  with assms have "list_all (frame_fits limit (cc_cfg ?c0)) (offered (evs @ [Shut]))"
    by (simp add: offered_Shut list_all_iff new_coalescer_def Let_def)
  moreover have "coal_ok limit pipe_sent (\<lambda>w. \<not> out_closed w) ?c0"
    using pos fits by (simp add: coal_ok_def new_coalescer_def pipe_sent_def Let_def)
  moreover have "\<not> cc_closed ?c0" and "pipe_sent (fst (pipe_close w, None)) = pipe_sent w"
    and "received (coal_pledged pipe_sent ?c0) = []" for w
    by (simp_all add: new_coalescer_def pipe_close_def pipe_sent_def coal_pledged_def Let_def)
  ultimately show ?thesis
    using open_pipe.coal_run_delivers [of "\<lambda>w. (pipe_close w, None)" limit ?c0 "evs @ [Shut]"
        "length evs + 1"]
    by (auto simp: offered_Shut coal_pledged_def Let_def dest!: framed_parse)
qed

lemma coalescer_delivers_in_order_witness:
  "let c = coal_run pipe_write (\<lambda>w. (pipe_close w, None))
             ([Put \<lparr>version = 1, ftype = 0, stream_id = 3, payload = [9]\<rparr>, Cover_tick, Timer_fire,
               Cover_tick] @ [Shut])
             (new_coalescer \<lparr>out_chunks = [], out_closed = False\<rparr> \<lparr>flush_interval = 0,
                flush_bytes = 0, min_padded = 0, max_padded = 0, cover_interval = 0\<rparr> (sconst 7))
   in cc_buf c = [] \<and>
      (\<exists>fs. parse_all (pipe_sent (cc_inner c)) EOF = (fs, EOF) \<and>
            visible fs = visible [\<lparr>version = 1, ftype = 0, stream_id = 3, payload = [9]\<rparr>])"
  using coalescer_delivers_in_order [of "[Put \<lparr>version = 1, ftype = 0, stream_id = 3, payload = [9]\<rparr>,
      Cover_tick, Timer_fire, Cover_tick]"]
  by (simp add: valid_frame_def protocol_version_def max_payload_def del: coal_run.simps)

text \<open>A non-empty buffer always has a timer that will flush it.\<close>

definition coal_armed :: "'w coalescer \<Rightarrow> bool" where
  "coal_armed c \<longleftrightarrow>
     (cc_buf c \<noteq> [] \<longrightarrow>
        \<not> cc_closed c \<and> cc_timer c \<and> int (length (cc_buf c)) < flush_bytes (cc_cfg c))"

lemma flush_empties [simp]:
  "cc_buf (fst (flush_locked wr cov c)) = []" "cc_cfg (fst (flush_locked wr cov c)) = cc_cfg c"
  using flush_emits [of c cov wr]
  by (cases "cc_buf c = [] \<and> \<not> cov"; cases "wr (cc_inner c) (padded c)";
      force simp: flush_idle)+

lemma flush_result:
  "flush_locked wr cov c = (c', e) \<Longrightarrow> cc_buf c' = [] \<and> cc_cfg c' = cc_cfg c"
  using flush_empties [of wr cov c] by simp

lemma coal_write_cfg: "coal_write wr c p = (c', n, e) \<Longrightarrow> cc_cfg c' = cc_cfg c"
  by (erule coal_write_cases) (auto dest: flush_result)

lemma coal_step_cfg [simp]: "cc_cfg (coal_step wr cls ev c) = cc_cfg c"
  by (cases ev) (auto simp: write_frame_def timer_flush_def cover_tick_def coal_close_def Let_def
      dest: coal_write_cfg split: prod.splits)

lemma coal_armed_step:
  assumes "coal_armed c" and "0 < flush_bytes (cc_cfg c)"
  shows "coal_armed (coal_step wr cls ev c)"
proof (cases ev)
  case (Put f)
  obtain c' n e where w: "coal_write wr c (encode_frame f) = (c', n, e)" by (rule prod_cases3)
  then have "coal_armed c'"
  proof (cases rule: coal_write_cases)
    case flushed
    with flush_result [OF flushed(3)] show ?thesis by (simp add: coal_armed_def)
  qed (use assms in \<open>simp_all add: coal_armed_def\<close>)
  with assms w Put show ?thesis by (simp add: write_frame_def)
next
  case Timer_fire
  with assms show ?thesis by (auto simp: timer_flush_def coal_armed_def Let_def)
next
  case Cover_tick
  with assms show ?thesis by (simp add: cover_tick_def coal_armed_def)
next
  case Shut
  with assms show ?thesis
    by (auto simp: coal_close_def coal_armed_def Let_def split: prod.splits)
qed

text \<open>
  buffered frames never wait without a timer: after any run, over any inner writer, failing
  or not, a non-empty buffer means the connection is open, the flush timer is armed and the
  buffer is below the flush threshold; and when the timer fires the buffer is empty afterwards.
\<close>

theorem coalescer_timer_armed:
  "(let c = coal_run wr cls evs (new_coalescer w cfg rnd)
    in coal_armed c \<and> cc_buf (coal_step wr cls Timer_fire c) = [])"
proof -
  have run: "coal_armed c \<Longrightarrow> 0 < flush_bytes (cc_cfg c) \<Longrightarrow> coal_armed (coal_run wr cls evs c)" for c
    by (induction evs arbitrary: c) (simp_all add: coal_armed_step del: coal_step.simps)
  have "coal_armed (new_coalescer w cfg rnd)" and "0 < flush_bytes (cc_cfg (new_coalescer w cfg rnd))"
    by (simp_all add: coal_armed_def new_coalescer_def coalesce_defaults_def Let_def)
  with run have "coal_armed (coal_run wr cls evs (new_coalescer w cfg rnd))" .
  then show ?thesis by (auto simp: timer_flush_def coal_armed_def Let_def)
qed



section \<open>Frames the sealed layer cannot take\<close>

text \<open>
  A mux frame may be 65543 bytes long, a sealed frame carries 61440. Over a frame cipher, a
  frame that does not fit is refused, and \<^verbatim>\<open>flushLocked\<close> drops the buffer whatever the result:
  frames for which \<^verbatim>\<open>Write\<close> had already returned success are lost with it.
\<close>

lemma oversize_flush_loses_accepted_frames:
  assumes "\<not> cc_closed c" and "max_sealed_payload < length (cc_buf c @ encode_frame f)"
    and "flush_bytes (cc_cfg c) \<le> int max_sealed_payload"
  shows "\<exists>c' e. coal_write (fc_write enc wr) c (encode_frame f) = (c', 0, Some e) \<and>
    cc_inner c' = cc_inner c \<and> cc_buf c' = []"
proof -
  let ?c1 = "c\<lparr>cc_buf := cc_buf c @ encode_frame f\<rparr>"
  have "max_sealed_payload < length (padded ?c1)" and ne: "cc_buf ?c1 \<noteq> [] \<or> False"
    using assms(2) by (simp_all add: padded_def)
  then have "fc_write enc wr (cc_inner ?c1) (padded ?c1) =
      (cc_inner ?c1, 0, Some (write_limit_error (length (padded ?c1))))"
    by (auto simp: fc_write_def max_sealed_payload_def)
  from flush_emits [where wr = "fc_write enc wr", OF ne this] obtain c' where
    "flush_locked (fc_write enc wr) False ?c1 =
       (c', Some (write_limit_error (length (padded ?c1))))"
    "cc_inner c' = cc_inner c" "cc_buf c' = []"
    by auto
  with assms show ?thesis by (simp add: coal_write_def)
qed

end
