(* ===== verification/Tunnel.thy ===== *)
theory Tunnel
  imports Mux_Conn Replay Coalesce
begin

text \<open>
  The tunnel as a whole: the writing stack both programs build (\<^verbatim>\<open>cmd/ghost-client/main.go\<close> and
  \<^verbatim>\<open>cmd/ghost-server/main.go\<close>), coalescer over frame cipher over transport, the client's connection
  on top of it, and the server's frame cipher and read loop at the other end.
\<close>

section \<open>The whole path of a frame\<close>

text \<open>
  The coalescer settings both programs use (\<^verbatim>\<open>cmd/ghost-client/main.go\<close> and
  \<^verbatim>\<open>cmd/ghost-server/main.go\<close> have the same literal).
\<close>

definition program_coalescing :: coalesce_config where
  "program_coalescing =
     \<lparr>flush_interval = 8 * millisecond, flush_bytes = 1300, min_padded = 1100, max_padded = 1450,
      cover_interval = 25000 * millisecond\<rparr>"

text \<open>One side's writing stack over the transport: coalescer, frame cipher, pipe.\<close>

definition tunnel_writer ::
  "'c session \<Rightarrow> nat Stream.stream \<Rightarrow> ('c, unit, pipe_out) frame_cipher coalescer" where
  "tunnel_writer ses rnd =
     new_coalescer (new_cipher () \<lparr>out_chunks = [], out_closed = False\<rparr> (Some ses))
       program_coalescing rnd"

lemma tunnel_writer_eq:
  "tunnel_writer ses rnd =
    \<lparr>cc_inner = \<lparr>fc_rd = (), fc_wr = \<lparr>out_chunks = [], out_closed = False\<rparr>, fc_session = Some ses,
       fc_buf = []\<rparr>,
     cc_cfg = \<lparr>flush_interval = 8 * millisecond, flush_bytes = 1300, min_padded = 1100,
       max_padded = 1450, cover_interval = 25000 * millisecond\<rparr>,
     cc_buf = [], cc_timer = False, cc_closed = False, cc_cover = True, cc_flushes = 0,
     cc_padding = 0, cc_bytes = 0, cc_rand = rnd\<rparr>"
  by (simp add: tunnel_writer_def new_coalescer_def new_cipher_def program_coalescing_def
      coalesce_defaults_def millisecond_def)

text \<open>The stack when it is new: it is in order, its keys last, and it takes frames of a size the sealing takes.\<close>

definition small_frame :: "frame \<Rightarrow> bool" where
  "small_frame f \<longleftrightarrow> valid_frame f \<and> length (payload f) \<le> 60132"

lemma tunnel_start:
  fixes t t' :: "'c option" and rnd :: "nat Stream.stream"
  assumes "noise_law enc dec R" and "noise_lasts enc left" and "R s r"
  defines "start \<equiv> tunnel_writer (new_session (Some s) t) rnd" and "ses \<equiv> Some (new_session t' (Some r))"
  shows "coal_ok max_sealed_payload (fc_sent dec ses 0 pipe_sent)
      (\<lambda>c. noise_lasts enc left \<and> fc_inv enc dec R ses 0 pipe_sent (\<lambda>w. \<not> out_closed w) c) start"
    and "fc_budget left (\<lambda>_. left s) (cc_inner start) = left s" and "\<not> cc_closed start"
    and "received (coal_pledged (fc_sent dec ses 0 pipe_sent) start) = []"
    and "list_all small_frame fs \<Longrightarrow> list_all (frame_fits max_sealed_payload (cc_cfg start)) fs"
    and "fc_sent dec ses 0 pipe_sent (fst (fc_close (\<lambda>w. (pipe_close w, None)) c)) = fc_sent dec ses 0 pipe_sent c"
  using assms(1-3)
  by (auto simp: start_def ses_def coal_ok_def tunnel_writer_eq fc_inv_def fc_sent_def pipe_sent_def in_step_def
      new_session_def config_fits_def max_sealed_payload_def fc_budget_def coal_pledged_def frame_fits_def
      small_frame_def list_all_iff header_size_def fc_close_def pipe_close_def)

text \<open>
  Frames offered to the stack reach the peer's read loop: the coalescer's delivery over the sealed
  transport, and the read loop over the opened one.
\<close>

lemma tunnel_delivers_frames:
  assumes law: "noise_law enc dec R" and lasts: "noise_lasts enc left" and step: "R s r"
    and small: "list_all (\<lambda>f. valid_frame f \<and> length (payload f) \<le> 60132) (offered evs)"
    and nonces: "length evs < left s"
  shows "let w = coal_run (fc_write enc pipe_write) (fc_close (\<lambda>w. (pipe_close w, None)))
                   (evs @ [Shut]) (tunnel_writer (new_session (Some s) t) rnd)
         in \<forall>rd. pipe_pending rd = pipe_sent (fc_wr (cc_inner w)) \<and> in_end rd = EOF \<longrightarrow>
           (\<exists>r' fs. visible fs = visible (offered evs) \<and>
              conn_read_loop (fc_read dec pipe_read) wr clock k
                (new_cipher rd () (Some (new_session t' (Some r)))) c =
              Some (r', conn_close ((dispatch_all wr c fs clock k)\<lparr>c_close_err := Some EOF\<rparr>)))"
proof -
  let ?ses = "Some (new_session t' (Some r))"
  let ?start = "tunnel_writer (new_session (Some s) t) rnd"
  let ?sent = "fc_sent dec ?ses 0 pipe_sent"
  let ?good = "\<lambda>c. noise_lasts enc left \<and> fc_inv enc dec R ?ses 0 pipe_sent (\<lambda>w. \<not> out_closed w) c"
  let ?after = "\<lambda>c. \<exists>pt ses. open_all dec ?ses (pipe_sent (fc_wr c)) = Some (pt, ses)"
  let ?cls = "fc_close (\<lambda>w. (pipe_close w, None))"
  let ?stop = "coal_run (fc_write enc pipe_write) ?cls (evs @ [Shut]) ?start"
  note start = tunnel_start [OF law lasts step]
  have cls: "?sent (fst (?cls c)) = ?sent c" for c :: "('a, unit, pipe_out) frame_cipher"
    by (rule start(6))
  have after: "?after (fst (?cls c))" if "?good c" for c :: "('a, unit, pipe_out) frame_cipher"
    using that by (auto simp: fc_close_def fc_inv_def pipe_close_def pipe_sent_def)
  have fits: "list_all (frame_fits max_sealed_payload (cc_cfg ?start)) (offered (evs @ [Shut]))"
    using small start(5) by (simp add: offered_Shut small_frame_def [abs_def])
  have budget: "length (evs @ [Shut]) \<le> fc_budget left (\<lambda>_. left s) (cc_inner ?start)"
    using nonces by (simp add: start(2))
  note ok = start(1) and new = start(3,4)
  note run = sealed_pipe.coal_run_delivers [OF cls ok new(1) fits budget]
  then have "cc_buf ?stop = []" by simp
  with run new(2) have fin: "framed (?sent (cc_inner ?stop))"
    "received (?sent (cc_inner ?stop)) = visible (offered evs)"
    by (simp_all add: offered_Shut coal_pledged_def)
  from sealed_pipe.coal_run_after [where P = ?after, OF cls after ok new(1) fits budget]
  obtain pt ses where op: "open_all dec ?ses (pipe_sent (fc_wr (cc_inner ?stop))) = Some (pt, ses)"
    by auto
  then have sent: "?sent (cc_inner ?stop) = pt" by (simp add: fc_sent_def)
  obtain fs where fs: "parse_all pt EOF = (fs, EOF)" "visible fs = visible (offered evs)"
    using framed_parse [OF fin(1)] fin(2) sent by auto
  have "\<exists>r'. conn_read_loop (fc_read dec pipe_read) wr clock k (new_cipher rd () ?ses) c =
      Some (r', conn_close ((dispatch_all wr c fs clock k)\<lparr>c_close_err := Some EOF\<rparr>))"
    if "pipe_pending rd = pipe_sent (fc_wr (cc_inner ?stop))" and "in_end rd = EOF" for rd
    using byte_source.conn_read_loop_runs [OF pipe.fc_source, of dec "new_cipher rd () ?ses" fs EOF]
      opened_whole [OF op, of EOF] fs that
    by (simp add: fc_pending_def fc_final_def fc_plain_def new_cipher_def)
  with fs(2) show ?thesis unfolding Let_def by blast
qed

text \<open>The writing stack takes a frame as long as the keys last.\<close>

abbreviation end_writer :: "'c aead \<Rightarrow> ('c, unit, pipe_out) frame_cipher coalescer writer" where
  "end_writer enc \<equiv> coal_write (fc_write enc pipe_write)"

definition end_run ::
  "'c aead \<Rightarrow> coal_event list \<Rightarrow> ('c, unit, pipe_out) frame_cipher coalescer \<Rightarrow> ('c, unit, pipe_out) frame_cipher coalescer" where
  "end_run enc = coal_run (fc_write enc pipe_write) (fc_close (\<lambda>w. (pipe_close w, None)))"

lemma tunnel_accepts:
  assumes law: "noise_law enc dec R" and lasts: "noise_lasts enc left" and step: "R s r"
    and small: "list_all small_frame (offered evs)" "small_frame f"
    and opn: "Shut \<notin> set evs" and nonces: "Suc (length evs) < left s"
  shows "snd (write_frame (end_writer enc) (end_run enc evs (tunnel_writer (new_session (Some s) t) rnd)) f) = None"
proof -
  let ?start = "tunnel_writer (new_session (Some s) t) rnd"
  note start = tunnel_start [OF law lasts step]
  have "length evs \<le> fc_budget left (\<lambda>_. left s) (cc_inner ?start)" using nonces by (simp add: start(2))
  from sealed_pipe.coal_run_open [where budget = "left s", OF start(6) start(1,3) start(5) [OF small(1)] this opn,
      folded end_run_def, of None] nonces
  have run: "coal_ok max_sealed_payload (fc_sent dec (Some (new_session None (Some r))) 0 pipe_sent)
      (\<lambda>c. noise_lasts enc left \<and> fc_inv enc dec R (Some (new_session None (Some r))) 0 pipe_sent
         (\<lambda>w. \<not> out_closed w) c) (end_run enc evs ?start)"
    "\<not> cc_closed (end_run enc evs ?start)" "cc_cfg (end_run enc evs ?start) = cc_cfg ?start"
    "0 < fc_budget left (\<lambda>_. left s) (cc_inner (end_run enc evs ?start))"
    by (simp_all add: start(2))
  from sealed_pipe.coal_write_delivers [where budget = "left s", OF run(1,2) _ run(4), of f] run(3) small(2)
    start(5) [of "[f]"]
  obtain c' n where "coal_write (fc_write enc pipe_write) (end_run enc evs ?start) (encode_frame f) = (c', n, None)"
    by auto
  moreover have "\<not> max_payload < length (payload f)" using small(2) by (simp add: small_frame_def valid_frame_def)
  ultimately show ?thesis by (simp add: write_frame_def)
qed

section \<open>A client's packets over the tunnel\<close>

text \<open>
  What a client does on its stream: write a packet, while the flush timer and the cover ticker
  fire at any time. The connection's encoder writes to the coalescer.
\<close>

datatype client_move = Send bytes | Fire | Cover

fun client_action ::
  "'w writer \<Rightarrow> nat \<Rightarrow> client_move \<Rightarrow> 'w coalescer conn \<Rightarrow> 'w coalescer conn" where
  "client_action wr a (Send p) c = fst (conn_stream_write (coal_write wr) c a p)"
| "client_action wr a Fire c = c\<lparr>c_enc := timer_flush wr (c_enc c)\<rparr>"
| "client_action wr a Cover c = c\<lparr>c_enc := cover_tick wr (c_enc c)\<rparr>"

definition client_actions ::
  "'w writer \<Rightarrow> nat \<Rightarrow> client_move list \<Rightarrow> 'w coalescer conn \<Rightarrow> 'w coalescer conn" where
  "client_actions wr a acts c = fold (client_action wr a) acts c"

definition packets_of :: "client_move list \<Rightarrow> bytes list" where
  "packets_of acts = concat (map (\<lambda>x. case x of Send p \<Rightarrow> [p] | _ \<Rightarrow> []) acts)"

text \<open>The same actions as events of the coalescer.\<close>

fun as_event :: "32 word \<Rightarrow> client_move \<Rightarrow> coal_event" where
  "as_event sid (Send p) = Put (data_frame sid p)"
| "as_event sid Fire = Timer_fire"
| "as_event sid Cover = Cover_tick"

definition packet_ok :: "bytes \<Rightarrow> bool" where
  "packet_ok p \<longleftrightarrow> p \<noteq> [] \<and> length p \<le> 60132"

lemma stream_write_packet:
  assumes "packet_ok p" and "\<not> s_closed s"
  shows "fst (stream_write wr w s p) = fst (write_frame wr w (data_frame (s_id s) p))"
proof -
  have p: "p \<noteq> []" "\<not> max_payload < length p" using assms(1) by (simp_all add: packet_ok_def max_payload_def)
  show ?thesis
  proof (cases "write_frame wr w (data_frame (s_id s) p)")
    case (Pair w' e)
    with p assms(2) show ?thesis
      by (cases e)
        (simp_all add: stream_write_def write_chunks.simps [of wr w] write_chunks.simps [of _ _ _ "[]"])
  qed
qed

lemma client_action_event:
  assumes "x \<in> Send ` {p. packet_ok p} \<union> {Fire, Cover}" and "\<not> s_closed (c_heap c ! a)"
  shows "c_enc (client_action wr a x c) = coal_step wr cls (as_event (s_id (c_heap c ! a)) x) (c_enc c) \<and>
    c_heap (client_action wr a x c) = c_heap c"
proof (cases x)
  case (Send p)
  with assms stream_write_packet [of p "c_heap c ! a" "coal_write wr" "c_enc c"] show ?thesis
    by (auto simp: conn_stream_write_def split: prod.splits)
qed simp_all

lemma client_actions_events:
  assumes "set acts \<subseteq> Send ` {p. packet_ok p} \<union> {Fire, Cover}" and "\<not> s_closed (c_heap c ! a)"
  shows "c_enc (client_actions wr a acts c) =
    coal_run wr cls (map (as_event (s_id (c_heap c ! a))) acts) (c_enc c)"
  using assms
proof (induction acts arbitrary: c)
  case Nil
  then show ?case by (simp add: client_actions_def)
next
  case (Cons x acts)
  have "x \<in> Send ` {p. packet_ok p} \<union> {Fire, Cover}" using Cons.prems(1) by simp
  from client_action_event [OF this Cons.prems(2), of wr cls]
    Cons.IH [of "client_action wr a x c"] Cons.prems
  show ?case by (simp add: client_actions_def)
qed

lemma offered_events: "offered (map (as_event sid) acts) = map (data_frame sid) (packets_of acts)"
proof (induction acts)
  case (Cons x acts)
  then show ?case by (cases x) (simp_all add: packets_of_def)
qed (simp add: packets_of_def)

lemma packets_ok_moves:
  "list_all packet_ok (packets_of acts) \<Longrightarrow> set acts \<subseteq> Send ` {p. packet_ok p} \<union> {Fire, Cover}"
proof (induction acts)
  case (Cons x acts)
  then show ?case by (cases x) (auto simp: packets_of_def)
qed simp

lemma coal_run_append: "coal_run wr cls (xs @ ys) c = coal_run wr cls ys (coal_run wr cls xs c)"
  by (induction xs arbitrary: c) simp_all

text \<open>\<^verbatim>\<open>OpenStream\<close> of a new client connection: the first id is 1.\<close>

lemma client_opens:
  "c_heap (fst (open_stream wr (new_conn w True cb now))) = [new_stream 1]"
  "c_enc (fst (open_stream wr (new_conn w True cb now))) =
     fst (write_frame wr w (control_frame type_stream_open 1 []))"
  by (simp_all add: open_stream_def open_register_def open_announce_def new_conn_def send_frame_def Let_def
      split: prod.split option.split)

section \<open>What the server's connection makes of the frames\<close>

lemma dispatch_padding_all:
  "\<forall>f\<in>set fs. ftype f = type_padding \<Longrightarrow> dispatch_all wr c fs clock k = c"
  by (induction fs arbitrary: k) (simp_all add: dispatch_def frame_type_defs)

lemma dispatch_all_spawned:
  "\<forall>f\<in>set fs. ftype f \<noteq> type_stream_open \<Longrightarrow>
     c_spawned (dispatch_all wr c fs clock k) = c_spawned c"
proof (induction fs arbitrary: c k)
  case (Cons f fs)
  then have "c_spawned (dispatch wr c f (clock k)) = c_spawned c"
    by (auto simp: dispatch_def Let_def send_frame_def split: option.splits prod.splits)
  with Cons show ?case by simp
qed simp

lemma visible_Cons_split:
  assumes "visible fs = f # gs"
  shows "\<exists>pads rest. fs = pads @ f # rest \<and> (\<forall>p\<in>set pads. ftype p = type_padding) \<and> visible rest = gs"
  using assms by (auto simp: visible_def dest!: filter_eq_ConsD)

lemma dispatch_all_done: "c_done (dispatch_all wr c fs clock k) = c_done c"
proof (induction fs arbitrary: c k)
  case (Cons f fs)
  have "c_done (dispatch wr c f (clock k)) = c_done c"
    by (auto simp: dispatch_def Let_def split: option.splits)
  with Cons show ?case by simp
qed simp

lemma visible_append_split:
  "visible xs = as @ bs \<Longrightarrow> \<exists>x1 x2. xs = x1 @ x2 \<and> visible x1 = as \<and> visible x2 = bs"
proof (induction as arbitrary: xs)
  case (Cons a as)
  then obtain pads rest where xs: "xs = pads @ a # rest" "\<forall>p\<in>set pads. ftype p = type_padding"
    "visible rest = as @ bs"
    using visible_Cons_split by (metis append_Cons)
  from Cons.IH [OF xs(3)] obtain x1 x2 where x: "rest = x1 @ x2" "visible x1 = as" "visible x2 = bs" by blast
  have "ftype a \<noteq> type_padding"
  proof -
    have "a \<in> set (visible xs)" using Cons.prems by simp
    then show ?thesis by (simp add: visible_def)
  qed
  with xs x show ?case
    by (intro exI [of _ "pads @ a # x1"] exI [of _ x2]) (auto simp: visible_def filter_empty_conv)
qed (metis append_Nil visible_Nil)

text \<open>A stream that is registered hears the DATA among frames that open and close nothing.\<close>

lemma stream_hears:
  assumes ok: "conn_ok c0" "\<not> c_done c0"
    and str: "map_of (c_streams c0) sid = Some a" "read_err (c_heap c0 ! a) = None"
    and kinds: "\<forall>f\<in>set fs. ftype f \<noteq> type_stream_open \<and> ftype f \<noteq> type_stream_close"
    and c: "c = dispatch_all wr c0 fs clock k"
  shows "conn_ok c" "\<not> c_done c" "c_spawned c = c_spawned c0" "map_of (c_streams c) sid = Some a"
    "read_err (c_heap c ! a) = None"
    "inbox (c_heap c ! a) = inbox (c_heap c0 ! a) @
       map payload (filter (\<lambda>f. ftype f = type_data \<and> stream_id f = sid) fs)"
  using dispatch_all_demux [OF ok(1) str, of fs wr clock k] dispatch_all_spawned [of fs wr c0 clock k] kinds ok
  by (simp_all add: c dispatch_all_done conn_ok_dispatch_all)

text \<open>And its end: from a STREAM_CLOSE or from the close of the connection.\<close>

lemma stream_ends:
  assumes ok: "conn_ok c" "\<not> c_done c" and str: "map_of (c_streams c) sid = Some a" "read_err (c_heap c ! a) = None"
    and c': "c' = c \<or> c' = dispatch wr c (close_frame sid) now"
  shows "c_done (conn_close (c'\<lparr>c_close_err := e\<rparr>))" "c_spawned (conn_close (c'\<lparr>c_close_err := e\<rparr>)) = c_spawned c"
    "stream_ok (c_heap (conn_close (c'\<lparr>c_close_err := e\<rparr>)) ! a)"
    "inbox (c_heap (conn_close (c'\<lparr>c_close_err := e\<rparr>)) ! a) = inbox (c_heap c ! a)"
    "read_err (c_heap (conn_close (c'\<lparr>c_close_err := e\<rparr>)) ! a) = Some EOF"
proof -
  have a: "a < length (c_heap c)" using conn_okD(1) [OF ok(1) str(1)] .
  have in_map: "a \<in> set (map snd (c_streams c))" using map_of_SomeD [OF str(1)] by force
  have closed: "dispatch wr c (close_frame sid) now =
      c\<lparr>c_streams := AList.delete sid (c_streams c), c_heap := (c_heap c)[a := deliver_err (c_heap c ! a) EOF]\<rparr>"
    using str(1) by (simp add: dispatch_def close_frame_def frame_type_defs)
  have okc: "conn_ok c'" using c' ok(1) conn_ok_dispatch by auto
  have fin: "\<not> c_done c'" "a < length (c_heap c')" "c_spawned c' = c_spawned c"
    using c' ok(2) a by (auto simp: closed)
  from conn_ok_stream [OF conn_ok_close [of "c'\<lparr>c_close_err := e\<rparr>"], of a] okc fin
  show "stream_ok (c_heap (conn_close (c'\<lparr>c_close_err := e\<rparr>)) ! a)"
    by (simp add: conn_close_def)
  show "c_done (conn_close (c'\<lparr>c_close_err := e\<rparr>))" "c_spawned (conn_close (c'\<lparr>c_close_err := e\<rparr>)) = c_spawned c"
    using fin by (simp_all add: conn_close_def)
  show "inbox (c_heap (conn_close (c'\<lparr>c_close_err := e\<rparr>)) ! a) = inbox (c_heap c ! a)"
    "read_err (c_heap (conn_close (c'\<lparr>c_close_err := e\<rparr>)) ! a) = Some EOF"
    using c' fin a in_map str by (auto simp: conn_close_def end_streams_nth closed)
qed

text \<open>
  A stream that is registered and still open receives the payloads of its DATA frames, whatever
  PADDING is in between, and its end when the connection closes.
\<close>

lemma stream_receives:
  assumes ok: "conn_ok c0" "\<not> c_done c0"
    and str: "map_of (c_streams c0) sid = Some a" "read_err (c_heap c0 ! a) = None" "inbox (c_heap c0 ! a) = []"
    and vis: "visible fs = map (data_frame sid) ps"
    and c: "c = conn_close ((dispatch_all wr c0 fs clock k)\<lparr>c_close_err := e\<rparr>)"
  shows "c_done c \<and> c_spawned c = c_spawned c0 \<and> stream_ok (c_heap c ! a) \<and>
    inbox (c_heap c ! a) = ps \<and> read_err (c_heap c ! a) = Some EOF"
proof -
  define c2 where "c2 = dispatch_all wr c0 fs clock k"
  have kinds: "ftype f = type_padding \<or> ftype f = type_data" if "f \<in> set fs" for f
  proof (cases "ftype f = type_padding")
    case False
    with that have "f \<in> set (visible fs)" by (simp add: visible_def)
    then show ?thesis by (auto simp: vis data_frame_def)
  qed simp
  have "\<forall>f\<in>set fs. ftype f \<noteq> type_stream_open \<and> ftype f \<noteq> type_stream_close"
    using kinds by (fastforce simp: frame_type_defs)
  note c2 = stream_hears [OF ok str(1,2) this c2_def]
  have "filter (\<lambda>f. ftype f = type_data \<and> stream_id f = sid) fs =
      filter (\<lambda>f. ftype f = type_data \<and> stream_id f = sid) (visible fs)"
    by (auto simp: visible_def filter_filter frame_type_defs intro!: filter_cong)
  also have "\<dots> = map (data_frame sid) ps"
    by (simp add: vis filter_map comp_def data_frame_def)
  finally have "inbox (c_heap c2 ! a) = ps" using c2(6) str(3) by (simp add: comp_def data_frame_def)
  with stream_ends [OF c2(1,2,4,5) disjI1 [OF refl], where e = e] c2(3) show ?thesis
    by (simp add: c flip: c2_def)
qed

text \<open>
  The server's side of one tunnel stream: the frames are the peer's STREAM_OPEN and DATA frames with
  PADDING anywhere; after the end of the connection the stream handed to the callback holds the
  payloads and then its end.
\<close>

lemma server_receives:
  assumes "visible fs = control_frame type_stream_open sid [] # map (data_frame sid) ps"
    and "c = conn_close ((dispatch_all wr (new_conn w False True now) fs clock k)\<lparr>c_close_err := e\<rparr>)"
  shows "c_done c \<and> c_spawned c = [0] \<and> stream_ok (c_heap c ! 0) \<and>
    inbox (c_heap c ! 0) = ps \<and> read_err (c_heap c ! 0) = Some EOF"
proof -
  from visible_Cons_split [OF assms(1)] obtain pads rest where
    fs: "fs = pads @ control_frame type_stream_open sid [] # rest"
    and pads: "\<forall>p\<in>set pads. ftype p = type_padding" and rest: "visible rest = map (data_frame sid) ps"
    by blast
  define t where "t = clock (k + length pads)"
  define c1 where "c1 = dispatch wr (new_conn w False True now) (control_frame type_stream_open sid []) t"
  have run: "dispatch_all wr (new_conn w False True now) fs clock k =
      dispatch_all wr c1 rest clock (Suc (k + length pads))"
    by (simp add: fs dispatch_all_append dispatch_padding_all [OF pads] c1_def t_def)
  have c1: "conn_ok c1" "\<not> c_done c1" "map_of (c_streams c1) sid = Some 0"
    "read_err (c_heap c1 ! 0) = None" "inbox (c_heap c1 ! 0) = []" "c_spawned c1 = [0]"
    by (simp add: c1_def conn_ok_dispatch)
      (simp_all add: c1_def dispatch_def control_frame_def new_conn_def frame_type_defs Let_def)
  from stream_receives [OF c1(1-5) rest, where c = c and wr = wr and clock = clock
      and k = "Suc (k + length pads)" and e = e] c1(6) show ?thesis
    by (simp add: assms(2) run)
qed

text \<open>A reader takes the messages out one by one and then meets the end.\<close>

lemma stream_read_out:
  assumes "stream_ok s" and "inbox s = ps" and "read_err s = Some e" and "\<forall>p\<in>set ps. length p \<le> n"
  shows "\<exists>s'. recv_many stream_read s n (length ps) = Some (s', ps) \<and>
    stream_read s' n = Some (s', [], Some e)"
  using sq.recv_many_whole [of s ps "[]" n] assms by (auto simp: stream_read_empty)

end
