(* ===== verification/Tun_Router.thy ===== *)
theory Tun_Router
  imports Go_IO "HOL-Library.Sublist"
begin

text \<open>
  The TUN side of the tunnel, \<^verbatim>\<open>internal/tun/router.go\<close>: IP packet checks, the client's \<^verbatim>\<open>Bridge\<close>
  between the device and one stream, and the server's \<^verbatim>\<open>TunRouter\<close>, which owns the reads of the
  device and dispatches packets to sessions by destination address.

  The goroutines interleave, so the operations are steps driven by events; an event carries
  what the environment answered (the packet the device or the stream returned, the error of a
  write). In \<^verbatim>\<open>readLoop\<close> the route lookup and the channel send are two steps, as the lock is
  released in between. A bridge and the channel \<^verbatim>\<open>register\<close> made for it are one record; a route
  is the index of its bridge. Sending on a closed channel panics (\<open>rt_panic\<close>), which ends the
  process.
\<close>

section \<open>IP packets\<close>

definition tun_write_queue :: nat where
  "tun_write_queue = 512"

definition ip_version :: "bytes \<Rightarrow> byte" where
  "ip_version pkt = drop_bit 4 (pkt ! 0)"

definition is_valid_ip_packet :: "bytes \<Rightarrow> bool" where
  "is_valid_ip_packet pkt =
     (if length pkt < 1 then False
      else if ip_version pkt = 4
      then (if length pkt < 20 then False
            else
              let tot = unat (pkt ! 2) * 256 + unat (pkt ! 3)
              in \<not> (tot < 20 \<or> length pkt < tot))
      else if ip_version pkt = 6 then \<not> length pkt < 40
      else False)"

definition dst_ip_key :: "bytes \<Rightarrow> bytes" where
  "dst_ip_key pkt =
     (if length pkt < 1 then []
      else if ip_version pkt = 4 then (if length pkt < 20 then [] else subslice 16 20 pkt)
      else if ip_version pkt = 6 then (if length pkt < 40 then [] else subslice 24 40 pkt)
      else [])"

definition src_ip_key :: "bytes \<Rightarrow> bytes" where
  "src_ip_key pkt =
     (if length pkt < 1 then []
      else if ip_version pkt = 4 then (if length pkt < 20 then [] else subslice 12 16 pkt)
      else if ip_version pkt = 6 then (if length pkt < 40 then [] else subslice 8 24 pkt)
      else [])"

text \<open>The non-blocking send \<^verbatim>\<open>select { case ch <- pkt: default: }\<close> on an open channel.\<close>

definition offer :: "bytes \<Rightarrow> bytes list \<Rightarrow> bytes list" where
  "offer pkt q = (if length q < tun_write_queue then q @ [pkt] else q)"

section \<open>The client bridge\<close>

text \<open>
  The three goroutines of \<^verbatim>\<open>Bridge\<close>: \<open>cb_reader\<close> (TUN reader), \<open>cb_writer\<close> (mux writer) and
  \<open>cb_inbound\<close> (stream to TUN) say which still run; \<open>cb_errc\<close> is the buffered error channel,
  \<open>cb_stop\<close> the closed \<^verbatim>\<open>stopCh\<close>, \<open>cb_result\<close> what \<^verbatim>\<open>Bridge\<close> returned. \<open>cb_stream\<close> and \<open>cb_tun\<close> are the
  packets written to the stream and to the device.
\<close>

record client_bridge =
  cb_queue :: "bytes list"
  cb_closed :: bool
  cb_stop :: bool
  cb_errc :: "go_error option list"
  cb_reader :: bool
  cb_writer :: bool
  cb_inbound :: bool
  cb_stream :: "bytes list"
  cb_tun :: "bytes list"
  cb_result :: "go_error option option"

definition bridge_init :: client_bridge where
  "bridge_init =
     \<lparr>cb_queue = [], cb_closed = False, cb_stop = False, cb_errc = [], cb_reader = True,
      cb_writer = True, cb_inbound = True, cb_stream = [], cb_tun = [], cb_result = None\<rparr>"

datatype bridge_event =
    Dev_read "go_error + bytes"
  | Mux_write "go_error option"
  | Mux_read "go_error + bytes" "go_error option"
  | Bridge_end

text \<open>
  A send on \<^verbatim>\<open>errc\<close> never blocks: its capacity is three and there are three goroutines, each
  sending at most once.
\<close>

definition eof_to_nil :: "go_error \<Rightarrow> go_error option" where
  "eof_to_nil e = (if e = EOF then None else Some e)"

fun bridge_step :: "bridge_event \<Rightarrow> client_bridge \<Rightarrow> client_bridge" where
  "bridge_step (Dev_read res) b =
     (if \<not> cb_reader b then b
      else case res of
        Inl e \<Rightarrow> b\<lparr>cb_errc := cb_errc b @ [Some e], cb_reader := False, cb_closed := True\<rparr>
      | Inr pkt \<Rightarrow>
          if pkt = [] then b
          else if cb_stop b then b\<lparr>cb_reader := False, cb_closed := True\<rparr>
          else b\<lparr>cb_queue := offer pkt (cb_queue b)\<rparr>)"
| "bridge_step (Mux_write err) b =
     (if \<not> cb_writer b then b
      else case cb_queue b of
        [] \<Rightarrow> if cb_closed b then b\<lparr>cb_writer := False\<rparr> else b
      | pkt # q \<Rightarrow>
          (case err of
             None \<Rightarrow> b\<lparr>cb_queue := q, cb_stream := cb_stream b @ [pkt]\<rparr>
           | Some e \<Rightarrow>
               b\<lparr>cb_queue := q, cb_errc := cb_errc b @ [Some e], cb_writer := False\<rparr>))"
| "bridge_step (Mux_read res err) b =
     (if \<not> cb_inbound b then b
      else case res of
        Inl e \<Rightarrow> b\<lparr>cb_errc := cb_errc b @ [eof_to_nil e], cb_inbound := False\<rparr>
      | Inr pkt \<Rightarrow>
          if pkt = [] \<or> \<not> is_valid_ip_packet pkt then b
          else
            (case err of
               None \<Rightarrow> b\<lparr>cb_tun := cb_tun b @ [pkt]\<rparr>
             | Some e \<Rightarrow> b\<lparr>cb_errc := cb_errc b @ [Some e], cb_inbound := False\<rparr>))"
| "bridge_step Bridge_end b =
     (case cb_result b of
        Some _ \<Rightarrow> b
      | None \<Rightarrow>
          (case cb_errc b of
             [] \<Rightarrow> b
           | e # es \<Rightarrow> b\<lparr>cb_errc := es, cb_stop := True, cb_result := Some e\<rparr>))"

fun bridge_run :: "bridge_event list \<Rightarrow> client_bridge \<Rightarrow> client_bridge" where
  "bridge_run [] b = b"
| "bridge_run (ev # evs) b = bridge_run evs (bridge_step ev b)"

section \<open>The server's router\<close>

record bridge =
  br_key :: bytes
  br_queue :: "bytes list"
  br_closed :: bool
  br_out :: "bytes list"
  br_writer :: bool
  br_reader :: bool
  br_errc :: "go_error option list"
  br_result :: "go_error option option"

record router =
  rt_routes :: "bytes \<Rightarrow> nat option"
  rt_bridges :: "bridge list"
  rt_pending :: "(nat \<times> bytes) option"
  rt_reading :: bool
  rt_tun :: "bytes list"
  rt_panic :: bool

definition new_tun_router :: router where
  "new_tun_router =
     \<lparr>rt_routes = (\<lambda>_. None), rt_bridges = [], rt_pending = None, rt_reading = True,
      rt_tun = [], rt_panic = False\<rparr>"

definition register :: "bytes \<Rightarrow> router \<Rightarrow> router" where
  "register key r =
     r\<lparr>rt_bridges := rt_bridges r @
          [\<lparr>br_key = key, br_queue = [], br_closed = False, br_out = [], br_writer = True,
            br_reader = True, br_errc = [], br_result = None\<rparr>],
       rt_routes := (rt_routes r)(key := Some (length (rt_bridges r)))\<rparr>"

definition update_bridge :: "nat \<Rightarrow> (bridge \<Rightarrow> bridge) \<Rightarrow> router \<Rightarrow> router" where
  "update_bridge i f r = r\<lparr>rt_bridges := (rt_bridges r)[i := f (rt_bridges r ! i)]\<rparr>"

definition unregister :: "bytes \<Rightarrow> router \<Rightarrow> router" where
  "unregister key r =
     (let r1 = r\<lparr>rt_routes := (rt_routes r)(key := None)\<rparr>
      in case rt_routes r key of
           None \<Rightarrow> r1
         | Some i \<Rightarrow>
             if br_closed (rt_bridges r ! i) then r1\<lparr>rt_panic := True\<rparr>
             else update_bridge i (\<lambda>b. b\<lparr>br_closed := True\<rparr>) r1)"

text \<open>One iteration of \<^verbatim>\<open>readLoop\<close>: up to the lookup, then the send.\<close>

definition route_lookup :: "go_error + bytes \<Rightarrow> router \<Rightarrow> router" where
  "route_lookup res r =
     (if \<not> rt_reading r \<or> rt_pending r \<noteq> None then r
      else case res of
        Inl e \<Rightarrow> r\<lparr>rt_reading := False\<rparr>
      | Inr pkt \<Rightarrow>
          if pkt = [] then r
          else if dst_ip_key pkt = [] then r
          else
            (case rt_routes r (dst_ip_key pkt) of
               None \<Rightarrow> r
             | Some i \<Rightarrow> r\<lparr>rt_pending := Some (i, pkt)\<rparr>))"

definition route_send :: "router \<Rightarrow> router" where
  "route_send r =
     (case rt_pending r of
        None \<Rightarrow> r
      | Some (i, pkt) \<Rightarrow>
          if br_closed (rt_bridges r ! i) then r\<lparr>rt_pending := None, rt_panic := True\<rparr>
          else update_bridge i (\<lambda>b. b\<lparr>br_queue := offer pkt (br_queue b)\<rparr>) (r\<lparr>rt_pending := None\<rparr>))"

text \<open>
  \<^verbatim>\<open>TunRouter.Bridge\<close> up to the start of its goroutines: the result of the first \<^verbatim>\<open>stream.Read\<close>
  and of the first \<^verbatim>\<open>dev.Write\<close> are arguments; the error it returns early with is the result.
\<close>

definition bridge_open ::
  "go_error + bytes \<Rightarrow> go_error option \<Rightarrow> router \<Rightarrow> router \<times> go_error option" where
  "bridge_open res err r =
     (case res of
        Inl e \<Rightarrow> (r, Some (Wrapf ''tun router: read first packet: %w'' e))
      | Inr first \<Rightarrow>
          if src_ip_key first = []
          then (r, Some (Errorf ''tun router: first packet is not a valid IP packet (len=%d)''
                     [int (length first)]))
          else
            let r1 = register (src_ip_key first) r
            in if is_valid_ip_packet first \<and> err = None
               then (r1\<lparr>rt_tun := rt_tun r1 @ [first]\<rparr>, None)
               else (r1, None))"

text \<open>One iteration of the TUN-to-stream goroutine of bridge \<open>i\<close>, and of its stream-to-TUN one.\<close>

definition bridge_drain :: "nat \<Rightarrow> go_error option \<Rightarrow> router \<Rightarrow> router" where
  "bridge_drain i err r =
     (let b = rt_bridges r ! i
      in if length (rt_bridges r) \<le> i \<or> \<not> br_writer b then r
         else case br_queue b of
           [] \<Rightarrow>
             if br_closed b
             then update_bridge i (\<lambda>b. b\<lparr>br_writer := False, br_errc := br_errc b @ [None]\<rparr>) r
             else r
         | pkt # q \<Rightarrow>
             (case err of
                None \<Rightarrow> update_bridge i (\<lambda>b. b\<lparr>br_queue := q, br_out := br_out b @ [pkt]\<rparr>) r
              | Some e \<Rightarrow>
                  update_bridge i
                    (\<lambda>b. b\<lparr>br_queue := q, br_writer := False, br_errc := br_errc b @ [Some e]\<rparr>) r))"

definition bridge_inbound :: "nat \<Rightarrow> go_error + bytes \<Rightarrow> go_error option \<Rightarrow> router \<Rightarrow> router" where
  "bridge_inbound i res err r =
     (let b = rt_bridges r ! i
      in if length (rt_bridges r) \<le> i \<or> \<not> br_reader b then r
         else case res of
           Inl e \<Rightarrow>
             update_bridge i (\<lambda>b. b\<lparr>br_reader := False, br_errc := br_errc b @ [eof_to_nil e]\<rparr>) r
         | Inr pkt \<Rightarrow>
             if pkt = [] \<or> \<not> is_valid_ip_packet pkt then r
             else
               (case err of
                  None \<Rightarrow> r\<lparr>rt_tun := rt_tun r @ [pkt]\<rparr>
                | Some e \<Rightarrow>
                    update_bridge i (\<lambda>b. b\<lparr>br_reader := False, br_errc := br_errc b @ [Some e]\<rparr>) r))"

text \<open>\<^verbatim>\<open>return <-errc\<close> with the deferred \<^verbatim>\<open>unregister\<close>.\<close>

definition bridge_return :: "nat \<Rightarrow> router \<Rightarrow> router" where
  "bridge_return i r =
     (let b = rt_bridges r ! i
      in if length (rt_bridges r) \<le> i \<or> br_result b \<noteq> None then r
         else case br_errc b of
           [] \<Rightarrow> r
         | e # es \<Rightarrow>
             unregister (br_key b) (update_bridge i (\<lambda>b. b\<lparr>br_errc := es, br_result := Some e\<rparr>) r))"

datatype router_event =
    Tun_read "go_error + bytes"
  | Tun_send
  | Session_open "go_error + bytes" "go_error option"
  | Session_drain nat "go_error option"
  | Session_inbound nat "go_error + bytes" "go_error option"
  | Session_return nat

fun router_step :: "router_event \<Rightarrow> router \<Rightarrow> router" where
  "router_step (Tun_read res) r = route_lookup res r"
| "router_step Tun_send r = route_send r"
| "router_step (Session_open res err) r = fst (bridge_open res err r)"
| "router_step (Session_drain i err) r = bridge_drain i err r"
| "router_step (Session_inbound i res err) r = bridge_inbound i res err r"
| "router_step (Session_return i) r = bridge_return i r"

fun router_run :: "router_event list \<Rightarrow> router \<Rightarrow> router" where
  "router_run [] r = r"
| "router_run (ev # evs) r = (if rt_panic r then r else router_run evs (router_step ev r))"

section \<open>Packets and their keys\<close>

lemma valid_packet_keys:
  "is_valid_ip_packet pkt \<Longrightarrow>
   dst_ip_key pkt \<noteq> [] \<and> src_ip_key pkt \<noteq> [] \<and> length (dst_ip_key pkt) = length (src_ip_key pkt)"
  by (auto simp: is_valid_ip_packet_def dst_ip_key_def src_ip_key_def subslice_def split: if_splits)

lemma length_offer: "length q \<le> tun_write_queue \<Longrightarrow> length (offer p q) \<le> tun_write_queue"
  by (simp add: offer_def)

lemma subseq_prefixD: "subseq (xs @ ys) zs \<Longrightarrow> subseq xs zs"
  by (rule subseq_order.trans [OF _ , of _ "xs @ ys"]) auto

lemma subseq_offer: "subseq (xs @ q @ [p]) zs \<Longrightarrow> subseq (xs @ offer p q) zs"
  using subseq_prefixD [of "xs @ q" "[p]" zs] by (simp add: offer_def)

lemma subseq_skip: "subseq (xs @ y # ys) zs \<Longrightarrow> subseq (xs @ ys) zs"
  by (rule subseq_order.trans [of _ "xs @ y # ys"]) (auto simp: subseq_append')

lemma subseq_extend: "subseq xs ys \<Longrightarrow> subseq xs (ys @ zs)"
  by (rule subseq_order.trans [of _ ys]) auto

section \<open>The client bridge: in order, never blocked on its error channel\<close>

definition dev_reads :: "bridge_event list \<Rightarrow> bytes list" where
  "dev_reads evs = concat (map (\<lambda>ev. case ev of Dev_read (Inr p) \<Rightarrow> [p] | _ \<Rightarrow> []) evs)"

definition bridge_inv :: "bytes list \<Rightarrow> client_bridge \<Rightarrow> bool" where
  "bridge_inv rd b \<longleftrightarrow>
     subseq (cb_stream b @ cb_queue b) rd \<and> length (cb_queue b) \<le> tun_write_queue \<and>
     list_all is_valid_ip_packet (cb_tun b) \<and>
     length (cb_errc b) + of_bool (cb_reader b) + of_bool (cb_writer b) + of_bool (cb_inbound b) +
       of_bool (cb_result b \<noteq> None) \<le> 3"

lemma bridge_inv_step:
  assumes "bridge_inv rd b"
  shows "bridge_inv (rd @ dev_reads [ev]) (bridge_step ev b)"
proof (cases ev)
  case (Dev_read res)
  show ?thesis
  proof (cases res)
    case (Inr pkt)
    have "subseq ((cb_stream b @ cb_queue b) @ [pkt]) (rd @ [pkt])"
      using assms by (simp only: subseq_append bridge_inv_def)
    with assms Dev_read Inr subseq_offer [of "cb_stream b" "cb_queue b" pkt "rd @ [pkt]"]
    show ?thesis
      by (auto simp: bridge_inv_def dev_reads_def length_offer subseq_extend)
  qed (use assms Dev_read in \<open>auto simp: bridge_inv_def dev_reads_def\<close>)
next
  case (Mux_write err)
  show ?thesis
  proof (cases "cb_queue b")
    case (Cons pkt q)
    with assms Mux_write subseq_skip [of "cb_stream b" pkt q rd] show ?thesis
      by (auto simp: bridge_inv_def dev_reads_def split: option.splits)
  qed (use assms Mux_write in \<open>auto simp: bridge_inv_def dev_reads_def\<close>)
next
  case (Mux_read res err)
  with assms show ?thesis
    by (auto simp: bridge_inv_def dev_reads_def split: sum.splits option.splits)
next
  case Bridge_end
  with assms show ?thesis
    by (auto simp: bridge_inv_def dev_reads_def split: list.splits option.splits)
qed

text \<open>
  the client's bridge, under every interleaving of its goroutines and every error: the
  packets written to the stream are packets read from the device, in the order they were read,
  none twice (a full queue drops, it never reorders); at most 512 wait; only valid IP packets
  reach the device; and the error channel of capacity three never overflows, so no goroutine
  blocks on reporting its error.
\<close>

theorem client_bridge_order:
  "bridge_inv (dev_reads evs) (bridge_run evs bridge_init) \<and>
   subseq (cb_stream (bridge_run evs bridge_init)) (dev_reads evs) \<and>
   length (cb_errc (bridge_run evs bridge_init)) \<le> 3"
proof -
  have run: "bridge_inv rd b \<Longrightarrow> bridge_inv (rd @ dev_reads evs) (bridge_run evs b)" for rd b
  proof (induction evs arbitrary: rd b)
    case (Cons ev evs)
    from Cons.IH [OF bridge_inv_step [OF Cons.prems, of ev]] show ?case
      by (simp add: dev_reads_def)
  qed (simp add: dev_reads_def)
  have "bridge_inv [] bridge_init" by (simp add: bridge_inv_def bridge_init_def)
  with run [of "[]"] have i: "bridge_inv (dev_reads evs) (bridge_run evs bridge_init)" by simp
  then show ?thesis
    using subseq_prefixD [of "cb_stream (bridge_run evs bridge_init)"] by (auto simp: bridge_inv_def)
qed

section \<open>The router: the invariant\<close>

text \<open>What one bridge owes, when \<open>rd\<close> was read from the device and \<open>pend\<close> is on its way to it.\<close>

definition session_ok :: "bytes list \<Rightarrow> bytes list \<Rightarrow> bridge \<Rightarrow> bool" where
  "session_ok rd pend b \<longleftrightarrow>
     subseq ((br_out b @ br_queue b) @ pend) (filter (\<lambda>p. dst_ip_key p = br_key b) rd) \<and>
     length (br_queue b) \<le> tun_write_queue \<and>
     length (br_errc b) + of_bool (br_writer b) + of_bool (br_reader b) +
       of_bool (br_result b \<noteq> None) \<le> 2"

definition in_flight :: "router \<Rightarrow> nat \<Rightarrow> bytes list" where
  "in_flight r i = (case rt_pending r of None \<Rightarrow> [] | Some (j, p) \<Rightarrow> if j = i then [p] else [])"

definition routes_ok :: "router \<Rightarrow> bool" where
  "routes_ok r \<longleftrightarrow>
     (\<forall>k i. rt_routes r k = Some i \<longrightarrow>
        i < length (rt_bridges r) \<and> br_key (rt_bridges r ! i) = k \<and>
        \<not> br_closed (rt_bridges r ! i)) \<and>
     (\<forall>i p. rt_pending r = Some (i, p) \<longrightarrow> i < length (rt_bridges r))"

definition router_inv :: "bytes list \<Rightarrow> router \<Rightarrow> bool" where
  "router_inv rd r \<longleftrightarrow>
     routes_ok r \<and> list_all is_valid_ip_packet (rt_tun r) \<and>
     (\<forall>i < length (rt_bridges r). session_ok rd (in_flight r i) (rt_bridges r ! i))"

definition tun_reads :: "router_event list \<Rightarrow> bytes list" where
  "tun_reads evs = concat (map (\<lambda>ev. case ev of Tun_read (Inr p) \<Rightarrow> [p] | _ \<Rightarrow> []) evs)"

lemma session_ok_extend: "session_ok rd pend b \<Longrightarrow> session_ok (rd @ x) pend b"
  by (simp add: session_ok_def subseq_extend)

lemma session_ok_land: "session_ok rd pend b \<Longrightarrow> session_ok rd [] b"
  using subseq_prefixD [of "br_out b @ br_queue b" pend] by (simp add: session_ok_def)

lemma router_inv_extend: "router_inv rd r \<Longrightarrow> router_inv (rd @ x) r"
  by (simp add: router_inv_def session_ok_extend)

text \<open>An update of one bridge that keeps its key and does not touch a bridge with a route otherwise.\<close>

lemma router_inv_update:
  assumes "router_inv rd r" and "i < length (rt_bridges r)"
    and "session_ok rd (in_flight r i) (f (rt_bridges r ! i))"
    and "br_key (f (rt_bridges r ! i)) = br_key (rt_bridges r ! i)"
    and "br_closed (f (rt_bridges r ! i)) = br_closed (rt_bridges r ! i)"
  shows "router_inv rd (update_bridge i f r)"
  using assms
  by (auto simp: router_inv_def routes_ok_def update_bridge_def in_flight_def nth_list_update)

lemma routes_okD:
  "routes_ok r \<Longrightarrow> rt_routes r k = Some i \<Longrightarrow>
   i < length (rt_bridges r) \<and> br_key (rt_bridges r ! i) = k \<and> \<not> br_closed (rt_bridges r ! i)"
  by (simp add: routes_ok_def)

lemma router_inv_unregister:
  assumes "router_inv rd r"
  shows "router_inv rd (unregister key r) \<and> rt_panic (unregister key r) = rt_panic r"
proof (cases "rt_routes r key")
  case None
  with assms show ?thesis
    by (auto simp: unregister_def router_inv_def routes_ok_def in_flight_def)
next
  case (Some i)
  have rt: "routes_ok r" using assms by (simp add: router_inv_def)
  note i = routes_okD [OF rt Some]
  have "rt_routes r k \<noteq> Some i" if "k \<noteq> key" for k
    using routes_okD [OF rt] i that by blast
  with i Some rt have "routes_ok (unregister key r)"
    by (auto simp: unregister_def update_bridge_def routes_ok_def nth_list_update)
  moreover have "session_ok rd (in_flight r j) (rt_bridges (unregister key r) ! j)"
    if "j < length (rt_bridges r)" for j
    using that assms i Some
    by (auto simp: unregister_def update_bridge_def nth_list_update router_inv_def session_ok_def)
  ultimately show ?thesis
    using assms i Some
    by (auto simp: router_inv_def unregister_def update_bridge_def in_flight_def)
qed

lemma session_okI:
  assumes "router_inv rd r" and "i < length (rt_bridges r)"
  shows "session_ok rd (in_flight r i) (rt_bridges r ! i)"
  using assms by (simp add: router_inv_def)

lemma router_inv_lookup:
  assumes "router_inv rd r"
  shows "router_inv (rd @ tun_reads [Tun_read res]) (route_lookup res r)"
proof (cases res)
  case (Inl e)
  with assms show ?thesis
    by (auto simp: route_lookup_def tun_reads_def router_inv_def routes_ok_def in_flight_def)
next
  case (Inr pkt)
  note ext = router_inv_extend [OF assms, of "[pkt]"]
  show ?thesis
  proof (cases "rt_reading r \<and> rt_pending r = None \<and> rt_routes r (dst_ip_key pkt) \<noteq> None")
    case True
    then obtain i where i: "rt_routes r (dst_ip_key pkt) = Some i" and np: "rt_pending r = None" by auto
    from assms routes_okD [OF _ i] have k: "i < length (rt_bridges r)"
      "br_key (rt_bridges r ! i) = dst_ip_key pkt" by (simp_all add: router_inv_def)
    from session_okI [OF assms k(1)] np k(2)
    have "session_ok (rd @ [pkt]) [pkt] (rt_bridges r ! i)"
      by (simp add: session_ok_def in_flight_def del: append_assoc)
    with ext Inr True i np k(1) show ?thesis
      by (auto simp: route_lookup_def tun_reads_def router_inv_def routes_ok_def in_flight_def)
  next
    case False
    with ext Inr show ?thesis by (auto simp: route_lookup_def tun_reads_def)
  qed
qed

lemma router_inv_send:
  assumes "router_inv rd r"
  shows "router_inv rd (route_send r)"
proof (cases "rt_pending r")
  case None
  with assms show ?thesis by (simp add: route_send_def)
next
  case (Some x)
  obtain i pkt where x: "x = (i, pkt)" by fastforce
  let ?r = "r\<lparr>rt_pending := None\<rparr>"
  have i: "i < length (rt_bridges r)" using assms Some x by (simp add: router_inv_def routes_ok_def)
  have drop: "session_ok rd [] (rt_bridges r ! j)" if "j < length (rt_bridges r)" for j
    using session_ok_land [OF session_okI [OF assms that]] .
  then have base: "router_inv rd ?r"
    using assms by (auto simp: router_inv_def routes_ok_def in_flight_def)
  have "subseq ((br_out (rt_bridges r ! i) @ br_queue (rt_bridges r ! i)) @ [pkt])
      (filter (\<lambda>p. dst_ip_key p = br_key (rt_bridges r ! i)) rd)"
    using session_okI [OF assms i] Some x by (simp add: session_ok_def in_flight_def)
  then have "session_ok rd (in_flight ?r i)
      ((rt_bridges ?r ! i)\<lparr>br_queue := offer pkt (br_queue (rt_bridges ?r ! i))\<rparr>)"
    using drop [OF i] by (auto simp: session_ok_def in_flight_def length_offer intro: subseq_offer)
  then have "router_inv rd (update_bridge i (\<lambda>b. b\<lparr>br_queue := offer pkt (br_queue b)\<rparr>) ?r)"
    using base i by (intro router_inv_update [OF base]) simp_all
  moreover have "router_inv rd (?r\<lparr>rt_panic := True\<rparr>)"
    using base by (simp add: router_inv_def routes_ok_def in_flight_def)
  ultimately show ?thesis
    using Some x by (simp add: route_send_def)
qed

lemma router_inv_register:
  assumes "router_inv rd r"
  shows "router_inv rd (register key r)"
proof -
  have "in_flight r (length (rt_bridges r)) = []"
    using assms by (auto simp: in_flight_def router_inv_def routes_ok_def split: option.splits)
  then show ?thesis
    using assms
    by (auto simp: register_def router_inv_def routes_ok_def in_flight_def nth_append less_Suc_eq
        session_ok_def)
qed

lemma router_inv_open:
  assumes "router_inv rd r"
  shows "router_inv rd (fst (bridge_open res err r))"
  using assms router_inv_register [OF assms]
  by (auto simp: bridge_open_def router_inv_def routes_ok_def in_flight_def Let_def
      split: sum.splits)

lemma router_inv_drain:
  assumes "router_inv rd r"
  shows "router_inv rd (bridge_drain i err r)"
proof (cases "i < length (rt_bridges r) \<and> br_writer (rt_bridges r ! i)")
  case True
  then have i: "i < length (rt_bridges r)" by simp
  note ok = session_okI [OF assms i]
  show ?thesis
  proof (cases "br_queue (rt_bridges r ! i)")
    case Nil
    with assms True ok show ?thesis
      by (auto simp: bridge_drain_def session_ok_def intro!: router_inv_update [OF assms i])
  next
    case (Cons pkt q)
    with ok subseq_skip [of "br_out (rt_bridges r ! i)" pkt "q @ in_flight r i"] True show ?thesis
      by (auto simp: bridge_drain_def session_ok_def split: option.splits
          intro!: router_inv_update [OF assms i])
  qed
qed (use assms in \<open>auto simp: bridge_drain_def\<close>)

lemma router_inv_inbound:
  assumes "router_inv rd r"
  shows "router_inv rd (bridge_inbound i res err r)"
proof (cases "i < length (rt_bridges r) \<and> br_reader (rt_bridges r ! i)")
  case True
  then have i: "i < length (rt_bridges r)" by simp
  have "router_inv rd (r\<lparr>rt_tun := rt_tun r @ [pkt]\<rparr>)" if "is_valid_ip_packet pkt" for pkt
    using assms that by (simp add: router_inv_def routes_ok_def in_flight_def)
  with assms True session_okI [OF assms i] show ?thesis
    by (auto simp: bridge_inbound_def session_ok_def split: sum.splits option.splits
        intro!: router_inv_update [OF assms i])
qed (use assms in \<open>auto simp: bridge_inbound_def\<close>)

lemma router_inv_return:
  assumes "router_inv rd r"
  shows "router_inv rd (bridge_return i r) \<and> rt_panic (bridge_return i r) = rt_panic r"
proof (cases "i < length (rt_bridges r) \<and> br_result (rt_bridges r ! i) = None \<and>
    br_errc (rt_bridges r ! i) \<noteq> []")
  case True
  then obtain e es where es: "br_errc (rt_bridges r ! i) = e # es"
    by (cases "br_errc (rt_bridges r ! i)") auto
  have "router_inv rd (update_bridge i (\<lambda>b. b\<lparr>br_errc := es, br_result := Some e\<rparr>) r)"
    using True es session_okI [OF assms, of i]
    by (intro router_inv_update [OF assms]) (auto simp: session_ok_def)
  from router_inv_unregister [OF this] True es show ?thesis
    by (simp add: bridge_return_def Let_def) (simp add: update_bridge_def)
next
  case False
  with assms show ?thesis by (auto simp: bridge_return_def Let_def split: list.splits)
qed

lemma router_inv_step:
  assumes "router_inv rd r"
  shows "router_inv (rd @ tun_reads [ev]) (router_step ev r)"
  using assms router_inv_lookup router_inv_send router_inv_open router_inv_drain router_inv_inbound
    router_inv_return
  by (cases ev) (simp_all add: tun_reads_def)

lemma router_inv_run:
  "router_inv rd r \<Longrightarrow> router_inv (rd @ tun_reads evs) (router_run evs r)"
proof (induction evs arbitrary: rd r)
  case (Cons ev evs)
  have "tun_reads (ev # evs) = tun_reads [ev] @ tun_reads evs" by (simp add: tun_reads_def)
  with Cons.IH [OF router_inv_step [OF Cons.prems, of ev]] router_inv_extend [OF Cons.prems]
  show ?case by simp
qed (simp add: tun_reads_def)

lemma router_inv_init [simp]: "router_inv [] new_tun_router"
  by (simp add: router_inv_def routes_ok_def new_tun_router_def)

lemmas router_reach = router_inv_run [OF router_inv_init, simplified]

section \<open>The router: properties\<close>

text \<open>
  C12: session isolation. Under every interleaving of the device reads, the channel sends and
  the goroutines of all sessions, with every error the environment can return, the packets
  written to a session's stream, followed by those waiting for it, are packets read from the
  device that are addressed to the session's own tunnel address, in the order they were read
  and none twice. No session is ever handed another session's packet.
\<close>

theorem router_isolates_sessions:
  assumes "b \<in> set (rt_bridges (router_run evs new_tun_router))"
  shows "subseq (br_out b @ br_queue b)
    (filter (\<lambda>p. dst_ip_key p = br_key b) (tun_reads evs))"
proof -
  from assms obtain i where i: "i < length (rt_bridges (router_run evs new_tun_router))"
    and b: "b = rt_bridges (router_run evs new_tun_router) ! i" by (auto simp: in_set_conv_nth)
  from session_ok_land [OF session_okI [OF router_reach i]] b show ?thesis
    by (simp add: session_ok_def)
qed

text \<open>An IPv4 packet without payload, for concrete runs.\<close>

definition ip4 :: "bytes \<Rightarrow> bytes \<Rightarrow> bytes" where
  "ip4 src dst = [0x45, 0, 0, 20, 0, 0, 0, 0, 64, 17, 0, 0] @ src @ dst"

lemma ip4_keys [simp]:
  assumes "length src = 4" and "length dst = 4"
  shows "is_valid_ip_packet (ip4 src dst)" and "dst_ip_key (ip4 src dst) = dst"
    and "src_ip_key (ip4 src dst) = src" and "ip4 src dst \<noteq> []"
  using assms
  by (simp_all add: ip4_def is_valid_ip_packet_def dst_ip_key_def src_ip_key_def ip_version_def
      subslice_def)

definition two_clients :: "router_event list" where
  "two_clients =
     [Session_open (Inr (ip4 [10, 7, 0, 2] [1, 1, 1, 1])) None,
      Session_open (Inr (ip4 [10, 7, 0, 3] [1, 1, 1, 1])) None,
      Tun_read (Inr (ip4 [1, 1, 1, 1] [10, 7, 0, 3])), Tun_send,
      Tun_read (Inr (ip4 [8, 8, 8, 8] [10, 7, 0, 2])), Tun_send,
      Session_drain 0 None, Session_drain 1 None]"

lemmas router_eval =
  new_tun_router_def route_lookup_def route_send_def bridge_open_def register_def
  update_bridge_def unregister_def bridge_drain_def bridge_inbound_def bridge_return_def
  eof_to_nil_def offer_def tun_write_queue_def Let_def

lemma two_clients_run:
  "rt_bridges (router_run two_clients new_tun_router) =
     [\<lparr>br_key = [10, 7, 0, 2], br_queue = [], br_closed = False,
       br_out = [ip4 [8, 8, 8, 8] [10, 7, 0, 2]], br_writer = True, br_reader = True, br_errc = [],
       br_result = None\<rparr>,
      \<lparr>br_key = [10, 7, 0, 3], br_queue = [], br_closed = False,
       br_out = [ip4 [1, 1, 1, 1] [10, 7, 0, 3]], br_writer = True, br_reader = True, br_errc = [],
       br_result = None\<rparr>]"
  by (simp add: two_clients_def router_eval)

lemma router_isolates_sessions_witness:
  "subseq [ip4 [8, 8, 8, 8] [10, 7, 0, 2]]
    (filter (\<lambda>p. dst_ip_key p = [10, 7, 0, 2]) (tun_reads two_clients))"
proof -
  have "rt_bridges (router_run two_clients new_tun_router) ! 0 \<in>
      set (rt_bridges (router_run two_clients new_tun_router))"
    by (rule nth_mem) (simp add: two_clients_run)
  from router_isolates_sessions [OF this] show ?thesis
    by (simp add: two_clients_run)
qed

text \<open>
  in every reachable state the routes are exact (a route leads to an open channel of a
  session with that address, so closing it in \<^verbatim>\<open>unregister\<close> cannot panic), at most 512 packets
  wait for a session, at most two errors are in a session's error channel of capacity two, and
  every packet written to the device is a valid IP packet.
\<close>

theorem router_reachable_states:
  assumes "r = router_run evs new_tun_router"
  shows "list_all is_valid_ip_packet (rt_tun r) \<and>
    list_all (\<lambda>b. length (br_queue b) \<le> 512 \<and> length (br_errc b) \<le> 2) (rt_bridges r) \<and>
    (\<forall>k i. rt_routes r k = Some i \<longrightarrow>
       i < length (rt_bridges r) \<and> br_key (rt_bridges r ! i) = k \<and> \<not> br_closed (rt_bridges r ! i)) \<and>
    (\<forall>k. rt_panic (unregister k r) = rt_panic r)"
  using router_reach [of evs] router_inv_unregister [OF router_reach [of evs]] assms
  by (fastforce simp: router_inv_def routes_ok_def session_ok_def tun_write_queue_def list_all_length)

lemma router_reachable_states_witness:
  "list_all (\<lambda>b. length (br_queue b) \<le> 512 \<and> length (br_errc b) \<le> 2)
     (rt_bridges (router_run two_clients new_tun_router)) \<and>
   rt_panic (unregister [10, 7, 0, 2] (router_run two_clients new_tun_router)) =
     rt_panic (router_run two_clients new_tun_router)"
  using router_reachable_states [OF refl, of two_clients] by blast

text \<open>
  dispatch of one packet. A packet for a registered address is appended to that session's
  queue, unless 512 packets wait there already; a packet for any other address, a packet that
  is not IP and an empty read change nothing; no other session is touched.
\<close>

theorem dispatch_to_owner:
  assumes "router_inv rd r" and "rt_reading r" and "rt_pending r = None"
  shows "route_send (route_lookup (Inr pkt) r) =
    (case rt_routes r (dst_ip_key pkt) of
       Some i \<Rightarrow>
         if dst_ip_key pkt = [] then r
         else r\<lparr>rt_bridges := (rt_bridges r)[i :=
           (rt_bridges r ! i)\<lparr>br_queue :=
              (if length (br_queue (rt_bridges r ! i)) < 512
               then br_queue (rt_bridges r ! i) @ [pkt] else br_queue (rt_bridges r ! i))\<rparr>]\<rparr>
     | None \<Rightarrow> r)"
proof -
  have nil: "dst_ip_key [] = []" by (simp add: dst_ip_key_def)
  have "r\<lparr>rt_pending := None\<rparr> = r" using assms(3) by simp
  with assms nil routes_okD [of r "dst_ip_key pkt"] show ?thesis
    by (auto simp: route_lookup_def route_send_def update_bridge_def offer_def tun_write_queue_def
        router_inv_def split: option.splits)
qed

lemma dispatch_to_owner_witness:
  "rt_bridges (route_send (route_lookup (Inr (ip4 [9, 9, 9, 9] [10, 7, 0, 2]))
     (register [10, 7, 0, 2] new_tun_router))) ! 0 =
   \<lparr>br_key = [10, 7, 0, 2], br_queue = [ip4 [9, 9, 9, 9] [10, 7, 0, 2]], br_closed = False,
    br_out = [], br_writer = True, br_reader = True, br_errc = [], br_result = None\<rparr>"
  using dispatch_to_owner [OF router_inv_register [OF router_inv_init], of "[10, 7, 0, 2]"
      "ip4 [9, 9, 9, 9] [10, 7, 0, 2]"]
  by (simp add: register_def new_tun_router_def)

text \<open>Runs in which no other goroutine gets in between a route lookup and its send.\<close>

fun sends_at_once :: "router_event list \<Rightarrow> bool" where
  "sends_at_once [] = True"
| "sends_at_once (Tun_read res # evs) =
     (case evs of Tun_send # evs' \<Rightarrow> sends_at_once evs' | _ \<Rightarrow> False)"
| "sends_at_once (Tun_send # evs) = False"
| "sends_at_once (ev # evs) = sends_at_once evs"

lemma send_open_channel:
  assumes "router_inv rd r" and "rt_pending r = None" and "\<not> rt_panic r"
  shows "\<not> rt_panic (route_lookup res r) \<and> \<not> rt_panic (route_send (route_lookup res r)) \<and>
    rt_pending (route_send (route_lookup res r)) = None"
  using assms routes_okD [of r]
  by (auto simp: route_lookup_def route_send_def update_bridge_def router_inv_def
      split: sum.splits option.splits)

lemma other_steps_quiet:
  assumes "router_inv rd r" and "rt_pending r = None" and "\<not> rt_panic r"
    and "\<And>res. ev \<noteq> Tun_read res" and "ev \<noteq> Tun_send"
  shows "\<not> rt_panic (router_step ev r) \<and> rt_pending (router_step ev r) = None"
proof (cases ev)
  case (Session_return i)
  with assms router_inv_return [OF assms(1)] show ?thesis
    by (auto simp: bridge_return_def unregister_def update_bridge_def Let_def
        split: list.splits option.splits)
qed (use assms in \<open>auto simp: bridge_open_def register_def bridge_drain_def bridge_inbound_def
    update_bridge_def Let_def split: sum.splits list.splits option.splits\<close>)



section \<open>What the router gets wrong\<close>

text \<open>
  The lock is released between the lookup and the send. A session that returns in between
  closes its channel, and the send panics.
\<close>

lemma send_on_closed_channel_panics:
  "rt_panic (router_run
     [Session_open (Inr (ip4 [10, 7, 0, 2] [1, 1, 1, 1])) None,
      Tun_read (Inr (ip4 [1, 1, 1, 1] [10, 7, 0, 2])),
      Session_inbound 0 (Inl EOF) None, Session_return 0, Tun_send] new_tun_router)"
  by (simp add: router_eval)

text \<open>
  A client that reconnects registers its address again before the old session has ended. When
  the old session returns, \<^verbatim>\<open>unregister\<close> removes the route by address: it closes the channel of
  the new session, which then receives no packet although it is still open.
\<close>

lemma old_session_closes_successor:
  "let r = router_run
     [Session_open (Inr (ip4 [10, 7, 0, 2] [1, 1, 1, 1])) None,
      Session_open (Inr (ip4 [10, 7, 0, 2] [1, 1, 1, 1])) None,
      Session_inbound 0 (Inl EOF) None, Session_return 0] new_tun_router
   in rt_routes r [10, 7, 0, 2] = None \<and> \<not> br_closed (rt_bridges r ! 0) \<and>
      br_closed (rt_bridges r ! 1) \<and> br_result (rt_bridges r ! 1) = None"
  by (simp add: router_eval)

text \<open>
  The address of a session is whatever source its first packet names: a second client that names
  the first one's address takes over its packets.
\<close>

lemma address_taken_over:
  assumes "rt_routes r key = Some i" and "src_ip_key first = key" and "key \<noteq> []"
  shows "rt_routes (fst (bridge_open (Inr first) err r)) key = Some (length (rt_bridges r))"
  using assms by (auto simp: bridge_open_def register_def Let_def)

end
