(* ===== verification/Client_Session.thy ===== *)
theory Client_Session
  imports Tun_Router
begin

text \<open>
  The session manager of \<^verbatim>\<open>cmd/ghost-client/main.go\<close>: setting up a session (\<^verbatim>\<open>establish\<close>), closing
  one, the pipeline that writes packets of the TUN device to the active session, the rotation
  loop, the watchdog and the shutdown. Session objects are numbered in the order they were
  set up; \<^verbatim>\<open>activeSession\<close> is the number in the atomic pointer. Each atomic access of a goroutine
  ends a step, and the steps of all goroutines interleave; what the network answers is an argument.
\<close>

section \<open>Setting a session up\<close>

text \<open>
  The answers to the calls of \<^verbatim>\<open>establish\<close> in their order, and what it holds open and has closed
  when it returns.
\<close>

record establish_answers =
  ans_dial :: "go_error option"
  ans_initiator :: "go_error option"
  ans_msg1 :: "go_error option"
  ans_handshake :: "go_error option"
  ans_msg2 :: "go_error option"
  ans_open :: "go_error option"

datatype resource = Tls_conn | Http_tunnel | Coalescer | Mux | Shaper

definition establish :: "establish_answers \<Rightarrow> go_error option \<times> resource list \<times> resource list" where
  "establish a =
     (case ans_dial a of
        Some e \<Rightarrow> (Some (Wrapf ''tls dial: %w'' e), [], [])
      | None \<Rightarrow>
          (case ans_initiator a of
             Some e \<Rightarrow> (Some (Wrapf ''noise initiator: %w'' e), [Tls_conn], [Tls_conn])
           | None \<Rightarrow>
               (case ans_msg1 a of
                  Some e \<Rightarrow> (Some (Wrapf ''noise msg1: %w'' e), [Tls_conn], [Tls_conn])
                | None \<Rightarrow>
                    (case ans_handshake a of
                       Some e \<Rightarrow> (Some (Wrapf ''tunnel handshake: %w'' e), [Tls_conn], [Tls_conn])
                     | None \<Rightarrow>
                         (case ans_msg2 a of
                            Some e \<Rightarrow>
                              (Some (Wrapf ''noise msg2: %w'' e), [Tls_conn, Http_tunnel],
                               [Http_tunnel, Tls_conn])
                          | None \<Rightarrow>
                              (case ans_open a of
                                 Some e \<Rightarrow>
                                   (Some (Wrapf ''open stream: %w'' e),
                                    [Tls_conn, Http_tunnel, Coalescer, Mux],
                                    [Coalescer, Http_tunnel, Tls_conn])
                               | None \<Rightarrow>
                                   (None, [Tls_conn, Http_tunnel, Coalescer, Mux, Shaper], [])))))))"

section \<open>Sessions and the state of the client\<close>

record tunnel_session =
  ts_id :: "64 word"
  ts_closed :: bool
  ts_shaper_stopped :: bool
  ts_stream_closed :: bool
  ts_mux_done :: bool
  ts_coalesced_closed :: bool
  ts_tunnel_closed :: bool
  ts_conn_closed :: bool

definition new_tunnel_session :: "64 word \<Rightarrow> tunnel_session" where
  "new_tunnel_session sid =
     \<lparr>ts_id = sid, ts_closed = False, ts_shaper_stopped = False, ts_stream_closed = False,
      ts_mux_done = False, ts_coalesced_closed = False, ts_tunnel_closed = False,
      ts_conn_closed = False\<rparr>"

definition session_close :: "tunnel_session \<Rightarrow> tunnel_session" where
  "session_close s =
     (if ts_closed s then s
      else s\<lparr>ts_closed := True, ts_shaper_stopped := True, ts_stream_closed := True,
             ts_mux_done := True, ts_coalesced_closed := True, ts_tunnel_closed := True,
             ts_conn_closed := True\<rparr>)"

text \<open>
  Where the writer goroutine is: waiting for a packet, before an attempt to write one (with the
  number of attempts made), or gone; and where the rotation loop and the watchdog are: waiting,
  inside \<^verbatim>\<open>establish\<close> with the id taken, holding a new session before the swap, or gone.
\<close>

datatype writer_state = Writer_idle | Trying bytes nat | Writer_gone

datatype renewer = Waiting | Establishing "64 word" | Holding nat | Renewer_gone

record client =
  cl_counter :: "64 word"
  cl_sessions :: "tunnel_session list"
  cl_active :: "nat option"
  cl_cancelled :: bool
  cl_tun_cancel :: bool
  cl_queue :: "bytes list"
  cl_queue_closed :: bool
  cl_reader :: bool
  cl_writer :: writer_state
  cl_rotation :: renewer
  cl_watchdog :: renewer
  cl_starts :: "64 word \<Rightarrow> int option"
  cl_graces :: "nat list"
  cl_stream_readers :: "nat list"
  cl_sent :: "(nat \<times> bytes) list"
  cl_tun :: "bytes list"
  cl_panic :: bool

text \<open>The client once the first \<^verbatim>\<open>establish\<close> has succeeded and the goroutines are started.\<close>

definition client_start :: "bool \<Rightarrow> client" where
  "client_start rotating =
     \<lparr>cl_counter = 1, cl_sessions = [new_tunnel_session 1], cl_active = Some 0,
      cl_cancelled = False, cl_tun_cancel = False, cl_queue = [], cl_queue_closed = False,
      cl_reader = True, cl_writer = Writer_idle,
      cl_rotation = (if rotating then Waiting else Renewer_gone), cl_watchdog = Waiting,
      cl_starts = (\<lambda>_. None), cl_graces = [], cl_stream_readers = [0], cl_sent = [], cl_tun = [],
      cl_panic = False\<rparr>"

section \<open>The packet pipeline\<close>

text \<open>One iteration of the TUN reader. The queue has the capacity of the bridge's: 512.\<close>

definition client_tun_read :: "go_error + bytes \<Rightarrow> client \<Rightarrow> client" where
  "client_tun_read res c =
     (if \<not> cl_reader c then c
      else case res of
        Inl e \<Rightarrow> c\<lparr>cl_reader := False, cl_queue_closed := True\<rparr>
      | Inr pkt \<Rightarrow>
          if pkt = [] then c
          else if cl_tun_cancel c then c\<lparr>cl_reader := False, cl_queue_closed := True\<rparr>
          else c\<lparr>cl_queue := offer pkt (cl_queue c)\<rparr>)"

definition writer_take :: "client \<Rightarrow> client" where
  "writer_take c =
     (if cl_writer c \<noteq> Writer_idle then c
      else case cl_queue c of
        pkt # q \<Rightarrow> c\<lparr>cl_queue := q, cl_writer := Trying pkt 0\<rparr>
      | [] \<Rightarrow> if cl_queue_closed c then c\<lparr>cl_writer := Writer_gone\<rparr> else c)"

text \<open>
  One turn of the retry loop: \<open>res\<close> is the answer of the active session's \<^verbatim>\<open>stream.Write\<close>. After a
  failure the loop goes on in either case, whether the session was swapped meanwhile or not.
\<close>

definition writer_try :: "go_error option \<Rightarrow> client \<Rightarrow> client" where
  "writer_try res c =
     (case cl_writer c of
        Trying pkt n \<Rightarrow>
          if 3 \<le> n then c\<lparr>cl_writer := Writer_idle\<rparr>
          else
            (case cl_active c of
               None \<Rightarrow> c\<lparr>cl_writer := Trying pkt (Suc n)\<rparr>
             | Some a \<Rightarrow>
                 (case res of
                    Some e \<Rightarrow> c\<lparr>cl_writer := Trying pkt (Suc n)\<rparr>
                  | None \<Rightarrow> c\<lparr>cl_writer := Writer_idle, cl_sent := cl_sent c @ [(a, pkt)]\<rparr>))
      | _ \<Rightarrow> c)"

text \<open>One iteration of a session's stream reader; a failed device write is only logged.\<close>

definition stream_reader_step ::
  "nat \<Rightarrow> go_error + bytes \<Rightarrow> go_error option \<Rightarrow> client \<Rightarrow> client" where
  "stream_reader_step a res werr c =
     (if a \<notin> set (cl_stream_readers c) then c
      else case res of
        Inl e \<Rightarrow> c\<lparr>cl_stream_readers := removeAll a (cl_stream_readers c)\<rparr>
      | Inr pkt \<Rightarrow>
          if pkt = [] then c
          else (case werr of None \<Rightarrow> c\<lparr>cl_tun := cl_tun c @ [pkt]\<rparr> | Some e \<Rightarrow> c))"

section \<open>Rotation, watchdog and shutdown\<close>

text \<open>\<^verbatim>\<open>sessionCounter.Add(1)\<close>, the first thing \<^verbatim>\<open>establish\<close> does, and its success.\<close>

definition next_id :: "client \<Rightarrow> client \<times> 64 word" where
  "next_id c = (c\<lparr>cl_counter := cl_counter c + 1\<rparr>, cl_counter c + 1)"

definition add_session :: "64 word \<Rightarrow> client \<Rightarrow> client \<times> nat" where
  "add_session sid c =
     (c\<lparr>cl_sessions := cl_sessions c @ [new_tunnel_session sid]\<rparr>, length (cl_sessions c))"

definition close_number :: "nat \<Rightarrow> client \<Rightarrow> client" where
  "close_number a c =
     c\<lparr>cl_sessions := (cl_sessions c)[a := session_close (cl_sessions c ! a)]\<rparr>"

text \<open>
  The waits of both loops are a \<^verbatim>\<open>select\<close> over the context and a timer. When both are ready either
  case is taken; \<open>timer\<close> says that it was the timer's.
\<close>

definition rotate_due :: "bool \<Rightarrow> client \<Rightarrow> client" where
  "rotate_due timer c =
     (if cl_rotation c \<noteq> Waiting then c
      else if cl_cancelled c \<and> \<not> timer then c\<lparr>cl_rotation := Renewer_gone\<rparr>
      else (case next_id c of (c1, sid) \<Rightarrow> c1\<lparr>cl_rotation := Establishing sid\<rparr>))"

definition rotate_result :: "go_error option \<Rightarrow> client \<Rightarrow> client" where
  "rotate_result err c =
     (case cl_rotation c of
        Establishing sid \<Rightarrow>
          (case err of
             Some e \<Rightarrow> c\<lparr>cl_rotation := Waiting\<rparr>
           | None \<Rightarrow> (case add_session sid c of (c1, a) \<Rightarrow> c1\<lparr>cl_rotation := Holding a\<rparr>))
      | _ \<Rightarrow> c)"

text \<open>\<^verbatim>\<open>activeSession.Swap\<close>, the reader of the new session, and the goroutine that closes the old one
  after its grace period. The log line reads \<^verbatim>\<open>old.id\<close>.\<close>

definition rotate_swap :: "client \<Rightarrow> client" where
  "rotate_swap c =
     (case cl_rotation c of
        Holding a \<Rightarrow>
          let c1 = c\<lparr>cl_active := Some a, cl_rotation := Waiting,
                     cl_stream_readers := cl_stream_readers c @ [a]\<rparr>
          in (case cl_active c of
                None \<Rightarrow> c1\<lparr>cl_panic := True\<rparr>
              | Some old \<Rightarrow> c1\<lparr>cl_graces := cl_graces c1 @ [old]\<rparr>)
      | _ \<Rightarrow> c)"

definition grace_over :: "nat \<Rightarrow> client \<Rightarrow> client" where
  "grace_over a c =
     (if a \<in> set (cl_graces c) then close_number a (c\<lparr>cl_graces := remove1 a (cl_graces c)\<rparr>) else c)"

definition five_seconds :: int where
  "five_seconds = 5000000000"

text \<open>One tick of the watchdog up to the start of a reconnection.\<close>

definition watchdog_tick :: "bool \<Rightarrow> int \<Rightarrow> client \<Rightarrow> client" where
  "watchdog_tick timer now c =
     (if cl_watchdog c \<noteq> Waiting then c
      else if cl_cancelled c \<and> \<not> timer then c\<lparr>cl_watchdog := Renewer_gone\<rparr>
      else
        (case cl_active c of
           None \<Rightarrow> c
         | Some a \<Rightarrow>
             let s = cl_sessions c ! a
             in (case cl_starts c (ts_id s) of
                   None \<Rightarrow> c\<lparr>cl_starts := (cl_starts c)(ts_id s \<mapsto> now)\<rparr>
                 | Some t \<Rightarrow>
                     if now - t < five_seconds then c
                     else if ts_mux_done s
                     then (case next_id c of (c1, sid) \<Rightarrow> c1\<lparr>cl_watchdog := Establishing sid\<rparr>)
                     else c)))"

definition watchdog_result :: "go_error option \<Rightarrow> client \<Rightarrow> client" where
  "watchdog_result err c =
     (case cl_watchdog c of
        Establishing sid \<Rightarrow>
          (case err of
             Some e \<Rightarrow> c\<lparr>cl_watchdog := Waiting\<rparr>
           | None \<Rightarrow> (case add_session sid c of (c1, a) \<Rightarrow> c1\<lparr>cl_watchdog := Holding a\<rparr>))
      | _ \<Rightarrow> c)"

definition watchdog_swap :: "client \<Rightarrow> client" where
  "watchdog_swap c =
     (case cl_watchdog c of
        Holding a \<Rightarrow>
          let c1 = c\<lparr>cl_active := Some a, cl_watchdog := Waiting,
                     cl_stream_readers := cl_stream_readers c @ [a]\<rparr>
          in (case cl_active c of None \<Rightarrow> c1 | Some old \<Rightarrow> close_number old c1)
      | _ \<Rightarrow> c)"

definition cancel_context :: "client \<Rightarrow> client" where
  "cancel_context c = c\<lparr>cl_cancelled := True\<rparr>"

definition client_shutdown :: "client \<Rightarrow> client" where
  "client_shutdown c =
     (if \<not> cl_cancelled c \<or> cl_tun_cancel c then c
      else
        let c1 = c\<lparr>cl_tun_cancel := True\<rparr>
        in (case cl_active c1 of None \<Rightarrow> c1 | Some a \<Rightarrow> close_number a c1))"

text \<open>The server or the network ends session \<open>a\<close>: its multiplexer is done.\<close>

definition session_dies :: "nat \<Rightarrow> client \<Rightarrow> client" where
  "session_dies a c =
     c\<lparr>cl_sessions := (cl_sessions c)[a := (cl_sessions c ! a)\<lparr>ts_mux_done := True\<rparr>]\<rparr>"

datatype client_event =
    Client_tun_read "go_error + bytes"
  | Writer_take
  | Writer_try "go_error option"
  | Stream_reader nat "go_error + bytes" "go_error option"
  | Rotate_due bool
  | Rotate_result "go_error option"
  | Rotate_swap
  | Grace_over nat
  | Watchdog_tick bool int
  | Watchdog_result "go_error option"
  | Watchdog_swap
  | Cancel_context
  | Client_shutdown
  | Session_dies nat

fun client_step :: "client_event \<Rightarrow> client \<Rightarrow> client" where
  "client_step (Client_tun_read res) c = client_tun_read res c"
| "client_step Writer_take c = writer_take c"
| "client_step (Writer_try res) c = writer_try res c"
| "client_step (Stream_reader a res werr) c = stream_reader_step a res werr c"
| "client_step (Rotate_due timer) c = rotate_due timer c"
| "client_step (Rotate_result err) c = rotate_result err c"
| "client_step Rotate_swap c = rotate_swap c"
| "client_step (Grace_over a) c = grace_over a c"
| "client_step (Watchdog_tick timer now) c = watchdog_tick timer now c"
| "client_step (Watchdog_result err) c = watchdog_result err c"
| "client_step Watchdog_swap c = watchdog_swap c"
| "client_step Cancel_context c = cancel_context c"
| "client_step Client_shutdown c = client_shutdown c"
| "client_step (Session_dies a) c = session_dies a c"

fun client_run :: "client_event list \<Rightarrow> client \<Rightarrow> client" where
  "client_run [] c = c"
| "client_run (ev # evs) c = client_run evs (client_step ev c)"


section \<open>Every session is accounted for\<close>

definition accounted :: "client \<Rightarrow> nat \<Rightarrow> bool" where
  "accounted c a \<longleftrightarrow>
     cl_active c = Some a \<or> a \<in> set (cl_graces c) \<or> cl_rotation c = Holding a \<or>
     cl_watchdog c = Holding a \<or> ts_closed (cl_sessions c ! a)"

text \<open>A session is closed as a whole or not at all.\<close>

definition whole :: "tunnel_session \<Rightarrow> bool" where
  "whole s \<longleftrightarrow>
     (ts_closed s \<longrightarrow> ts_mux_done s) \<and>
     list_all (\<lambda>f. f = ts_closed s)
       [ts_shaper_stopped s, ts_stream_closed s, ts_coalesced_closed s, ts_tunnel_closed s,
        ts_conn_closed s]"

definition known :: "client \<Rightarrow> bool" where
  "known c \<longleftrightarrow>
     (\<exists>a. cl_active c = Some a \<and> a < length (cl_sessions c)) \<and>
     (\<forall>a \<in> set (cl_graces c). a < length (cl_sessions c)) \<and>
     (\<forall>a. cl_rotation c = Holding a \<longrightarrow> a < length (cl_sessions c)) \<and>
     (\<forall>a. cl_watchdog c = Holding a \<longrightarrow> a < length (cl_sessions c))"

definition client_inv :: "client \<Rightarrow> bool" where
  "client_inv c \<longleftrightarrow>
     \<not> cl_panic c \<and> known c \<and> (\<forall>a < length (cl_sessions c). accounted c a) \<and>
     list_all whole (cl_sessions c)"

lemma whole_new [simp]: "whole (new_tunnel_session sid)"
  by (simp add: whole_def new_tunnel_session_def)

lemma whole_close [simp]: "whole s \<Longrightarrow> whole (session_close s)"
  by (simp add: whole_def session_close_def)

lemma session_close_closed [simp]: "ts_closed (session_close s)"
  by (simp add: session_close_def)

lemma client_inv_same:
  "client_inv c \<Longrightarrow> cl_sessions d = cl_sessions c \<Longrightarrow> cl_active d = cl_active c \<Longrightarrow>
   cl_graces d = cl_graces c \<Longrightarrow> cl_rotation d = cl_rotation c \<Longrightarrow> cl_watchdog d = cl_watchdog c \<Longrightarrow>
   cl_panic d = cl_panic c \<Longrightarrow> client_inv d"
  by (simp add: client_inv_def known_def accounted_def)

lemma client_inv_rotation:
  "client_inv c \<Longrightarrow> (\<And>a. cl_rotation c \<noteq> Holding a) \<Longrightarrow> (\<And>a. r \<noteq> Holding a) \<Longrightarrow>
   client_inv (c\<lparr>cl_rotation := r\<rparr>)"
  by (simp add: client_inv_def known_def accounted_def)

lemma client_inv_watchdog:
  "client_inv c \<Longrightarrow> (\<And>a. cl_watchdog c \<noteq> Holding a) \<Longrightarrow> (\<And>a. r \<noteq> Holding a) \<Longrightarrow>
   client_inv (c\<lparr>cl_watchdog := r\<rparr>)"
  by (simp add: client_inv_def known_def accounted_def)

text \<open>A new session is accounted for by the loop that holds it.\<close>

lemma client_inv_add:
  assumes "client_inv c" and "add_session sid c = (c1, a)"
    and "cl_sessions d = cl_sessions c1" "cl_active d = cl_active c" "cl_graces d = cl_graces c"
      "cl_panic d = cl_panic c"
    and "cl_rotation d = Holding a \<and> cl_watchdog d = cl_watchdog c \<and> (\<forall>b. cl_rotation c \<noteq> Holding b) \<or>
      cl_watchdog d = Holding a \<and> cl_rotation d = cl_rotation c \<and> (\<forall>b. cl_watchdog c \<noteq> Holding b)"
  shows "client_inv d"
proof -
  have ses: "cl_sessions d = cl_sessions c @ [new_tunnel_session sid]" and a: "a = length (cl_sessions c)"
    using assms(2,3) by (auto simp: add_session_def)
  have "accounted d b" if "b < length (cl_sessions d)" for b
  proof (cases "b = a")
    case True
    then show ?thesis using assms(7) by (auto simp: accounted_def)
  next
    case False
    with that have "accounted c b" "b < length (cl_sessions c)"
      using assms(1) ses a by (auto simp: client_inv_def)
    with assms(4,5,7) ses show ?thesis by (auto simp: accounted_def nth_append)
  qed
  moreover have "known d"
    using assms(1,4,5,7) ses a by (auto simp: client_inv_def known_def less_Suc_eq)
  ultimately show ?thesis using assms(1,6) ses by (simp add: client_inv_def)
qed

lemma client_inv_hold:
  assumes "client_inv c" and "add_session sid c = (c1, a)"
  shows "cl_rotation c = Establishing i \<Longrightarrow> client_inv (c1\<lparr>cl_rotation := Holding a\<rparr>)"
    and "cl_watchdog c = Establishing i \<Longrightarrow> client_inv (c1\<lparr>cl_watchdog := Holding a\<rparr>)"
  using assms(2) by (auto intro!: client_inv_add [OF assms] simp: add_session_def)

text \<open>Closing one session, everything else being accounted for.\<close>

lemma client_inv_close:
  assumes "known c" and "\<not> cl_panic c" and "list_all whole (cl_sessions c)"
    and "\<And>b. b < length (cl_sessions c) \<Longrightarrow> b \<noteq> a \<Longrightarrow> accounted c b"
    and "a < length (cl_sessions c)"
  shows "client_inv (close_number a c)"
proof -
  have "accounted (close_number a c) b" if "b < length (cl_sessions c)" for b
    using assms(4) [OF that] that
    by (cases "b = a") (auto simp: accounted_def close_number_def)
  with assms(1,2,3,5) show ?thesis
    by (auto simp: client_inv_def known_def close_number_def list_all_iff dest!: set_update_subset_insert [THEN subsetD])
qed

lemma client_inv_rotate_swap:
  assumes "client_inv c"
  shows "client_inv (rotate_swap c)"
proof (cases "cl_rotation c")
  case (Holding a)
  from assms obtain old where old: "cl_active c = Some old" "old < length (cl_sessions c)"
    by (auto simp: client_inv_def known_def)
  have "a < length (cl_sessions c)" using assms Holding by (auto simp: client_inv_def known_def)
  with assms Holding old show ?thesis
    by (auto simp: rotate_swap_def client_inv_def known_def accounted_def Let_def)
qed (use assms in \<open>simp_all add: rotate_swap_def\<close>)

lemma client_inv_watchdog_swap:
  assumes "client_inv c"
  shows "client_inv (watchdog_swap c)"
proof (cases "cl_watchdog c")
  case (Holding a)
  from assms obtain old where old: "cl_active c = Some old" "old < length (cl_sessions c)"
    by (auto simp: client_inv_def known_def)
  let ?c1 = "c\<lparr>cl_active := Some a, cl_watchdog := Waiting,
    cl_stream_readers := cl_stream_readers c @ [a]\<rparr>"
  have "client_inv (close_number old ?c1)"
    using assms Holding old
    by (intro client_inv_close) (auto simp: client_inv_def known_def accounted_def)
  with Holding old show ?thesis by (simp add: watchdog_swap_def Let_def)
qed (use assms in \<open>simp_all add: watchdog_swap_def\<close>)

lemma client_inv_step:
  assumes "client_inv c"
  shows "client_inv (client_step ev c)"
proof (cases ev)
  case (Client_tun_read res)
  with assms show ?thesis
    by (auto simp: client_tun_read_def split: sum.splits intro: client_inv_same)
next
  case Writer_take
  with assms show ?thesis
    by (auto simp: writer_take_def split: list.splits intro: client_inv_same)
next
  case (Writer_try res)
  with assms show ?thesis
    by (auto simp: writer_try_def split: writer_state.splits option.splits intro: client_inv_same)
next
  case (Stream_reader a res werr)
  with assms show ?thesis
    by (auto simp: stream_reader_step_def split: sum.splits option.splits intro: client_inv_same)
next
  case (Rotate_due timer)
  have "client_inv (fst (next_id c))" using assms by (rule client_inv_same) (simp_all add: next_id_def)
  with assms Rotate_due show ?thesis
    by (auto simp: rotate_due_def next_id_def intro!: client_inv_rotation)
next
  case (Rotate_result err)
  with assms show ?thesis
    by (auto simp: rotate_result_def split: renewer.splits option.splits prod.splits
        intro: client_inv_rotation client_inv_hold)
next
  case Rotate_swap
  with assms client_inv_rotate_swap show ?thesis by simp
next
  case (Grace_over a)
  have "client_inv (close_number a (c\<lparr>cl_graces := remove1 a (cl_graces c)\<rparr>))" if "a \<in> set (cl_graces c)"
    using assms that
    by (intro client_inv_close)
      (auto simp: client_inv_def known_def accounted_def dest: notin_set_remove1)
  with assms Grace_over show ?thesis by (simp add: grace_over_def)
next
  case (Watchdog_tick timer now)
  have "client_inv (fst (next_id c))" using assms by (rule client_inv_same) (simp_all add: next_id_def)
  moreover have "client_inv (c\<lparr>cl_starts := f\<rparr>)" for f
    using assms by (rule client_inv_same) simp_all
  ultimately show ?thesis
    using assms Watchdog_tick
    by (auto simp: watchdog_tick_def next_id_def Let_def split: option.splits
        intro!: client_inv_watchdog)
next
  case (Watchdog_result err)
  with assms show ?thesis
    by (auto simp: watchdog_result_def split: renewer.splits option.splits prod.splits
        intro: client_inv_watchdog client_inv_hold)
next
  case Watchdog_swap
  with assms client_inv_watchdog_swap show ?thesis by simp
next
  case Cancel_context
  with assms show ?thesis by (auto simp: cancel_context_def intro: client_inv_same)
next
  case Client_shutdown
  from assms obtain a where a: "cl_active c = Some a" "a < length (cl_sessions c)"
    by (auto simp: client_inv_def known_def)
  have "client_inv (c\<lparr>cl_tun_cancel := True\<rparr>)" using assms by (rule client_inv_same) simp_all
  then have "client_inv (close_number a (c\<lparr>cl_tun_cancel := True\<rparr>))"
    using a by (intro client_inv_close) (simp_all add: client_inv_def)
  with assms a Client_shutdown show ?thesis by (simp add: client_shutdown_def Let_def)
next
  case (Session_dies a)
  let ?ss = "(cl_sessions c)[a := (cl_sessions c ! a)\<lparr>ts_mux_done := True\<rparr>]"
  have nth: "?ss ! n = (if n = a then (cl_sessions c ! a)\<lparr>ts_mux_done := True\<rparr> else cl_sessions c ! n)"
    if "n < length (cl_sessions c)" for n
    using that by (cases "a < length (cl_sessions c)") (auto simp: nth_list_update)
  have "whole (s\<lparr>ts_mux_done := True\<rparr>)" if "whole s" for s
    using that by (simp add: whole_def)
  then have "whole (?ss ! n)" if "n < length (cl_sessions c)" for n
    using assms that by (simp add: nth client_inv_def list_all_length)
  then have "list_all whole ?ss" by (simp add: list_all_length)
  with assms Session_dies show ?thesis
    by (auto simp: nth session_dies_def client_inv_def known_def accounted_def)
qed


lemma client_inv_run: "client_inv c \<Longrightarrow> client_inv (client_run evs c)"
  by (induction evs arbitrary: c) (simp_all add: client_inv_step del: client_step.simps)

lemma client_inv_start: "client_inv (client_start rotating)"
  by (simp add: client_inv_def known_def accounted_def client_start_def)



section \<open>Packets\<close>

definition client_reads :: "client_event list \<Rightarrow> bytes list" where
  "client_reads evs = concat (map (\<lambda>ev. case ev of Client_tun_read (Inr p) \<Rightarrow> [p] | _ \<Rightarrow> []) evs)"

definition in_hand :: "writer_state \<Rightarrow> bytes list" where
  "in_hand w = (case w of Trying pkt n \<Rightarrow> [pkt] | _ \<Rightarrow> [])"

definition attempts :: "writer_state \<Rightarrow> nat" where
  "attempts w = (case w of Trying pkt n \<Rightarrow> n | _ \<Rightarrow> 0)"

definition pipeline_inv :: "bytes list \<Rightarrow> client \<Rightarrow> bool" where
  "pipeline_inv rd c \<longleftrightarrow>
     subseq (map snd (cl_sent c) @ in_hand (cl_writer c) @ cl_queue c) rd \<and>
     length (cl_queue c) \<le> tun_write_queue \<and> attempts (cl_writer c) \<le> 3 \<and>
     (cl_writer c = Writer_gone \<longrightarrow> cl_queue_closed c)"

lemmas hand_simps = in_hand_def attempts_def

lemma pipeline_inv_same:
  "pipeline_inv rd c \<Longrightarrow> cl_sent d = cl_sent c \<Longrightarrow> cl_writer d = cl_writer c \<Longrightarrow>
   cl_queue d = cl_queue c \<Longrightarrow> cl_queue_closed d = cl_queue_closed c \<Longrightarrow> pipeline_inv rd d"
  by (simp add: pipeline_inv_def)

lemma pipeline_inv_read:
  assumes "pipeline_inv rd c"
  shows "pipeline_inv (rd @ client_reads [Client_tun_read res]) (client_tun_read res c)"
proof (cases res)
  case (Inr pkt)
  let ?xs = "map snd (cl_sent c) @ in_hand (cl_writer c)"
  have "subseq (?xs @ cl_queue c) rd" using assms by (simp add: pipeline_inv_def)
  then have "subseq ((?xs @ cl_queue c) @ [pkt]) (rd @ [pkt])" by (simp only: subseq_append)
  with assms Inr subseq_offer [of ?xs "cl_queue c" pkt "rd @ [pkt]"] show ?thesis
    by (auto simp: pipeline_inv_def client_tun_read_def client_reads_def length_offer subseq_extend)
qed (use assms in \<open>auto simp: pipeline_inv_def client_tun_read_def client_reads_def\<close>)

lemma pipeline_inv_try:
  assumes "pipeline_inv rd c"
  shows "pipeline_inv rd (writer_try res c)"
proof (cases "cl_writer c")
  case (Trying pkt n)
  with assms subseq_skip [of "map snd (cl_sent c)" pkt "cl_queue c" rd] show ?thesis
    by (auto simp: pipeline_inv_def writer_try_def hand_simps split: option.splits)
qed (use assms in \<open>simp_all add: writer_try_def\<close>)

lemma pipeline_inv_step:
  assumes "pipeline_inv rd c"
  shows "pipeline_inv (rd @ client_reads [ev]) (client_step ev c)"
proof -
  have none: "client_reads [ev] = []" if "\<And>res. ev \<noteq> Client_tun_read res"
    using that by (auto simp: client_reads_def split: client_event.splits sum.splits)
  have same: ?thesis if "\<And>res. ev \<noteq> Client_tun_read res" and
    "cl_sent (client_step ev c) = cl_sent c" "cl_writer (client_step ev c) = cl_writer c"
    "cl_queue (client_step ev c) = cl_queue c" "cl_queue_closed (client_step ev c) = cl_queue_closed c"
    using pipeline_inv_same [OF assms that(2-5)] none that(1) by simp
  show ?thesis
  proof (cases ev)
    case (Client_tun_read res)
    with pipeline_inv_read [OF assms] show ?thesis by simp
  next
    case (Writer_try res)
    with pipeline_inv_try [OF assms] none show ?thesis by simp
  next
    case Writer_take
    with assms none show ?thesis
      by (auto simp: writer_take_def pipeline_inv_def hand_simps split: list.splits)
  qed (rule same; simp add: stream_reader_step_def rotate_due_def rotate_result_def rotate_swap_def
      grace_over_def watchdog_tick_def watchdog_result_def watchdog_swap_def cancel_context_def
      client_shutdown_def session_dies_def close_number_def next_id_def add_session_def Let_def
      split: sum.splits option.splits renewer.splits)+
qed

lemma pipeline_inv_run:
  "pipeline_inv rd c \<Longrightarrow> pipeline_inv (rd @ client_reads evs) (client_run evs c)"
proof (induction evs arbitrary: rd c)
  case (Cons ev evs)
  from Cons.IH [OF pipeline_inv_step [OF Cons.prems, of ev]] show ?case
    by (simp add: client_reads_def)
qed (simp add: client_reads_def)


text \<open>
  C15: the packet pipeline. In every interleaving, with every write error and every swap of the active
  session: the packets written to sessions, the one being tried and the queue behind it are
  packets read from the device, in the order they were read, none twice, across all sessions; at
  most 512 wait; a packet is tried at most three times; and once its attempts are used up the
  writer turns to the next packet, so a dead session never blocks the pipeline.
\<close>

theorem packets_in_order_across_sessions:
  assumes "c = client_run evs (client_start rotating)"
  shows "subseq (map snd (cl_sent c) @ in_hand (cl_writer c) @ cl_queue c) (client_reads evs) \<and>
    length (cl_queue c) \<le> 512 \<and> attempts (cl_writer c) \<le> 3 \<and>
    in_hand (cl_writer (writer_try r4 (writer_try r3 (writer_try r2 (writer_try r1 c))))) = []"
proof -
  have "pipeline_inv [] (client_start rotating)"
    by (simp add: pipeline_inv_def client_start_def hand_simps)
  from pipeline_inv_run [OF this, of evs] assms have inv: "pipeline_inv (client_reads evs) c" by simp
  have "in_hand (cl_writer (writer_try r4 (writer_try r3 (writer_try r2 (writer_try r1 c))))) = []"
  proof (cases "cl_writer c")
    case (Trying pkt n)
    then show ?thesis
      by (cases "cl_active c"; cases r1; cases r2; cases r3; cases r4)
        (simp_all add: writer_try_def in_hand_def)
  qed (simp_all add: writer_try_def in_hand_def)
  with inv show ?thesis by (simp add: pipeline_inv_def tun_write_queue_def)
qed

lemma packets_in_order_across_sessions_witness:
  "let c = client_run [Client_tun_read (Inr [1]), Client_tun_read (Inr [2]), Writer_take,
      Writer_try (Some EOF), Rotate_due True, Rotate_result None, Rotate_swap, Writer_try None] (client_start True)
   in cl_sent c = [(1, [1])] \<and> subseq (map snd (cl_sent c) @ cl_queue c) [[1], [2]]"
proof -
  let ?evs = "[Client_tun_read (Inr [1]), Client_tun_read (Inr [2]), Writer_take,
      Writer_try (Some EOF), Rotate_due True, Rotate_result None, Rotate_swap, Writer_try None]"
  let ?c = "client_run ?evs (client_start True)"
  have "cl_sent ?c = [(1, [1])]" "cl_writer ?c = Writer_idle"
    by (simp_all add: client_tun_read_def writer_take_def writer_try_def rotate_due_def
        rotate_result_def rotate_swap_def next_id_def add_session_def client_start_def offer_def
        tun_write_queue_def Let_def)
  with packets_in_order_across_sessions [OF refl, of ?evs True] show ?thesis
    unfolding Let_def by (simp add: client_reads_def in_hand_def del: client_run.simps)
qed

text \<open>
  \<^verbatim>\<open>establish\<close> on every branch: the error of the first call that fails, wrapped with its stage; a
  session only if every call succeeded; and on an error every TLS connection, HTTP tunnel and
  coalescer that was opened has been closed, each once and the tunnel before the connection it
  runs on.
\<close>

theorem establish_releases_on_error:
  "case establish a of
     (Some e, opened, closed) \<Rightarrow>
       set opened - {Mux} = set closed \<and> distinct closed \<and> Shaper \<notin> set opened \<and>
       (Http_tunnel \<in> set opened \<longrightarrow>
          (\<exists>before. closed = before @ [Tls_conn] \<and> Http_tunnel \<in> set before))
   | (None, opened, closed) \<Rightarrow>
       closed = [] \<and> distinct opened \<and> Shaper \<in> set opened \<and>
       ans_dial a = None \<and> ans_initiator a = None \<and> ans_msg1 a = None \<and>
       ans_handshake a = None \<and> ans_msg2 a = None \<and> ans_open a = None"
  by (auto simp: establish_def split: option.splits)

lemma establish_releases_on_error_witness:
  "case establish \<lparr>ans_dial = None, ans_initiator = None, ans_msg1 = None, ans_handshake = None,
       ans_msg2 = Some EOF, ans_open = None\<rparr> of
     (Some e, opened, closed) \<Rightarrow> e = Wrapf ''noise msg2: %w'' EOF \<and> closed = [Http_tunnel, Tls_conn]
   | (None, opened, closed) \<Rightarrow> False"
  using establish_releases_on_error [of "\<lparr>ans_dial = None, ans_initiator = None, ans_msg1 = None,
      ans_handshake = None, ans_msg2 = Some EOF, ans_open = None\<rparr>"]
  by (simp add: establish_def)

section \<open>The rotation loop and the watchdog can undo each other\<close>

text \<open>
  The server closes a client's previous session as soon as the next one authenticates. If the watchdog
  looks at the old session while the rotation holds the new one, it sets up a third, which kicks the
  second; the rotation then makes the dead second session active and closes the living third.
\<close>

lemma rotation_races_watchdog:
  "let c = client_run
      [Watchdog_tick True 0, Rotate_due True, Rotate_result None, Session_dies 0, Watchdog_tick True 6000000000,
       Watchdog_result None, Session_dies 1, Watchdog_swap, Rotate_swap, Grace_over 2] (client_start True)
   in cl_active c = Some 1 \<and> ts_mux_done (cl_sessions c ! 1) \<and> ts_closed (cl_sessions c ! 2) \<and>
      cl_rotation c = Waiting \<and> cl_watchdog c = Waiting"
  by (simp add: watchdog_tick_def watchdog_result_def watchdog_swap_def rotate_due_def rotate_result_def
      rotate_swap_def grace_over_def next_id_def add_session_def session_dies_def close_number_def
      new_tunnel_session_def session_close_def client_start_def five_seconds_def Let_def)

text \<open>
  Between the server's closing of the old session and the swap, packets are lost: the three
  attempts all go to the dead session.
\<close>

lemma packet_dropped_during_rotation:
  "let c = client_run
      [Client_tun_read (Inr [1]), Rotate_due True, Rotate_result None, Session_dies 0, Writer_take,
       Writer_try (Some EOF), Writer_try (Some EOF), Writer_try (Some EOF), Writer_try None,
       Rotate_swap] (client_start True)
   in cl_sent c = [] \<and> cl_queue c = [] \<and> cl_writer c = Writer_idle \<and> cl_active c = Some 1"
  by (simp add: client_tun_read_def writer_take_def writer_try_def rotate_due_def rotate_result_def
      rotate_swap_def next_id_def add_session_def session_dies_def client_start_def offer_def
      tun_write_queue_def Let_def)

end
