(* ===== verification/Keys.thy ===== *)
theory Keys
  imports Prelude
begin

text \<open>
  Key text forms, \<^verbatim>\<open>internal/auth/keys.go\<close>, with the base64 codec of Go's standard library that it
  uses: the standard and the URL alphabet, with and without padding, the decoder as lenient as
  Go's (line ends are skipped, the unused bits of the last character are not looked at).
\<close>

section \<open>Base64\<close>

definition std_alphabet :: string where
  "std_alphabet = ''ABCDEFGHIJKLMNOPQRSTUVWXYZabcdefghijklmnopqrstuvwxyz0123456789+/''"

definition url_alphabet :: string where
  "url_alphabet = ''ABCDEFGHIJKLMNOPQRSTUVWXYZabcdefghijklmnopqrstuvwxyz0123456789-_''"

fun index_of :: "'a \<Rightarrow> 'a list \<Rightarrow> nat option" where
  "index_of x [] = None"
| "index_of x (y # ys) = (if x = y then Some 0 else map_option Suc (index_of x ys))"

definition pad_char :: char where
  "pad_char = CHR ''=''"

fun encode64 :: "string \<Rightarrow> bool \<Rightarrow> bytes \<Rightarrow> string" where
  "encode64 al padded [] = []"
| "encode64 al padded [a] =
     (let n = unat a * 65536
      in [al ! (n div 262144), al ! (n div 4096 mod 64)] @
         (if padded then [pad_char, pad_char] else []))"
| "encode64 al padded [a, b] =
     (let n = unat a * 65536 + unat b * 256
      in [al ! (n div 262144), al ! (n div 4096 mod 64), al ! (n div 64 mod 64)] @
         (if padded then [pad_char] else []))"
| "encode64 al padded (a # b # c # rest) =
     (let n = unat a * 65536 + unat b * 256 + unat c
      in [al ! (n div 262144), al ! (n div 4096 mod 64), al ! (n div 64 mod 64), al ! (n mod 64)] @
         encode64 al padded rest)"

text \<open>One quantum of the decoder: the bytes of two, three or four sextets.\<close>

definition quantum :: "nat list \<Rightarrow> bytes" where
  "quantum ds =
     (let n = fold (\<lambda>d n. n * 64 + d) (ds @ replicate (4 - length ds) 0) 0
      in take (length ds - 1)
           [word_of_nat (n div 65536), word_of_nat (n div 256 mod 256), word_of_nat (n mod 256)])"

fun sextets :: "string \<Rightarrow> string \<Rightarrow> nat list option" where
  "sextets al [] = Some []"
| "sextets al (c # cs) =
     (case index_of c al of None \<Rightarrow> None | Some d \<Rightarrow> map_option ((#) d) (sextets al cs))"

fun decode_quanta :: "string \<Rightarrow> bool \<Rightarrow> string \<Rightarrow> bytes option" where
  "decode_quanta al padded [] = Some []"
| "decode_quanta al padded [a] = None"
| "decode_quanta al padded [a, b] =
     (if padded then None else map_option quantum (sextets al [a, b]))"
| "decode_quanta al padded [a, b, c] =
     (if padded then None else map_option quantum (sextets al [a, b, c]))"
| "decode_quanta al padded (a # b # c # d # rest) =
     (case sextets al [a, b, c, d] of
        Some ds \<Rightarrow> map_option ((@) (quantum ds)) (decode_quanta al padded rest)
      | None \<Rightarrow>
          if padded \<and> rest = [] \<and> c = pad_char \<and> d = pad_char
          then map_option quantum (sextets al [a, b])
          else if padded \<and> rest = [] \<and> d = pad_char
          then map_option quantum (sextets al [a, b, c])
          else None)"

definition decode64 :: "string \<Rightarrow> bool \<Rightarrow> string \<Rightarrow> bytes option" where
  "decode64 al padded s = decode_quanta al padded (filter (\<lambda>c. c \<noteq> CHR 0x0A \<and> c \<noteq> CHR 0x0D) s)"

section \<open>Keys\<close>

definition key_size :: nat where
  "key_size = 32"

definition encode_key :: "bytes \<Rightarrow> string" where
  "encode_key k = encode64 std_alphabet True k"

definition key_encodings :: "(string \<times> bool) list" where
  "key_encodings =
     [(std_alphabet, True), (std_alphabet, False), (url_alphabet, True), (url_alphabet, False)]"

definition corrupt_input :: go_error where
  "corrupt_input = Errorf ''illegal base64 data'' []"

fun first_decoding :: "(string \<times> bool) list \<Rightarrow> string \<Rightarrow> bytes option" where
  "first_decoding [] s = None"
| "first_decoding ((al, padded) # encs) s =
     (case decode64 al padded s of Some b \<Rightarrow> Some b | None \<Rightarrow> first_decoding encs s)"

definition decode_key :: "string \<Rightarrow> go_error + bytes" where
  "decode_key s =
     (case first_decoding key_encodings s of
        None \<Rightarrow> Inl (Wrapf ''auth: decode key: %w'' corrupt_input)
      | Some b \<Rightarrow>
          if length b \<noteq> key_size
          then Inl (Errorf ''auth: key has wrong length: got %d, want %d'' [int (length b), int key_size])
          else Inr b)"

text \<open>\<^verbatim>\<open>subtle.ConstantTimeCompare\<close>: the OR of the differences of all bytes, compared with zero.\<close>

definition constant_time_compare :: "bytes \<Rightarrow> bytes \<Rightarrow> nat" where
  "constant_time_compare x y =
     (if length x \<noteq> length y then 0
      else if fold (\<lambda>(a, b) v. v OR (a XOR b)) (zip x y) 0 = 0 then 1 else 0)"

definition equal_key :: "bytes \<Rightarrow> bytes \<Rightarrow> bool" where
  "equal_key a b \<longleftrightarrow> length a = length b \<and> constant_time_compare a b = 1"

section \<open>The codec round trip\<close>

lemma index_std: "\<forall>d < 64. index_of (std_alphabet ! d) std_alphabet = Some d"
  by code_simp

lemma index_url: "\<forall>d < 64. index_of (url_alphabet ! d) url_alphabet = Some d"
  by code_simp

definition alphabet :: "string \<Rightarrow> bool" where
  "alphabet al \<longleftrightarrow>
     (\<forall>d < 64. index_of (al ! d) al = Some d \<and> al ! d \<notin> {CHR 0x0A, CHR 0x0D}) \<and>
     index_of pad_char al = None"

lemma alphabet_std: "alphabet std_alphabet"
  unfolding alphabet_def by code_simp

lemma alphabet_url: "alphabet url_alphabet"
  unfolding alphabet_def by code_simp

lemma alphabet_digit [simp]:
  "alphabet al \<Longrightarrow> d < 64 \<Longrightarrow> index_of (al ! d) al = Some d"
  by (simp add: alphabet_def)

lemma recompose_sextets:
  fixes n :: nat
  shows "((n div 262144 * 64 + n div 4096 mod 64) * 64 + n div 64 mod 64) * 64 + n mod 64 = n"
proof -
  have d: "n div 4096 = n div 64 div 64" "n div 262144 = n div 64 div 64 div 64"
    by (simp_all flip: div_mult2_eq)
  show ?thesis unfolding d by (simp only: div_mult_mod_eq)
qed

lemma bytes_of_sum:
  fixes a b c :: byte
  assumes "n = unat a * 65536 + unat b * 256 + unat c"
  shows "word_of_nat (n div 65536) = a" and "word_of_nat (n div 256 mod 256) = b"
    and "word_of_nat (n mod 256) = c" and "n div 262144 < 64"
proof -
  have l: "unat a < 256" "unat b < 256" "unat c < 256"
    using unsigned_less [of a] unsigned_less [of b] unsigned_less [of c] by simp_all
  have "n div 256 = unat a * 256 + unat b" using assms l by simp
  moreover have "n div 65536 = unat a"
  proof -
    have "n div 65536 = n div 256 div 256" by (simp flip: div_mult2_eq)
    with \<open>n div 256 = unat a * 256 + unat b\<close> l show ?thesis by simp
  qed
  moreover have "n mod 256 = unat c" using assms l by (simp add: mod_add_eq [symmetric] mod_mult_right_eq)
  ultimately show "word_of_nat (n div 65536) = a" and "word_of_nat (n div 256 mod 256) = b"
    and "word_of_nat (n mod 256) = c"
    using l by simp_all
  show "n div 262144 < 64" using assms l by linarith
qed

text \<open>The bytes of a 24-bit number, and a quantum as such.\<close>

definition be24 :: "nat \<Rightarrow> bytes" where
  "be24 n = [word_of_nat (n div 65536), word_of_nat (n div 256 mod 256), word_of_nat (n mod 256)]"

lemma quantum_be24:
  "quantum [p, q, r, s] = be24 (((p * 64 + q) * 64 + r) * 64 + s)"
  "quantum [p, q, r] = take 2 (be24 (((p * 64 + q) * 64 + r) * 64 + 0))"
  "quantum [p, q] = take 1 (be24 (((p * 64 + q) * 64 + 0) * 64 + 0))"
  by (simp_all add: quantum_def be24_def Let_def numeral_2_eq_2)

lemma quantum_four:
  assumes "n = unat a * 65536 + unat b * 256 + unat c"
  shows "quantum [n div 262144, n div 4096 mod 64, n div 64 mod 64, n mod 64] = [a, b, c]"
  unfolding quantum_be24 recompose_sextets using bytes_of_sum [OF assms] by (simp add: be24_def)

lemma quantum_three:
  assumes "n = unat a * 65536 + unat b * 256"
  shows "quantum [n div 262144, n div 4096 mod 64, n div 64 mod 64] = [a, b]"
proof -
  have z: "0 = n mod 64" unfolding assms by (simp add: mod_add_eq [symmetric] mod_mult_right_eq)
  show ?thesis
    unfolding quantum_be24 unfolding z recompose_sextets
    using bytes_of_sum [of n a b 0] assms by (simp add: be24_def)
qed

lemma quantum_two:
  assumes "n = unat a * 65536"
  shows "quantum [n div 262144, n div 4096 mod 64] = [a]"
proof -
  have z: "n mod 64 = 0" "n div 64 mod 64 = 0" unfolding assms by (simp_all add: mod_mult_right_eq)
  have "quantum [n div 262144, n div 4096 mod 64] =
      take 1 (be24 (((n div 262144 * 64 + n div 4096 mod 64) * 64 + n div 64 mod 64) * 64 + n mod 64))"
    unfolding quantum_be24 z ..
  then show ?thesis
    unfolding recompose_sextets using bytes_of_sum [of n a 0 0] assms by (simp add: be24_def)
qed

lemma encode64_chars:
  "alphabet al \<Longrightarrow> c \<in> set (encode64 al padded k) \<Longrightarrow> c \<noteq> CHR 0x0A \<and> c \<noteq> CHR 0x0D"
proof (induction al padded k rule: encode64.induct)
  case (2 al padded a)
  then show ?case
    using bytes_of_sum(4) [of "unat a * 65536" a 0 0]
    by (auto simp: alphabet_def pad_char_def Let_def split: if_splits)
next
  case (3 al padded a b)
  then show ?case
    using bytes_of_sum(4) [of "unat a * 65536 + unat b * 256" a b 0]
    by (auto simp: alphabet_def pad_char_def Let_def split: if_splits)
next
  case (4 al padded a b c rest)
  then show ?case
    using bytes_of_sum(4) [of "unat a * 65536 + unat b * 256 + unat c" a b c]
    by (auto simp: alphabet_def Let_def)
qed simp

lemma decode_encode_quanta:
  "alphabet al \<Longrightarrow> decode_quanta al padded (encode64 al padded k) = Some k"
proof (induction al padded k rule: encode64.induct)
  case (2 al padded a)
  define n where "n = unat a * 65536"
  have "index_of pad_char al = None" using 2 by (simp add: alphabet_def)
  with 2 bytes_of_sum(4) [of n a 0 0] quantum_two [OF n_def] show ?case
    unfolding encode64.simps Let_def n_def [symmetric] by (simp add: n_def)
next
  case (3 al padded a b)
  have "index_of pad_char al = None" using 3 by (simp add: alphabet_def)
  moreover have "al ! (n div 64 mod 64) \<noteq> pad_char" for n
    using 3 alphabet_digit [of al "n div 64 mod 64"] by (force simp: alphabet_def)
  moreover define n where "n = unat a * 65536 + unat b * 256"
  moreover have "n div 262144 < 64" using bytes_of_sum(4) [of n a b 0] by (simp add: n_def)
  ultimately show ?case
    using 3 quantum_three [OF n_def] unfolding encode64.simps Let_def n_def [symmetric] by simp
next
  case (4 al padded a b c rest)
  with bytes_of_sum(4) [of "unat a * 65536 + unat b * 256 + unat c" a b c] show ?case
    by (simp add: Let_def quantum_four)
qed simp

lemma decode_encode: "alphabet al \<Longrightarrow> decode64 al padded (encode64 al padded k) = Some k"
  using encode64_chars [of al _ padded k] decode_encode_quanta [of al padded k]
  by (simp add: decode64_def cong: filter_cong)

section \<open>Two decoders never disagree\<close>

lemma index_of_nth: "index_of c al = Some d \<Longrightarrow> d < length al \<and> al ! d = c"
  by (induction al arbitrary: d) (auto split: if_splits)

definition compatible :: "string \<Rightarrow> string \<Rightarrow> bool" where
  "compatible al al' \<longleftrightarrow>
     (\<forall>c d e. index_of c al = Some d \<longrightarrow> index_of c al' = Some e \<longrightarrow> d = e)"

lemma compatible_refl: "compatible al al"
  by (simp add: compatible_def)

lemma compatible_sym: "compatible al al' \<Longrightarrow> compatible al' al"
  by (auto simp: compatible_def)

lemma compatible_std_url: "compatible std_alphabet url_alphabet"
proof -
  have "\<forall>d < 64. index_of (std_alphabet ! d) url_alphabet = Some d \<or>
      index_of (std_alphabet ! d) url_alphabet = None" by code_simp
  moreover have "length std_alphabet = 64" by code_simp
  ultimately show ?thesis by (fastforce simp: compatible_def dest: index_of_nth)
qed

lemma sextets_agree:
  "compatible al al' \<Longrightarrow> sextets al s = Some ds \<Longrightarrow> sextets al' s = Some es \<Longrightarrow> ds = es"
  by (induction s arbitrary: ds es) (auto simp: compatible_def split: option.splits)

lemma decode_quanta_agree:
  "compatible al al' \<Longrightarrow> index_of pad_char al = None \<Longrightarrow> index_of pad_char al' = None \<Longrightarrow>
   decode_quanta al p s = Some x \<Longrightarrow> decode_quanta al' p' s = Some y \<Longrightarrow> x = y"
proof (induction al p s arbitrary: x y rule: decode_quanta.induct)
  case (5 al padded a b c d rest)
  note agree = sextets_agree [OF "5.prems"(1)]
  show ?case
  proof (cases "d = pad_char")
    case True
    then have no: "sextets al [a, b, c, d] = None" "sextets al' [a, b, c, d] = None"
      using "5.prems"(2,3) by (auto split: option.splits)
    show ?thesis
    proof (cases "c = pad_char")
      case c: True
      then have "map_option quantum (sextets al [a, b]) = Some x"
        "map_option quantum (sextets al' [a, b]) = Some y"
        using "5.prems"(4,5) no True by (simp_all split: if_splits del: sextets.simps)
      then show ?thesis using agree [of "[a, b]"] by blast
    next
      case c: False
      then have "map_option quantum (sextets al [a, b, c]) = Some x"
        "map_option quantum (sextets al' [a, b, c]) = Some y"
        using "5.prems"(4,5) no True by (simp_all split: if_splits del: sextets.simps)
      then show ?thesis using agree [of "[a, b, c]"] by blast
    qed
  next
    case False
    with "5.prems"(4,5) obtain ds q es q' where
      "sextets al [a, b, c, d] = Some ds" "decode_quanta al padded rest = Some q" "x = quantum ds @ q"
      "sextets al' [a, b, c, d] = Some es" "decode_quanta al' p' rest = Some q'" "y = quantum es @ q'"
      by (auto split: option.splits simp del: sextets.simps)
    then have "ds = es" using agree by blast
    moreover have "q = q'"
      using "5.IH" \<open>decode_quanta al padded rest = Some q\<close> \<open>decode_quanta al' p' rest = Some q'\<close>
        \<open>sextets al [a, b, c, d] = Some ds\<close> "5.prems"(1-3) by blast
    ultimately show ?thesis using \<open>x = quantum ds @ q\<close> \<open>y = quantum es @ q'\<close> by simp
  qed
qed (auto split: if_splits dest: sextets_agree simp del: sextets.simps)

lemma first_decoding_agree:
  assumes "(al, p) \<in> set encs" and "decode64 al p s = Some k"
    and "\<forall>(al', p') \<in> set encs. compatible al' al \<and> index_of pad_char al' = None"
  shows "first_decoding encs s = Some k"
  using assms
proof (induction encs)
  case (Cons enc encs)
  obtain al' p' where enc: "enc = (al', p')" by fastforce
  show ?case
  proof (cases "decode64 al' p' s")
    case None
    with Cons enc show ?thesis by auto
  next
    case (Some k')
    have "index_of pad_char al = None" using Cons.prems(1,3) by auto
    with decode_quanta_agree [of al' al p' _ k' p k] Some Cons.prems(2,3) enc
    have "k' = k" by (simp add: decode64_def)
    with Some enc show ?thesis by simp
  qed
qed simp

lemma key_encodings_compatible:
  "(al, p) \<in> set key_encodings \<Longrightarrow>
   alphabet al \<and> (\<forall>(al', p') \<in> set key_encodings. compatible al' al \<and> index_of pad_char al' = None)"
  using alphabet_std alphabet_url compatible_std_url compatible_sym [OF compatible_std_url]
  by (auto simp: key_encodings_def compatible_refl alphabet_def)

lemma first_decoding_encode:
  assumes "(al, p) \<in> set key_encodings"
  shows "first_decoding key_encodings (encode64 al p k) = Some k"
  using key_encodings_compatible [OF assms] decode_encode [of al p k]
  by (intro first_decoding_agree [OF assms]) auto

section \<open>Properties\<close>

text \<open>
  key text forms. A 32-byte key written in any of the four base64 forms is read back by
  \<^verbatim>\<open>DecodeKey\<close> as the same key, also when the text is a legal input of an earlier form it tries first;
  in particular \<^verbatim>\<open>DecodeKey\<close> inverts \<^verbatim>\<open>EncodeKey\<close>, which is therefore injective; a key of another length
  is refused.
\<close>

theorem decode_key_accepts_all_forms:
  assumes "(al, p) \<in> set key_encodings"
  shows "decode_key (encode64 al p k) =
      (if length k = 32 then Inr k
       else Inl (Errorf ''auth: key has wrong length: got %d, want %d'' [int (length k), 32])) \<and>
    (length k = 32 \<longrightarrow> decode_key (encode_key k) = Inr k)"
  using first_decoding_encode [OF assms, of k] first_decoding_encode [of std_alphabet True k]
  by (simp add: decode_key_def key_size_def encode_key_def key_encodings_def)

lemma decode_key_accepts_all_forms_witness:
  "decode_key (encode64 url_alphabet False (replicate 32 255)) = Inr (replicate 32 255) \<and>
   decode_key (encode_key (replicate 32 255)) = Inr (replicate 32 255)"
proof -
  have "(url_alphabet, False) \<in> set key_encodings" by (simp add: key_encodings_def)
  from decode_key_accepts_all_forms [OF this, of "replicate 32 255"] show ?thesis by simp
qed

lemma or_xor_zero:
  "fold (\<lambda>(a, b) v. v OR (a XOR b)) ps v = 0 \<longleftrightarrow> v = 0 \<and> (\<forall>(a, b) \<in> set ps. a = (b :: byte))"
proof (induction ps arbitrary: v)
  case (Cons p ps)
  obtain a b where p: "p = (a, b)" by fastforce
  have "v OR (a XOR b) = 0 \<longleftrightarrow> v = 0 \<and> a = b"
    by (metis bit.conj_disj_distrib bit.disj_zero_right or.left_neutral or_eq_0_iff xor_self_eq
        xor.assoc xor.left_neutral)
  with Cons p show ?case by auto
qed simp

text \<open>\<^verbatim>\<open>EqualKey\<close> is equality.\<close>

lemma equal_key_iff: "equal_key a b \<longleftrightarrow> a = b"
proof -
  have "(\<forall>(x, y) \<in> set (zip a b). x = y) \<longleftrightarrow> a = b" if "length a = length b"
    using that by (induction a b rule: list_induct2) auto
  then show ?thesis by (auto simp: equal_key_def constant_time_compare_def or_xor_zero)
qed

section \<open>Key pairs\<close>

text \<open>The Curve25519 package is a parameter: a fresh pair, and the public key of a private one.\<close>

definition generate_keypair :: "go_error + bytes \<times> bytes \<Rightarrow> go_error + bytes \<times> bytes" where
  "generate_keypair drawn =
     (case drawn of Inl e \<Rightarrow> Inl (Wrapf ''auth: generate keypair: %w'' e) | Inr kp \<Rightarrow> Inr kp)"

definition keypair_from_private ::
  "(bytes \<Rightarrow> go_error + bytes) \<Rightarrow> bytes \<Rightarrow> go_error + bytes \<times> bytes" where
  "keypair_from_private x25519 priv =
     (if length priv \<noteq> key_size
      then Inl (Errorf ''auth: private key length %d != %d'' [int (length priv), int key_size])
      else (case x25519 priv of
              Inl e \<Rightarrow> Inl (Wrapf ''auth: derive public key: %w'' e)
            | Inr pub \<Rightarrow> Inr (priv, pub)))"

text \<open>A decoded key has the right length for it, so that check never fails in the programs.\<close>

lemma decode_key_length: "decode_key s = Inr k \<Longrightarrow> length k = key_size"
  by (auto simp: decode_key_def split: option.splits if_splits)

lemma decode_key_newline: "decode_key (s @ [CHR 0x0A]) = decode_key s"
proof -
  have "first_decoding encs (s @ [CHR 0x0A]) = first_decoding encs s" for encs
    by (induction encs) (auto simp: decode64_def split: option.split)
  then show ?thesis by (simp add: decode_key_def)
qed

lemma decode_encode_key: "length k = key_size \<Longrightarrow> decode_key (encode_key k) = Inr k"
  using first_decoding_encode [of std_alphabet True k]
  by (simp add: decode_key_def encode_key_def key_encodings_def)

end
