(* ===== verification/Auth.thy ===== *)
theory Auth
  imports Frame_Cipher Keys
begin

text \<open>
  The Noise IK handshake wrappers of \<^verbatim>\<open>internal/auth/noise.go\<close>. The handshake state of the
  third-party package is a type \<open>'h\<close> with its three operations as parameters; \<open>handshake_law\<close>
  states what the package documents about the pair of cipher states that both sides split off.
  The point of the wrappers is to give each side the right one of the two for sending.
\<close>

record dh_key =
  dh_private :: bytes
  dh_public :: bytes

record noise_config =
  nc_initiator :: bool
  nc_prologue :: string
  nc_static :: dh_key
  nc_peer_static :: "bytes option"

definition handshake_prologue :: string where
  "handshake_prologue = ''ghost-v1''"

text \<open>
  \<^verbatim>\<open>HandshakeState.WriteMessage\<close> and \<^verbatim>\<open>ReadMessage\<close> return the message or payload and two cipher
  states, nil until the last message of the handshake.
\<close>

type_synonym ('h, 'c) handshake_op =
  "'h \<Rightarrow> bytes \<Rightarrow> 'h \<times> (go_error + bytes \<times> 'c option \<times> 'c option)"

definition new_initiator ::
  "(noise_config \<Rightarrow> go_error + 'h) \<Rightarrow> dh_key \<Rightarrow> bytes \<Rightarrow> go_error + 'h" where
  "new_initiator new_hs local remote_static =
     (if length remote_static \<noteq> key_size
      then Inl (Errorf ''auth: remote static key length %d != %d''
             [int (length remote_static), int key_size])
      else if length (dh_private local) \<noteq> key_size \<or> length (dh_public local) \<noteq> key_size
      then Inl (Errorf ''auth: local static keypair must be 32-byte Curve25519'' [])
      else
        case new_hs \<lparr>nc_initiator = True, nc_prologue = handshake_prologue, nc_static = local,
                     nc_peer_static = Some remote_static\<rparr> of
          Inl e \<Rightarrow> Inl (Wrapf ''auth: new initiator: %w'' e)
        | Inr hs \<Rightarrow> Inr hs)"

definition new_responder :: "(noise_config \<Rightarrow> go_error + 'h) \<Rightarrow> dh_key \<Rightarrow> go_error + 'h" where
  "new_responder new_hs local =
     (if length (dh_private local) \<noteq> key_size \<or> length (dh_public local) \<noteq> key_size
      then Inl (Errorf ''auth: local static keypair must be 32-byte Curve25519'' [])
      else
        case new_hs \<lparr>nc_initiator = False, nc_prologue = handshake_prologue, nc_static = local,
                     nc_peer_static = None\<rparr> of
          Inl e \<Rightarrow> Inl (Wrapf ''auth: new responder: %w'' e)
        | Inr hs \<Rightarrow> Inr hs)"

definition initiator_write :: "('h, 'c) handshake_op \<Rightarrow> 'h \<Rightarrow> bytes \<Rightarrow> 'h \<times> (go_error + bytes)" where
  "initiator_write wr hs p =
     (case wr hs p of
        (hs', Inl e) \<Rightarrow> (hs', Inl (Wrapf ''auth: write IK msg1: %w'' e))
      | (hs', Inr (out, _, _)) \<Rightarrow> (hs', Inr out))"

definition initiator_read ::
  "('h, 'c) handshake_op \<Rightarrow> 'h \<Rightarrow> bytes \<Rightarrow> 'h \<times> (go_error + bytes \<times> 'c session)" where
  "initiator_read rd hs msg =
     (case rd hs msg of
        (hs', Inl e) \<Rightarrow> (hs', Inl (Wrapf ''auth: read IK msg2: %w'' e))
      | (hs', Inr (p, cs_init_send, cs_init_recv)) \<Rightarrow>
          if cs_init_send = None \<or> cs_init_recv = None
          then (hs', Inl (Errorf ''auth: handshake incomplete after IK msg2'' []))
          else (hs', Inr (p, new_session cs_init_send cs_init_recv)))"

definition responder_read :: "('h, 'c) handshake_op \<Rightarrow> 'h \<Rightarrow> bytes \<Rightarrow> 'h \<times> (go_error + bytes)" where
  "responder_read rd hs msg =
     (case rd hs msg of
        (hs', Inl e) \<Rightarrow> (hs', Inl (Wrapf ''auth: read IK msg1: %w'' e))
      | (hs', Inr (p, _, _)) \<Rightarrow> (hs', Inr p))"

definition responder_write ::
  "('h, 'c) handshake_op \<Rightarrow> 'h \<Rightarrow> bytes \<Rightarrow> 'h \<times> (go_error + bytes \<times> 'c session)" where
  "responder_write wr hs p =
     (case wr hs p of
        (hs', Inl e) \<Rightarrow> (hs', Inl (Wrapf ''auth: write IK msg2: %w'' e))
      | (hs', Inr (out, cs_init_send, cs_init_recv)) \<Rightarrow>
          if cs_init_send = None \<or> cs_init_recv = None
          then (hs', Inl (Errorf ''auth: handshake incomplete after IK msg2'' []))
          else (hs', Inr (out, new_session cs_init_recv cs_init_send)))"

text \<open>
  The split both sides agree on: when the initiator reads the message the responder wrote and
  both come out with cipher states, the first pair is in step for messages from the initiator,
  the second for messages from the responder. \<open>R s r\<close>: what \<open>s\<close> seals, \<open>r\<close> opens.
\<close>

definition handshake_law ::
  "('h, 'c) handshake_op \<Rightarrow> ('h, 'c) handshake_op \<Rightarrow> ('h \<Rightarrow> 'h \<Rightarrow> bool) \<Rightarrow> ('c \<Rightarrow> 'c \<Rightarrow> bool) \<Rightarrow> bool" where
  "handshake_law wr rd peers R \<longleftrightarrow>
     (\<forall>i r p msg q i' r' a1 a2 b1 b2. peers i r \<longrightarrow>
        wr r p = (r', Inr (msg, Some a1, Some a2)) \<longrightarrow>
        rd i msg = (i', Inr (q, Some b1, Some b2)) \<longrightarrow> q = p \<and> R b1 a1 \<and> R a2 b2)"

lemma handshake_pairs:
  assumes "handshake_law wr rd peers R" and "peers i r"
    and "responder_write wr r p = (r', Inr (msg2, server))"
    and "initiator_read rd i msg2 = (i', Inr (q, client))"
  shows "q = p \<and> in_step R (Some client) (Some server) \<and> in_step R (Some server) (Some client)"
proof -
  from assms(3) obtain a1 a2 where w: "wr r p = (r', Inr (msg2, Some a1, Some a2))"
    and s: "server = new_session (Some a2) (Some a1)"
    by (auto simp: responder_write_def split: prod.splits sum.splits if_splits)
  from assms(4) obtain b1 b2 where "rd i msg2 = (i', Inr (q, Some b1, Some b2))"
    and c: "client = new_session (Some b1) (Some b2)"
    by (auto simp: initiator_read_def split: prod.splits sum.splits if_splits)
  with assms(1,2) w have "q = p" "R b1 a1" "R a2 b2" unfolding handshake_law_def by blast+
  with s c show ?thesis by (simp add: in_step_def new_session_def)
qed

text \<open>
  after the handshake each side seals with the cipher state the other side opens with, in
  both directions, and the initiator has read the responder's payload: the responder must, and
  does, take the two cipher states in the opposite order.
\<close>

theorem handshake_pairs_sessions:
  assumes "handshake_law wr rd peers R" and "peers i r"
    and "responder_write wr r p = (r', Inr (msg2, server))"
    and "initiator_read rd i msg2 = (i', Inr (q, client))"
  shows "q = p \<and> in_step R (Some client) (Some server) \<and> in_step R (Some server) (Some client)"
  using handshake_pairs [OF assms] .

text \<open>A handshake that splits off the states 0 and 100, for concrete runs.\<close>

definition toy_write :: "(unit, nat) handshake_op" where
  "toy_write hs p = (hs, Inr (7 # p, Some 0, Some 100))"

definition toy_read :: "(unit, nat) handshake_op" where
  "toy_read hs msg =
     (if msg = [] then (hs, Inl UnexpectedEOF) else (hs, Inr (tl msg, Some 0, Some 100)))"

lemma toy_handshake_law: "handshake_law toy_write toy_read (\<lambda>_ _. True) (=)"
  by (simp add: handshake_law_def toy_write_def toy_read_def)

lemma handshake_pairs_sessions_witness:
  "in_step (=) (Some (new_session (Some 0) (Some 100))) (Some (new_session (Some (100 :: nat)) (Some 0))) \<and>
   in_step (=) (Some (new_session (Some 100) (Some 0))) (Some (new_session (Some 0) (Some (100 :: nat))))"
proof -
  have "responder_write toy_write () [1] = ((), Inr ([7, 1], new_session (Some 100) (Some 0)))"
    and "initiator_read toy_read () [7, 1] = ((), Inr ([1], new_session (Some 0) (Some 100)))"
    by (simp_all add: responder_write_def initiator_read_def toy_write_def toy_read_def)
  from handshake_pairs_sessions [OF toy_handshake_law TrueI this] show ?thesis by simp
qed

end
