(* ===== verification/Packet_Path.thy ===== *)
theory Packet_Path
  imports Tunnel Client_Session Auth
begin

text \<open>
  The whole path of a packet between the two TUN devices: the two connections of a session as the
  programs set them up, the loops that move packets from a stream to a device
  (\<^verbatim>\<open>internal/tun/router.go\<close>, \<^verbatim>\<open>cmd/ghost-client/main.go\<close>) over the stream itself, and the bytes
  that cross the network in between.
\<close>

section \<open>Loops that read a stream\<close>

text \<open>
  A loop over \<^verbatim>\<open>stream.Read\<close>: the body gets the message or the error and says whether the loop goes on.
  A read that blocks for ever is \<open>None\<close>.
\<close>

partial_function (option) pump ::
  "'s reader \<Rightarrow> nat \<Rightarrow> (go_error + bytes \<Rightarrow> 'a \<Rightarrow> 'a \<times> bool) \<Rightarrow> 's \<Rightarrow> 'a \<Rightarrow> ('s \<times> 'a) option" where
  "pump rd n body s x =
     (case rd s n of
        None \<Rightarrow> None
      | Some (s', d, e) \<Rightarrow>
          (case body (case e of None \<Rightarrow> Inr d | Some e \<Rightarrow> Inl e) x of
             (x', goes_on) \<Rightarrow> if goes_on then pump rd n body s' x' else Some (s', x')))"

context message_queue begin

lemma pump_messages:
  assumes "inv s" and "queue s = ms" and "over s = Some e" and "\<forall>m\<in>set ms. length m \<le> n" and "P x"
    and goes_on: "\<And>m x. m \<in> set ms \<Longrightarrow> P x \<Longrightarrow> snd (body (Inr m) x) \<and> P (fst (body (Inr m) x))"
    and stops: "\<And>x. P x \<Longrightarrow> \<not> snd (body (Inl e) x)"
  shows "\<exists>s'. pump recv n body s x =
    Some (s', fst (body (Inl e) (fold (\<lambda>m x. fst (body (Inr m) x)) ms x)))"
  using assms(1-5) goes_on
proof (induction ms arbitrary: s x)
  case Nil
  then have "recv s n = Some (s, [], Some e)" by (simp add: recv_empty)
  with stops [OF Nil.prems(5)] show ?case
    by (subst pump.simps) (auto split: prod.split)
next
  case (Cons m ms)
  then obtain s1 where s1: "recv s n = Some (s1, m, None)" "inv s1" "queue s1 = ms" "over s1 = Some e"
    using recv_message [of s m ms n] by auto
  have "snd (body (Inr m) x)" "P (fst (body (Inr m) x))" using Cons.prems(5,6) by auto
  with s1 Cons.IH [OF s1(2-4), of "fst (body (Inr m) x)"] Cons.prems(4,6) show ?case
    by (subst pump.simps) (auto split: prod.split)
qed

end

text \<open>
  \<^verbatim>\<open>TunRouter.Bridge\<close> on the server: the first read, then the goroutine that moves the stream to the
  device. \<open>dev\<close> answers the device's writes.
\<close>

definition bridge_pump ::
  "nat \<Rightarrow> (bytes \<Rightarrow> go_error option) \<Rightarrow> nat \<Rightarrow> Mux_Stream.stream \<Rightarrow> router \<Rightarrow> (Mux_Stream.stream \<times> router) option" where
  "bridge_pump n dev i s r =
     pump stream_read n
       (\<lambda>res r. let r' = bridge_inbound i res (case res of Inl _ \<Rightarrow> None | Inr p \<Rightarrow> dev p) r
                in (r', br_reader (rt_bridges r' ! i))) s r"

definition serve_stream ::
  "nat \<Rightarrow> (bytes \<Rightarrow> go_error option) \<Rightarrow> Mux_Stream.stream \<Rightarrow> router \<Rightarrow>
   (Mux_Stream.stream \<times> router \<times> go_error option) option" where
  "serve_stream n dev s r =
     (case stream_read s n of
        None \<Rightarrow> None
      | Some (s1, first, e) \<Rightarrow>
          (case bridge_open (case e of None \<Rightarrow> Inr first | Some e \<Rightarrow> Inl e) (dev first) r of
             (r1, Some err) \<Rightarrow> Some (s1, r1, Some err)
           | (r1, None) \<Rightarrow>
               (case bridge_pump n dev (length (rt_bridges r)) s1 r1 of
                  None \<Rightarrow> None
                | Some (s2, r2) \<Rightarrow> Some (s2, r2, None))))"

text \<open>The stream reader of session \<open>a\<close> on the client.\<close>

definition client_pump ::
  "nat \<Rightarrow> (bytes \<Rightarrow> go_error option) \<Rightarrow> nat \<Rightarrow> Mux_Stream.stream \<Rightarrow> client \<Rightarrow> (Mux_Stream.stream \<times> client) option" where
  "client_pump n dev a s c =
     pump stream_read n
       (\<lambda>res c. let c' = stream_reader_step a res (case res of Inl _ \<Rightarrow> None | Inr p \<Rightarrow> dev p) c
                in (c', a \<in> set (cl_stream_readers c'))) s c"

section \<open>What the loops hand to the devices\<close>

lemma bridge_inbound_open:
  assumes "i < length (rt_bridges r)" and "br_reader (rt_bridges r ! i)"
  shows "bridge_inbound i (Inr p) None r =
    (if is_valid_ip_packet p then r\<lparr>rt_tun := rt_tun r @ [p]\<rparr> else r)"
  using assms by (auto simp: bridge_inbound_def Let_def is_valid_ip_packet_def)

lemma bridge_pump_delivers:
  assumes s: "stream_ok s" "inbox s = ps" "read_err s = Some e" "\<forall>p\<in>set ps. length p \<le> n"
    and r: "i < length (rt_bridges r)" "br_reader (rt_bridges r ! i)"
  shows "\<exists>s' r'. bridge_pump n (\<lambda>_. None) i s r = Some (s', r') \<and>
    rt_tun r' = rt_tun r @ filter is_valid_ip_packet ps \<and> rt_routes r' = rt_routes r \<and>
    \<not> br_reader (rt_bridges r' ! i) \<and> rt_panic r' = rt_panic r"
proof -
  let ?body = "\<lambda>res r. let r' = bridge_inbound i res (case res of Inl _ \<Rightarrow> None | Inr p \<Rightarrow> None) r
      in (r', br_reader (rt_bridges r' ! i))"
  let ?P = "\<lambda>r. i < length (rt_bridges r) \<and> br_reader (rt_bridges r ! i)"
  have step: "fst (?body (Inr p) r) = (if is_valid_ip_packet p then r\<lparr>rt_tun := rt_tun r @ [p]\<rparr> else r)"
    if "?P r" for p r
    using that by (simp add: bridge_inbound_open Let_def)
  have "\<exists>s'. pump stream_read n ?body s r =
      Some (s', fst (?body (Inl e) (fold (\<lambda>m r. fst (?body (Inr m) r)) ps r)))"
    by (rule sq.pump_messages [OF s, of ?P])
      (use r in \<open>auto simp: bridge_inbound_open Let_def bridge_inbound_def update_bridge_def\<close>)
  moreover have "fold (\<lambda>m r. fst (?body (Inr m) r)) ps r =
      r\<lparr>rt_tun := rt_tun r @ filter is_valid_ip_packet ps\<rparr>"
    using r
  proof (induction ps arbitrary: r)
    case (Cons p ps)
    with step [of r p] Cons.IH [of "fst (?body (Inr p) r)"] show ?case by simp
  qed simp
  ultimately show ?thesis
    using r by (auto simp: bridge_pump_def Let_def bridge_inbound_def update_bridge_def)
qed

lemma serve_stream_delivers:
  assumes s: "stream_ok s" "inbox s = p # ps" "read_err s = Some e" "\<forall>q\<in>set (p # ps). length q \<le> n"
    and ip: "src_ip_key p \<noteq> []"
  shows "\<exists>s' r'. serve_stream n (\<lambda>_. None) s r = Some (s', r', None) \<and>
    rt_tun r' = rt_tun r @ filter is_valid_ip_packet (p # ps) \<and>
    rt_routes r' = (rt_routes r)(src_ip_key p \<mapsto> length (rt_bridges r)) \<and> rt_panic r' = rt_panic r"
proof -
  define i where "i = length (rt_bridges r)"
  define r1 where "r1 = fst (bridge_open (Inr p) None r)"
  from sq.recv_message [OF s(1,2), of n] s(3,4) obtain s1 where
    s1: "stream_read s n = Some (s1, p, None)" "stream_ok s1" "inbox s1 = ps" "read_err s1 = Some e"
    by auto
  have opened: "bridge_open (Inr p) None r = (r1, None)"
    using ip by (simp add: r1_def bridge_open_def Let_def)
  have r1: "i < length (rt_bridges r1)" "br_reader (rt_bridges r1 ! i)"
    "rt_tun r1 = rt_tun r @ filter is_valid_ip_packet [p]"
    "rt_routes r1 = (rt_routes r)(src_ip_key p \<mapsto> i)" "rt_panic r1 = rt_panic r"
    using ip by (simp_all add: r1_def i_def bridge_open_def register_def Let_def)
  have "\<forall>q\<in>set ps. length q \<le> n" using s(4) by simp
  from bridge_pump_delivers [OF s1(2-4) this r1(1,2)] obtain s' r' where
    "bridge_pump n (\<lambda>_. None) i s1 r1 = Some (s', r')"
    "rt_tun r' = rt_tun r1 @ filter is_valid_ip_packet ps" "rt_routes r' = rt_routes r1"
    "rt_panic r' = rt_panic r1"
    by blast
  with s1(1) opened r1 show ?thesis by (simp add: serve_stream_def i_def)
qed

lemma client_pump_delivers:
  assumes s: "stream_ok s" "inbox s = ps" "read_err s = Some e" "\<forall>p\<in>set ps. length p \<le> n"
    and full: "\<forall>p\<in>set ps. p \<noteq> []" and a: "a \<in> set (cl_stream_readers c)"
  shows "\<exists>s' c'. client_pump n (\<lambda>_. None) a s c = Some (s', c') \<and> cl_tun c' = cl_tun c @ ps \<and>
    a \<notin> set (cl_stream_readers c')"
proof -
  let ?body = "\<lambda>res c. let c' = stream_reader_step a res (case res of Inl _ \<Rightarrow> None | Inr p \<Rightarrow> None) c
      in (c', a \<in> set (cl_stream_readers c'))"
  let ?P = "\<lambda>c. a \<in> set (cl_stream_readers c)"
  have "\<exists>s'. pump stream_read n ?body s c =
      Some (s', fst (?body (Inl e) (fold (\<lambda>m c. fst (?body (Inr m) c)) ps c)))"
    by (rule sq.pump_messages [OF s, of ?P]) (use a in \<open>auto simp: stream_reader_step_def Let_def\<close>)
  moreover have "fold (\<lambda>m c. fst (?body (Inr m) c)) ps c = c\<lparr>cl_tun := cl_tun c @ ps\<rparr>"
    using a full
  proof (induction ps arbitrary: c)
    case (Cons p ps)
    with Cons.IH [of "fst (?body (Inr p) c)"] show ?case by (simp add: stream_reader_step_def)
  qed simp
  ultimately show ?thesis
    using a by (auto simp: client_pump_def Let_def stream_reader_step_def)
qed

section \<open>The two ends of a session\<close>

text \<open>
  The client's connection after \<^verbatim>\<open>OpenStream\<close> in \<^verbatim>\<open>establish\<close>, and the server's as \<^verbatim>\<open>onAuth\<close> builds it. The
  bytes a side has put on the wire once its coalescer is closed, and the other side's read loop over
  the same session. A connection's writer and reader share the session.
\<close>

type_synonym 'c tunnel_end = "('c, unit, pipe_out) frame_cipher coalescer conn"

definition client_connection ::
  "'c aead \<Rightarrow> 'c session \<Rightarrow> nat Stream.stream \<Rightarrow> int \<Rightarrow> 'c tunnel_end" where
  "client_connection enc ses rnd now =
     fst (open_stream (coal_write (fc_write enc pipe_write))
       (new_conn (tunnel_writer ses rnd) True False now))"

definition server_connection :: "'c session \<Rightarrow> nat Stream.stream \<Rightarrow> int \<Rightarrow> 'c tunnel_end" where
  "server_connection ses rnd now = new_conn (tunnel_writer ses rnd) False True now"

definition wire_of :: "'c aead \<Rightarrow> 'c tunnel_end \<Rightarrow> bytes" where
  "wire_of enc c =
     pipe_sent (fc_wr (cc_inner (fst (coal_close (fc_write enc pipe_write)
       (fc_close (\<lambda>w. (pipe_close w, None))) (c_enc c)))))"

definition read_tunnel ::
  "'c aead \<Rightarrow> 'c aead \<Rightarrow> 'c session \<Rightarrow> (nat \<Rightarrow> int) \<Rightarrow> pipe_in \<Rightarrow> 'c tunnel_end \<Rightarrow>
   (('c, pipe_in, unit) frame_cipher \<times> 'c tunnel_end) option" where
  "read_tunnel enc dec ses clock rd c =
     conn_read_loop (fc_read dec pipe_read) (coal_write (fc_write enc pipe_write)) clock 0
       (new_cipher rd () (Some ses)) c"

definition stream_moves :: "'c aead \<Rightarrow> nat \<Rightarrow> client_move list \<Rightarrow> 'c tunnel_end \<Rightarrow> 'c tunnel_end" where
  "stream_moves enc a acts c = client_actions (fc_write enc pipe_write) a acts c"

lemma client_connection_simps:
  "c_heap (client_connection enc ses rnd now) = [new_stream 1]"
  "c_streams (client_connection enc ses rnd now) = [(1, 0)]"
  "conn_ok (client_connection enc ses rnd now)" "\<not> c_done (client_connection enc ses rnd now)"
  "c_enc (client_connection enc ses rnd now) =
     fst (write_frame (coal_write (fc_write enc pipe_write)) (tunnel_writer ses rnd)
       (control_frame type_stream_open 1 []))"
proof -
  have ok: "snd (write_frame (coal_write (fc_write enc pipe_write)) (tunnel_writer ses rnd)
      (control_frame type_stream_open 1 [])) = None"
    by (simp add: write_frame_def control_frame_def coal_write_def tunnel_writer_eq encode_frame_def
        Let_def max_payload_def header_size_def)
  then show "c_streams (client_connection enc ses rnd now) = [(1, 0)]"
    and "conn_ok (client_connection enc ses rnd now)"
    by (auto simp: client_connection_def open_stream_def open_register_def open_announce_def
        new_conn_def send_frame_def conn_ok_def Let_def split: prod.split if_splits)
  show "\<not> c_done (client_connection enc ses rnd now)"
    by (auto simp: client_connection_def open_stream_def open_register_def open_announce_def
        new_conn_def send_frame_def Let_def split: prod.split option.split)
qed (simp_all add: client_connection_def client_opens)

text \<open>What one side's events put on the wire reaches the other side's read loop.\<close>

lemma frames_arrive:
  assumes law: "noise_law enc dec R" and lasts: "noise_lasts enc left" and step: "R s r"
    and small: "list_all (\<lambda>f. valid_frame f \<and> length (payload f) \<le> 60132) (offered evs)"
    and nonces: "length evs < left s"
    and enc: "c_enc c = coal_run (fc_write enc pipe_write) (fc_close (\<lambda>w. (pipe_close w, None))) evs
      (tunnel_writer (new_session (Some s) t) rnd)"
    and rd: "pipe_pending rd = wire_of enc c" "in_end rd = EOF"
  shows "\<exists>r' fs. visible fs = visible (offered evs) \<and>
    conn_read_loop (fc_read dec pipe_read) wr clock k
        (new_cipher rd () (Some (new_session t' (Some r)))) c' =
      Some (r', conn_close ((dispatch_all wr c' fs clock k)\<lparr>c_close_err := Some EOF\<rparr>))"
  using tunnel_delivers_frames [OF law lasts step small nonces, where t = t and rnd = rnd and t' = t'
      and wr = wr and clock = clock and k = k and c = c'] rd
  by (simp add: wire_of_def enc coal_run_append Let_def)

lemma packet_frames:
  assumes "list_all packet_ok ps"
  shows "list_all (\<lambda>f. valid_frame f \<and> length (payload f) \<le> 60132) (map (data_frame sid) ps)"
    and "visible (map (data_frame sid) ps) = map (data_frame sid) ps"
  using assms
  by (auto simp: list_all_iff packet_ok_def valid_frame_def data_frame_def max_payload_def visible_def
      frame_type_defs)

lemma client_packets_arrive:
  assumes law: "noise_law enc dec R" and lasts: "noise_lasts enc left" and step: "R s r"
    and packets: "list_all packet_ok (packets_of acts)" and nonces: "Suc (length acts) < left s"
    and rd: "pipe_pending rd = wire_of enc (stream_moves enc 0 acts
      (client_connection enc (new_session (Some s) t) rnd now))" "in_end rd = EOF"
  shows "\<exists>r' srv. conn_read_loop (fc_read dec pipe_read) wr clock k
      (new_cipher rd () (Some (new_session t' (Some r)))) (new_conn w False True now') =
      Some (r', srv) \<and> c_done srv \<and> c_spawned srv = [0] \<and>
    stream_ok (c_heap srv ! 0) \<and> inbox (c_heap srv ! 0) = packets_of acts \<and>
    read_err (c_heap srv ! 0) = Some EOF"
proof -
  let ?wr = "fc_write enc pipe_write" and ?cls = "fc_close (\<lambda>w. (pipe_close w, None))"
  let ?c0 = "client_connection enc (new_session (Some s) t) rnd now"
  let ?evs = "Put (control_frame type_stream_open 1 []) # map (as_event 1) acts"
  have off: "offered ?evs = control_frame type_stream_open 1 [] # map (data_frame 1) (packets_of acts)"
    by (simp add: offered_events)
  have vis: "visible (offered ?evs) = offered ?evs"
    using packet_frames(2) [OF packets, of 1]
    by (simp add: offered_events visible_def control_frame_def frame_type_defs)
  have small: "list_all (\<lambda>f. valid_frame f \<and> length (payload f) \<le> 60132) (offered ?evs)"
    using packet_frames(1) [OF packets, of 1]
    by (simp add: offered_events valid_frame_def control_frame_def max_payload_def)
  have enc: "c_enc (stream_moves enc 0 acts ?c0) = coal_run ?wr ?cls ?evs (tunnel_writer (new_session (Some s) t) rnd)"
    using client_actions_events [OF packets_ok_moves [OF packets], of ?c0 0 ?wr ?cls]
    by (simp add: stream_moves_def client_connection_simps)
  have len: "length ?evs < left s" using nonces by simp
  from frames_arrive [OF law lasts step small len enc rd, where t' = t' and wr = wr and clock = clock
      and k = k and c' = "new_conn w False True now'"]
  obtain r' fs where fs: "visible fs = control_frame type_stream_open 1 [] # map (data_frame 1) (packets_of acts)"
    and run: "conn_read_loop (fc_read dec pipe_read) wr clock k
        (new_cipher rd () (Some (new_session t' (Some r)))) (new_conn w False True now') =
      Some (r', conn_close ((dispatch_all wr (new_conn w False True now') fs clock k)\<lparr>c_close_err := Some EOF\<rparr>))"
    unfolding vis [unfolded off] off by blast
  from server_receives [OF fs refl, where wr = wr and w = w and now = now' and clock = clock and k = k
      and e = "Some EOF"] run
  show ?thesis by auto
qed

lemma server_packets_arrive:
  assumes law: "noise_law enc dec R" and lasts: "noise_lasts enc left" and step: "R s r"
    and packets: "list_all packet_ok (packets_of acts)" and nonces: "length acts < left s"
    and snd: "c_enc c0 = tunnel_writer (new_session (Some s) t) rnd" "s_id (c_heap c0 ! a) = sid"
      "\<not> s_closed (c_heap c0 ! a)"
    and rcv: "conn_ok c" "\<not> c_done c" "map_of (c_streams c) sid = Some b"
      "read_err (c_heap c ! b) = None" "inbox (c_heap c ! b) = []"
    and rd: "pipe_pending rd = wire_of enc (stream_moves enc a acts c0)" "in_end rd = EOF"
  shows "\<exists>r' c'. read_tunnel enc dec (new_session t' (Some r)) clock rd c = Some (r', c') \<and>
    c_done c' \<and> stream_ok (c_heap c' ! b) \<and> inbox (c_heap c' ! b) = packets_of acts \<and>
    read_err (c_heap c' ! b) = Some EOF"
proof -
  let ?wr = "fc_write enc pipe_write" and ?cls = "fc_close (\<lambda>w. (pipe_close w, None))"
  let ?evs = "map (as_event sid) acts"
  have enc: "c_enc (stream_moves enc a acts c0) = coal_run ?wr ?cls ?evs (tunnel_writer (new_session (Some s) t) rnd)"
    using client_actions_events [OF packets_ok_moves [OF packets], of c0 a ?wr ?cls] snd
    by (simp add: stream_moves_def)
  have small: "list_all (\<lambda>f. valid_frame f \<and> length (payload f) \<le> 60132) (offered ?evs)"
    and vis: "visible (offered ?evs) = map (data_frame sid) (packets_of acts)"
    using packet_frames [OF packets] by (simp_all add: offered_events)
  have len: "length ?evs < left s" using nonces by simp
  from frames_arrive [OF law lasts step small len enc rd, where t' = t' and clock = clock and c' = c
      and wr = "coal_write ?wr" and k = 0]
  obtain r' fs where fs: "visible fs = map (data_frame sid) (packets_of acts)"
    and run: "read_tunnel enc dec (new_session t' (Some r)) clock rd c =
      Some (r', conn_close ((dispatch_all (coal_write ?wr) c fs clock 0)\<lparr>c_close_err := Some EOF\<rparr>))"
    unfolding vis read_tunnel_def by blast
  from stream_receives [OF rcv fs refl, where wr = "coal_write ?wr" and clock = clock and k = 0
      and e = "Some EOF"] run
  show ?thesis by auto
qed

section \<open>After the handshake\<close>

text \<open>The cipher states the two sides come out of the handshake with.\<close>

lemma handshake_states:
  assumes "handshake_law wr rd peers R" and "peers i r"
    and "responder_write wr r p = (r', Inr (msg2, server))"
    and "initiator_read rd i msg2 = (i', Inr (q, client))"
  obtains cs cr ss sr where "client = new_session (Some cs) (Some cr)"
    and "server = new_session (Some ss) (Some sr)" and "R cs sr" and "R ss cr"
proof -
  from assms(3) obtain a1 a2 where server: "server = new_session (Some a2) (Some a1)"
    by (auto simp: responder_write_def split: prod.splits sum.splits if_splits)
  from assms(4) obtain b1 b2 where client: "client = new_session (Some b1) (Some b2)"
    by (auto simp: initiator_read_def split: prod.splits sum.splits if_splits)
  from handshake_pairs [OF assms] have "R b1 a1" "R a2 b2"
    by (simp_all add: server client in_step_def new_session_def)
  with that [OF client server] show thesis .
qed

lemma uplink:
  assumes hs: "handshake_law wr rd peers R" "peers i hs"
      "responder_write wr hs p = (hs', Inr (msg2, server))"
      "initiator_read rd i msg2 = (i', Inr (q, client))"
    and law: "noise_law enc dec R" and lasts: "noise_lasts enc left"
    and packets: "list_all packet_ok (packets_of acts)" "packets_of acts = first # rest"
      "src_ip_key first \<noteq> []"
    and nonces: "\<forall>s\<in>set_option (ses_send client). Suc (length acts) < left s"
    and wire: "pipe_pending net =
        wire_of enc (stream_moves enc 0 acts (client_connection enc client rnd now))" "in_end net = EOF"
    and buf: "\<forall>pkt\<in>set (packets_of acts). length pkt \<le> n"
  shows "\<exists>r' srv s' rt'. read_tunnel enc dec server clock net (server_connection server rnd' now') =
      Some (r', srv) \<and> c_spawned srv = [0] \<and>
    serve_stream n (\<lambda>_. None) (c_heap srv ! 0) rt = Some (s', rt', None) \<and>
    rt_tun rt' = rt_tun rt @ filter is_valid_ip_packet (packets_of acts) \<and>
    rt_routes rt' = (rt_routes rt)(src_ip_key first \<mapsto> length (rt_bridges rt))"
proof -
  from handshake_states [OF hs] obtain cs cr ss sr where
    keys: "client = new_session (Some cs) (Some cr)" "server = new_session (Some ss) (Some sr)" "R cs sr" .
  have "Suc (length acts) < left cs" using nonces by (simp add: keys new_session_def)
  from client_packets_arrive [OF law lasts keys(3) packets(1) this wire [unfolded keys(1)],
      where wr = "coal_write (fc_write enc pipe_write)" and clock = clock and k = 0
      and t' = "Some ss" and w = "tunnel_writer server rnd'" and now' = now']
  obtain r' srv where srv: "read_tunnel enc dec server clock net (server_connection server rnd' now') = Some (r', srv)"
      "c_spawned srv = [0]"
    and str: "stream_ok (c_heap srv ! 0)" "inbox (c_heap srv ! 0) = first # rest"
      "read_err (c_heap srv ! 0) = Some EOF"
    by (auto simp: read_tunnel_def server_connection_def keys(2) packets(2))
  from serve_stream_delivers [OF str, of n rt] buf packets(3) srv show ?thesis
    unfolding packets(2) by blast
qed

text \<open>
  from the client's packets to the server's device. After the handshake, the client opens its
  stream and writes packets, with the flush timer and the cover ticker firing at any time and any
  random padding, and closes the coalescer; the network may cut the sealed bytes anywhere. Then the
  server's read loop ends with one stream for its callback; the callback, \<^verbatim>\<open>TunRouter.Bridge\<close>, ends without error,
  has written to the TUN device exactly the valid IP packets among those the client wrote, in
  order, each once, and has entered the source address of the first one in the routing table.
\<close>

theorem uplink_reaches_the_device:
  assumes hs: "handshake_law wr rd peers R" "peers i hs"
      "responder_write wr hs p = (hs', Inr (msg2, server))"
      "initiator_read rd i msg2 = (i', Inr (q, client))"
    and law: "noise_law enc dec R" and lasts: "noise_lasts enc left"
    and packets: "list_all packet_ok (packets_of acts)" "packets_of acts = first # rest"
      "src_ip_key first \<noteq> []"
    and nonces: "\<forall>s\<in>set_option (ses_send client). Suc (length acts) < left s"
    and wire: "pipe_pending net =
        wire_of enc (stream_moves enc 0 acts (client_connection enc client rnd now))" "in_end net = EOF"
    and buf: "\<forall>pkt\<in>set (packets_of acts). length pkt \<le> n"
  shows "\<exists>r' srv s' rt'. read_tunnel enc dec server clock net (server_connection server rnd' now') =
      Some (r', srv) \<and> c_spawned srv = [0] \<and>
    serve_stream n (\<lambda>_. None) (c_heap srv ! 0) rt = Some (s', rt', None) \<and>
    rt_tun rt' = rt_tun rt @ filter is_valid_ip_packet (packets_of acts) \<and>
    rt_routes rt' = (rt_routes rt)(src_ip_key first \<mapsto> length (rt_bridges rt))"
  using uplink [OF assms] .

text \<open>
  from the server's device to the client's. After the handshake, what bridge \<open>b\<close> of the router has
  written to its stream, under any interleaving of device reads and sessions, is sent through the
  server's writing stack and the client's read loop over a network that cuts the bytes anywhere: the
  client's stream reader writes exactly these packets to its TUN device, in order, and they are
  packets the server's device delivered, in that order, for the address of this bridge.
\<close>

theorem downlink_reaches_the_client:
  assumes hs: "handshake_law wr rd peers R" "peers i hs"
      "responder_write wr hs p = (hs', Inr (msg2, server))"
      "initiator_read rd i msg2 = (i', Inr (q, client))"
    and law: "noise_law enc dec R" and lasts: "noise_lasts enc left"
    and b: "b < length (rt_bridges (router_run evs new_tun_router))"
    and acts: "packets_of acts = br_out (rt_bridges (router_run evs new_tun_router) ! b)"
      "list_all packet_ok (packets_of acts)"
    and nonces: "\<forall>s\<in>set_option (ses_send server). length acts < left s"
    and srv: "srv = dispatch (coal_write (fc_write enc pipe_write)) (server_connection server rnd now)
        (control_frame type_stream_open 1 []) now"
    and wire: "pipe_pending net = wire_of enc (stream_moves enc 0 acts srv)" "in_end net = EOF"
    and buf: "\<forall>pkt\<in>set (packets_of acts). length pkt \<le> n" and a: "a \<in> set (cl_stream_readers c)"
  shows "\<exists>r' conn s' c'. read_tunnel enc dec client clock net
      (client_connection enc client rnd' now') = Some (r', conn) \<and>
    client_pump n (\<lambda>_. None) a (c_heap conn ! 0) c = Some (s', c') \<and>
    cl_tun c' = cl_tun c @ packets_of acts \<and>
    subseq (packets_of acts)
      (filter (\<lambda>pkt. dst_ip_key pkt = br_key (rt_bridges (router_run evs new_tun_router) ! b)) (tun_reads evs))"
proof -
  from handshake_states [OF hs] obtain cs cr ss sr where
    keys: "client = new_session (Some cs) (Some cr)" "server = new_session (Some ss) (Some sr)" "R ss cr" .
  have nonces': "length acts < left ss" using nonces by (simp add: keys new_session_def)
  have snd: "c_enc srv = tunnel_writer (new_session (Some ss) (Some sr)) rnd"
    "s_id (c_heap srv ! 0) = 1" "\<not> s_closed (c_heap srv ! 0)"
    by (simp_all add: srv dispatch_def control_frame_def frame_type_defs server_connection_def
        new_conn_def new_stream_def keys Let_def)
  have str: "map_of (c_streams (client_connection enc client rnd' now')) 1 = Some 0"
    "read_err (c_heap (client_connection enc client rnd' now') ! 0) = None"
    "inbox (c_heap (client_connection enc client rnd' now') ! 0) = []"
    by (simp_all add: client_connection_simps new_stream_def inbox_def)
  from server_packets_arrive [OF law lasts keys(3) acts(2) nonces' snd client_connection_simps(3,4) str
      wire, where clock = clock and t' = "Some cs"]
  obtain r' conn where conn: "read_tunnel enc dec client clock net (client_connection enc client rnd' now') = Some (r', conn)"
    and got: "stream_ok (c_heap conn ! 0)" "inbox (c_heap conn ! 0) = packets_of acts"
      "read_err (c_heap conn ! 0) = Some EOF"
    by (auto simp: keys(1))
  have "\<forall>pkt\<in>set (packets_of acts). pkt \<noteq> []"
    using acts(2) by (auto simp: list_all_iff packet_ok_def)
  from client_pump_delivers [OF got buf this a] obtain s' c' where
    "client_pump n (\<lambda>_. None) a (c_heap conn ! 0) c = Some (s', c')" "cl_tun c' = cl_tun c @ packets_of acts"
    by blast
  moreover have "subseq (packets_of acts)
      (filter (\<lambda>pkt. dst_ip_key pkt = br_key (rt_bridges (router_run evs new_tun_router) ! b)) (tun_reads evs))"
    using session_ok_land [OF session_okI [OF router_reach b]] unfolding acts(1) session_ok_def
    by (auto intro: subseq_prefixD)
  ultimately show ?thesis using conn by blast
qed

section \<open>Concrete runs\<close>

lemma toy_session:
  "responder_write toy_write () [] = ((), Inr ([7], new_session (Some 100) (Some 0)))"
  "initiator_read toy_read () [7] = ((), Inr ([], new_session (Some 0) (Some 100)))"
  by (simp_all add: responder_write_def initiator_read_def toy_write_def toy_read_def)

lemma tag_lasts: "noise_lasts tag_enc (\<lambda>k. 6 + (0 :: nat) * k)"
  by (simp add: noise_lasts_def tag_enc_def)

definition ping_packet :: bytes where
  "ping_packet = ip4 [10, 7, 0, 2] [1, 1, 1, 1]"

lemma ping_packet_simps:
  "packet_ok ping_packet" "src_ip_key ping_packet = [10, 7, 0, 2]" "is_valid_ip_packet ping_packet"
  "length ping_packet = 20" "ping_packet \<noteq> []"
  by (simp_all add: ping_packet_def packet_ok_def) (simp_all add: ip4_def)

lemma uplink_reaches_the_device_witness:
  "\<exists>net r' srv s' rt'. read_tunnel tag_enc tag_dec (new_session (Some 100) (Some 0)) (\<lambda>_. 0) net
      (server_connection (new_session (Some 100) (Some 0)) (sconst 5) 0) = Some (r', srv) \<and>
    serve_stream 1600 (\<lambda>_. None) (c_heap srv ! 0) new_tun_router = Some (s', rt', None) \<and>
    rt_tun rt' = [ping_packet] \<and> rt_routes rt' [10, 7, 0, 2] = Some 0"
proof -
  let ?acts = "[Cover, Send ping_packet, Fire, Send [9]]"
  let ?c = "client_connection tag_enc (new_session (Some 0) (Some 100)) (sconst 3) 0"
  define W where "W = fst (coal_close (fc_write tag_enc pipe_write) (fc_close (\<lambda>w. (pipe_close w, None)))
    (c_enc (stream_moves tag_enc 0 ?acts ?c)))"
  have wire: "pipe_pending (pipe_join (fc_wr (cc_inner W))) = wire_of tag_enc (stream_moves tag_enc 0 ?acts ?c)"
    "in_end (pipe_join (fc_wr (cc_inner W))) = EOF"
    by (simp_all add: wire_of_def W_def)
  have ps: "packets_of ?acts = [ping_packet, [9]]" by (simp add: packets_of_def)
  have "list_all packet_ok (packets_of ?acts)" "src_ip_key ping_packet \<noteq> []"
    "\<forall>s\<in>set_option (ses_send (new_session (Some 0) (Some 100))). Suc (length ?acts) < 6 + (0 :: nat) * s"
    "\<forall>pkt\<in>set (packets_of ?acts). length pkt \<le> 1600"
    by (simp_all add: ps ping_packet_simps new_session_def) (simp add: packet_ok_def)
  note up = uplink_reaches_the_device [OF toy_handshake_law TrueI toy_session tag_law tag_lasts this(1) ps
      this(2,3) wire this(4), where rnd' = "sconst 5" and now' = 0 and clock = "\<lambda>_. 0" and rt = new_tun_router]
  have "filter is_valid_ip_packet [ping_packet, [9]] = [ping_packet]"
    by (simp add: ping_packet_simps) (simp add: is_valid_ip_packet_def ip_version_def)
  with up show ?thesis
    unfolding ps by (fastforce simp: new_tun_router_def ping_packet_simps)
qed

lemma downlink_reaches_the_client_witness:
  "\<exists>net r' conn s' c'. read_tunnel tag_enc tag_dec (new_session (Some 0) (Some 100)) (\<lambda>_. 0) net
      (client_connection tag_enc (new_session (Some 0) (Some 100)) (sconst 3) 0) = Some (r', conn) \<and>
    client_pump 1600 (\<lambda>_. None) 0 (c_heap conn ! 0) (client_start False) = Some (s', c') \<and>
    cl_tun c' = [ip4 [8, 8, 8, 8] [10, 7, 0, 2]]"
proof -
  let ?p = "ip4 [8, 8, 8, 8] [10, 7, 0, 2]"
  let ?acts = "[Cover, Send ?p, Fire]"
  let ?srv = "dispatch (coal_write (fc_write tag_enc pipe_write))
    (server_connection (new_session (Some 100) (Some 0)) (sconst 5) 0)
    (control_frame type_stream_open 1 []) 0"
  define W where "W = fst (coal_close (fc_write tag_enc pipe_write) (fc_close (\<lambda>w. (pipe_close w, None)))
    (c_enc (stream_moves tag_enc 0 ?acts ?srv)))"
  have wire: "pipe_pending (pipe_join (fc_wr (cc_inner W))) = wire_of tag_enc (stream_moves tag_enc 0 ?acts ?srv)"
    "in_end (pipe_join (fc_wr (cc_inner W))) = EOF"
    by (simp_all add: wire_of_def W_def)
  have ps: "packets_of ?acts = [?p]" by (simp add: packets_of_def)
  have b: "0 < length (rt_bridges (router_run two_clients new_tun_router))"
    and out: "packets_of ?acts = br_out (rt_bridges (router_run two_clients new_tun_router) ! 0)"
    by (simp_all add: ps two_clients_def router_eval)
  have "list_all packet_ok (packets_of ?acts)"
    "\<forall>s\<in>set_option (ses_send (new_session (Some 100) (Some 0))). length ?acts < 6 + (0 :: nat) * s"
    "\<forall>pkt\<in>set (packets_of ?acts). length pkt \<le> 1600"
    "0 \<in> set (cl_stream_readers (client_start False))"
    by (simp_all add: ps packet_ok_def new_session_def client_start_def) (simp_all add: ip4_def)
  from downlink_reaches_the_client [OF toy_handshake_law TrueI toy_session tag_law tag_lasts b out
      this(1,2) refl wire this(3,4), where rnd' = "sconst 3" and now' = 0 and clock = "\<lambda>_. 0"]
  show ?thesis unfolding ps by (fastforce simp: client_start_def)
qed

end
