(* ===== verification/Composition.thy ===== *)
theory Composition
  imports Packet_Path
begin

text \<open>
  What the two running programs share. A program composes its components: \<open>component\<close> states
  what it owes each of them. One end of a session is a connection over its writing stack: what its steps do to it
  (\<open>conn_grows\<close>, \<open>conn_closes\<close>), that it frees the readers of its streams when it ends (\<open>conn_frees\<close>),
  how much an ended stream still yields, and the steps of its goroutines (\<open>end_step\<close>) with what each makes
  the coalescer do (\<open>end_sends\<close>).
\<close>

section \<open>Components of a composition\<close>

text \<open>
  What a composed program owes a component \<open>part\<close> of its state: every step is a step of the component or
  leaves it alone. Then its runs are runs of the component, and its invariants hold.
\<close>

locale component =
  fixes initial :: 'g
    and step :: "'v \<Rightarrow> 'g \<Rightarrow> 'g"
    and part :: "'g \<Rightarrow> 's"
    and start :: 's
    and act :: "'e \<Rightarrow> 's \<Rightarrow> 's"
  assumes part_initial: "part initial = start"
    and part_step: "part (step v g) = part g \<or> (\<exists>e. part (step v g) = act e (part g))"
begin

lemma runs: "\<exists>es. part (fold step vs initial) = fold act es start"
proof (induction vs rule: rev_induct)
  case Nil
  show ?case by (rule exI [of _ "[]"]) (simp add: part_initial)
next
  case (snoc v vs)
  then obtain es where es: "part (fold step vs initial) = fold act es start" by blast
  from part_step [of v "fold step vs initial"] show ?case
  proof
    assume "part (step v (fold step vs initial)) = part (fold step vs initial)"
    with es show ?thesis by auto
  next
    assume "\<exists>e. part (step v (fold step vs initial)) = act e (part (fold step vs initial))"
    then obtain e where "part (step v (fold step vs initial)) = act e (part (fold step vs initial))" ..
    with es show ?thesis by (intro exI [of _ "es @ [e]"]) simp
  qed
qed

lemma keeps:
  assumes "P start" and "\<And>e s. P s \<Longrightarrow> P (act e s)"
  shows "P (part (fold step vs initial))"
proof -
  have "P (fold act es start)" for es
    using assms(1) by (induction es rule: rev_induct) (simp_all add: assms(2))
  with runs [of vs] show ?thesis by metis
qed

end

section \<open>Closing an end of a session\<close>

text \<open>What both programs close of a session's connection: the multiplexer, then the coalescer.\<close>

definition close_end :: "'c aead \<Rightarrow> 'c tunnel_end \<Rightarrow> 'c tunnel_end" where
  "close_end enc c =
     (let c1 = conn_close c
      in c1\<lparr>c_enc := fst (coal_close (fc_write enc pipe_write)
              (fc_close (\<lambda>w. (pipe_close w, None))) (c_enc c1))\<rparr>)"

lemma close_end_simps [simp]:
  "c_heap (close_end enc c) = c_heap (conn_close c)" "c_done (close_end enc c) = c_done (conn_close c)"
  "c_streams (close_end enc c) = c_streams (conn_close c)" "c_spawned (close_end enc c) = c_spawned (conn_close c)"
  by (simp_all add: close_end_def Let_def)

section \<open>A connection that frees its readers\<close>

text \<open>Every stream object has met its end, or the connection still knows it and will tell it.\<close>

definition conn_frees :: "'w conn \<Rightarrow> bool" where
  "conn_frees c \<longleftrightarrow>
     (\<forall>a < length (c_heap c). read_err (c_heap c ! a) \<noteq> None \<or>
        \<not> c_done c \<and> map_of (c_streams c) (s_id (c_heap c ! a)) = Some a)"

lemma conn_frees_new: "conn_frees (new_conn w client cb now)"
  by (simp add: conn_frees_def new_conn_def)

lemma conn_frees_same:
  assumes "conn_frees c" and "c_done c' = c_done c" and "c_streams c' = c_streams c"
    and "length (c_heap c') = length (c_heap c)"
    and "\<And>a. a < length (c_heap c) \<Longrightarrow> s_id (c_heap c' ! a) = s_id (c_heap c ! a) \<and>
      read_err (c_heap c' ! a) = read_err (c_heap c ! a)"
  shows "conn_frees c'"
  using assms by (simp add: conn_frees_def)

lemma conn_frees_enc [simp]: "conn_frees (c\<lparr>c_enc := w\<rparr>) = conn_frees c"
  "conn_frees (c\<lparr>c_close_err := e\<rparr>) = conn_frees c" "conn_frees (c\<lparr>c_ping_sent := t\<rparr>) = conn_frees c"
  "conn_frees (c\<lparr>c_last_pong := t\<rparr>) = conn_frees c" "conn_frees (c\<lparr>c_spawned := sp\<rparr>) = conn_frees c"
  by (simp_all add: conn_frees_def)

lemma deliver_simps [simp]:
  "s_id (deliver_data s d) = s_id s" "read_err (deliver_data s d) = read_err s"
  "s_id (deliver_err s e) = s_id s" "read_err (deliver_err s e) \<noteq> None"
  by (auto simp: deliver_data_def deliver_err_def)

lemma conn_frees_close:
  assumes "conn_frees c"
  shows "conn_frees (conn_close c)"
proof (cases "c_done c")
  case False
  have "read_err (c_heap (conn_close c) ! a) \<noteq> None" if "a < length (c_heap c)" for a
  proof (cases "a \<in> snd ` set (c_streams c)")
    case True
    with that False show ?thesis by (simp add: conn_close_def end_streams_nth split: option.split)
  next
    case other: False
    then have "map_of (c_streams c) (s_id (c_heap c ! a)) \<noteq> Some a"
      using map_of_SomeD by force
    with that False other assms show ?thesis by (auto simp: conn_close_def end_streams_nth conn_frees_def)
  qed
  with False show ?thesis by (simp add: conn_frees_def conn_close_def)
qed (use assms in \<open>simp add: conn_close_def\<close>)

lemma conn_frees_dispatch:
  assumes ok: "conn_ok c" and c: "conn_frees c"
    and open_fresh: "ftype f = type_stream_open \<Longrightarrow> map_of (c_streams c) (stream_id f) = None \<and> \<not> c_done c"
  shows "conn_frees (dispatch wr c f now)"
proof -
  consider (data) "ftype f = type_data" | (opened) "ftype f = type_stream_open"
    | (closed) "ftype f = type_stream_close"
    | (other) "ftype f \<notin> {type_data, type_stream_open, type_stream_close}"
    by blast
  then show ?thesis
  proof cases
    case data
    show ?thesis
    proof (cases "map_of (c_streams c) (stream_id f)")
      case (Some a)
      with data conn_okD(1) [OF ok Some] show ?thesis
        by (auto simp: dispatch_def nth_list_update intro!: conn_frees_same [OF c])
    qed (use data c in \<open>simp add: dispatch_def\<close>)
  next
    case opened
    then have "ftype f \<noteq> type_data" by (simp add: frame_type_defs)
    with opened open_fresh [OF opened] c show ?thesis
      by (auto simp: dispatch_def Let_def conn_frees_def nth_append update_conv' new_stream_def less_Suc_eq)
  next
    case closed
    then have kind: "ftype f \<noteq> type_data" "ftype f \<noteq> type_stream_open" by (simp_all add: frame_type_defs)
    show ?thesis
    proof (cases "map_of (c_streams c) (stream_id f)")
      case None
      with closed kind c show ?thesis
        by (auto simp: dispatch_def conn_frees_def delete_conv')
    next
      case (Some a)
      with closed kind c conn_okD [OF ok Some] show ?thesis
        by (auto simp: dispatch_def conn_frees_def delete_conv' nth_list_update split: option.split)
    qed
  next
    case other
    with c show ?thesis by (auto simp: dispatch_def send_frame_def split: prod.split)
  qed
qed

section \<open>The steps of a connection\<close>

text \<open>What a step other than a close does to a connection, and what a close does; \<open>polite\<close> is for peers
  that open streams as they should.\<close>

definition conn_grows :: "bool \<Rightarrow> 'w conn \<Rightarrow> 'w conn \<Rightarrow> bool" where
  "conn_grows polite c c' \<longleftrightarrow> conn_ok c' \<and> c_done c' = c_done c \<and> length (c_heap c) \<le> length (c_heap c') \<and>
     (polite \<longrightarrow> conn_frees c \<longrightarrow> conn_frees c')"

definition conn_closes :: "bool \<Rightarrow> 'w conn \<Rightarrow> 'w conn \<Rightarrow> bool" where
  "conn_closes polite c c' \<longleftrightarrow> conn_ok c' \<and> c_done c' \<and> length (c_heap c) \<le> length (c_heap c') \<and>
     (polite \<longrightarrow> conn_frees c \<longrightarrow> conn_frees c')"

lemma dispatch_done: "c_done (dispatch wr c f now) = c_done c"
  by (auto simp: dispatch_def Let_def send_frame_def split: option.split prod.split)

lemma dispatch_heap: "length (c_heap c) \<le> length (c_heap (dispatch wr c f now))"
  by (auto simp: dispatch_def Let_def send_frame_def split: option.split prod.split)

lemma dispatch_spawned:
  "a \<in> set (drop (length (c_spawned c)) (c_spawned (dispatch wr c f now))) \<Longrightarrow>
   a < length (c_heap (dispatch wr c f now))"
  by (auto simp: dispatch_def Let_def send_frame_def split: option.splits prod.splits if_splits)

lemma conn_grows_dispatch:
  assumes "conn_ok c" and "polite \<Longrightarrow> ftype f = type_stream_open \<Longrightarrow> map_of (c_streams c) (stream_id f) = None \<and> \<not> c_done c"
  shows "conn_grows polite c (dispatch wr c f now)"
  using assms conn_frees_dispatch [of c f wr now]
  by (simp add: conn_grows_def conn_ok_dispatch dispatch_done dispatch_heap)

lemma conn_grows_enc: "conn_ok c \<Longrightarrow> conn_grows polite c (c\<lparr>c_enc := w\<rparr>)"
  by (simp add: conn_grows_def)

lemma conn_grows_sends:
  assumes "conn_ok c"
  shows "conn_grows polite c (fst (send_ping wr c rnd))"
    and "conn_grows polite c (fst (send_padding wr c n rnd'))"
  using assms conn_grows_enc [OF assms]
  by (auto simp: send_ping_def send_padding_def send_frame_def conn_grows_def split: sum.split prod.split)

lemma conn_grows_read:
  assumes "conn_ok c" and "a < length (c_heap c)" and "conn_stream_read c a n = Some (c', d, e)"
  shows "conn_grows polite c c'"
proof -
  obtain s' where s': "stream_read (c_heap c ! a) n = Some (s', d, e)" "c' = c\<lparr>c_heap := (c_heap c)[a := s']\<rparr>"
    using assms(3) by (auto simp: conn_stream_read_def split: option.splits)
  then have "s_id s' = s_id (c_heap c ! a)" "read_err s' = read_err (c_heap c ! a)"
    by (auto simp: stream_read_def Let_def split: if_splits list.splits)
  with s'(2) assms(2) have "conn_frees c \<longrightarrow> conn_frees c'"
    by (auto simp: nth_list_update intro: conn_frees_same)
  with s'(2) conn_ok_stream_ops(1) [OF assms(1,2,3)] show ?thesis by (simp add: conn_grows_def)
qed

lemma conn_closes_close: "conn_ok c \<Longrightarrow> conn_closes polite c (conn_close (c\<lparr>c_close_err := e\<rparr>))"
  by (simp add: conn_closes_def conn_ok_close conn_frees_close) (simp add: conn_close_def)

lemma conn_closes_end:
  assumes "conn_ok c"
  shows "conn_closes polite c (close_end enc c)"
  using conn_closes_close [OF assms, of polite "c_close_err c"]
  by (simp add: close_end_def conn_closes_def Let_def)

lemma conn_ping_round:
  assumes "conn_ok c" and "ping_round wr c now rnd now' = (c', gone)"
  shows "if gone then conn_closes polite c c' else conn_grows polite c c'"
proof -
  have enc: "conn_grows polite c (c\<lparr>c_enc := w, c_ping_sent := t\<rparr>)"
    and close: "conn_closes polite c (conn_close (c\<lparr>c_enc := w, c_close_err := e\<rparr>))" for w t e
    using assms(1) conn_closes_close [of "c\<lparr>c_enc := w\<rparr>" polite e]
    by (simp_all add: conn_grows_def conn_closes_def)
  have "conn_closes polite c (conn_close (c\<lparr>c_close_err := e\<rparr>))" for e
    using conn_closes_close [OF assms(1)] .
  with assms(2) enc close show ?thesis
    by (auto simp: ping_round_def ping_send_def send_ping_def ping_stamp_def dest!: send_frameD
        split: prod.splits option.splits sum.splits if_splits bool.splits)
qed

section \<open>Reading a stream\<close>

lemma stream_read_data:
  assumes "stream_ok s" and "stream_read s n = Some (s', d, None)"
  shows "\<exists>m ms. inbox s = m # ms \<and> d = take n m"
proof (cases "inbox s")
  case Nil
  with assms(2) stream_read_empty [OF Nil, of n] show ?thesis by (cases "read_err s") auto
next
  case (Cons m ms)
  with sq.recv_message [OF assms(1) Cons, of n] assms(2) show ?thesis by auto
qed

text \<open>A stream that has met its end yields what is left in it, at least a byte at a time, and then the end.\<close>

definition left_to_read :: "Mux_Stream.stream \<Rightarrow> nat" where
  "left_to_read s = sum_list (map (\<lambda>m. Suc (length m)) (inbox s))"

lemma ended_stream_read:
  assumes "stream_ok s" and "read_err s = Some e" and "0 < n"
  shows "\<exists>s' d e'. stream_read s n = Some (s', d, e') \<and> stream_ok s' \<and> read_err s' = Some e \<and>
    (e' = None \<longrightarrow> left_to_read s' < left_to_read s)"
proof (cases "inbox s")
  case Nil
  with assms stream_read_empty [OF Nil, of n] show ?thesis by auto
next
  case (Cons m ms)
  with sq.recv_message [OF assms(1) Cons, of n] assms(2,3) show ?thesis
    by (fastforce simp: left_to_read_def)
qed

section \<open>The goroutines of one end\<close>

text \<open>
  The goroutines of one connection: its read loop, its ping loop, the flush timer and the cover ticker of its
  coalescer, and the two loops of its shaper. The flag says that the connection has ended.
\<close>

datatype end_event =
    End_frame frame int
  | End_read_end go_error
  | End_ping int "go_error + bytes" int
  | End_timer bool
  | End_keepalive "go_error + bytes"
  | End_padding int "nat \<Rightarrow> go_error + bytes"

fun end_step :: "'c aead \<Rightarrow> end_event \<Rightarrow> 'c tunnel_end \<Rightarrow> 'c tunnel_end \<times> bool" where
  "end_step enc (End_frame f now) c = (dispatch (end_writer enc) c f now, False)"
| "end_step enc (End_read_end e) c = (conn_close (c\<lparr>c_close_err := Some e\<rparr>), True)"
| "end_step enc (End_ping now rnd now') c = ping_round (end_writer enc) c now rnd now'"
| "end_step enc (End_timer cover) c =
     (c\<lparr>c_enc := (if cover then cover_tick else timer_flush) (fc_write enc pipe_write) (c_enc c)\<rparr>, False)"
| "end_step enc (End_keepalive rnd) c = (fst (send_ping (end_writer enc) c rnd), False)"
| "end_step enc (End_padding n rnd) c = (fst (send_padding (end_writer enc) c n rnd), False)"

text \<open>A peer that opens each stream id once, and none after the end.\<close>

fun end_opens_fresh :: "end_event \<Rightarrow> 'c tunnel_end \<Rightarrow> bool" where
  "end_opens_fresh (End_frame f now) c =
     (ftype f \<noteq> type_stream_open \<or> map_of (c_streams c) (stream_id f) = None \<and> \<not> c_done c)"
| "end_opens_fresh ev c = True"

lemma end_step_spawned:
  assumes "end_step enc ev c = (c', gone)" and "a \<in> set (drop (length (c_spawned c)) (c_spawned c'))"
  shows "a < length (c_heap c')"
proof (cases ev)
  case (End_frame f now)
  with assms dispatch_spawned [of a c "end_writer enc" f now] show ?thesis by auto
next
  case (End_ping now rnd now')
  with assms have "c_spawned c' = c_spawned c"
    by (auto simp: ping_round_def ping_send_def ping_stamp_def send_ping_def conn_close_def dest!: send_frameD
        split: prod.splits option.splits sum.splits if_splits bool.splits)
  with assms(2) show ?thesis by simp
qed (use assms in \<open>auto simp: conn_close_def send_ping_def send_padding_def send_frame_def split: sum.splits prod.splits if_splits\<close>)

text \<open>Every step but an end leaves the connection open.\<close>

lemma end_step_moves:
  assumes okc: "conn_ok c" and fresh: "polite \<Longrightarrow> end_opens_fresh ev c"
    and step: "end_step enc ev c = (c', gone)"
  shows "if gone then conn_closes polite c c' else conn_grows polite c c'"
proof (cases ev)
  case (End_ping now rnd now')
  with step conn_ping_round [OF okc] show ?thesis by simp
qed (use step fresh okc in \<open>auto simp: conn_grows_sends conn_grows_enc conn_closes_close intro!: conn_grows_dispatch\<close>)

lemma coal_closed_same [simp]:
  "cc_closed (fst (coal_write wr c p)) = cc_closed c" "cc_closed (timer_flush wr c) = cc_closed c"
  "cc_closed (cover_tick wr c) = cc_closed c"
proof -
  have fl: "cc_closed (fst (flush_locked wr cov c)) = cc_closed c" for cov and c :: "'a coalescer"
    by (auto simp: flush_locked_def emit_buf_def Let_def split: prod.split)
  then have "cc_closed c' = cc_closed d" if "flush_locked wr cov d = (c', e)" for cov e c' and d :: "'a coalescer"
    using that by (metis fst_conv)
  then show "cc_closed (fst (coal_write wr c p)) = cc_closed c"
    by (auto simp: coal_write_def Let_def split: prod.split option.split)
  from fl show "cc_closed (timer_flush wr c) = cc_closed c" "cc_closed (cover_tick wr c) = cc_closed c"
    by (simp_all add: timer_flush_def cover_tick_def Let_def)
qed

lemma write_frame_closed [simp]: "cc_closed (fst (write_frame (coal_write wr) c f)) = cc_closed c"
proof (cases "coal_write wr c (encode_frame f)")
  case (fields c' n e)
  then have "cc_closed c' = cc_closed c" by (metis coal_closed_same(1) fst_conv)
  with fields show ?thesis by (simp add: write_frame_def)
qed

lemma coal_close_closed [simp]: "cc_closed (fst (coal_close wr cls c))"
  by (auto simp: coal_close_def Let_def split: prod.split)

lemma deliver_own [simp]: "s_closed (deliver_data s d) = s_closed s" "s_closed (deliver_err s e) = s_closed s"
  by (simp_all add: deliver_data_def deliver_err_def)

lemma dispatch_heap_cases:
  "c_heap (dispatch wr c f now) = c_heap c \<or> c_heap (dispatch wr c f now) = c_heap c @ [new_stream (stream_id f)] \<or>
   (\<exists>a. c_heap (dispatch wr c f now) = (c_heap c)[a := deliver_data (c_heap c ! a) (payload f)]) \<or>
   (\<exists>a. c_heap (dispatch wr c f now) = (c_heap c)[a := deliver_err (c_heap c ! a) EOF])"
  by (auto simp: dispatch_def Let_def split: option.split)

text \<open>A step keeps the stream objects' ids, closes none at this end, and makes only open ones.\<close>

definition same_streams :: "'w conn \<Rightarrow> 'w conn \<Rightarrow> bool" where
  "same_streams c c' \<longleftrightarrow>
     length (c_heap c) \<le> length (c_heap c') \<and>
     (\<forall>a < length (c_heap c'). if a < length (c_heap c)
        then s_id (c_heap c' ! a) = s_id (c_heap c ! a) \<and> s_closed (c_heap c' ! a) = s_closed (c_heap c ! a)
        else \<not> s_closed (c_heap c' ! a))"

lemma same_streamsD:
  assumes "same_streams c c'"
  shows "length (c_heap c) \<le> length (c_heap c')"
    and "a < length (c_heap c) \<Longrightarrow> s_id (c_heap c' ! a) = s_id (c_heap c ! a) \<and>
      s_closed (c_heap c' ! a) = s_closed (c_heap c ! a)"
    and "length (c_heap c) \<le> a \<Longrightarrow> a < length (c_heap c') \<Longrightarrow> \<not> s_closed (c_heap c' ! a)"
  using assms by (auto simp: same_streams_def split: if_splits)

lemma same_streams_heap: "c_heap c' = c_heap c \<Longrightarrow> same_streams c c'"
  by (simp add: same_streams_def)

lemma nth_update_same: "f x = f (xs ! i) \<Longrightarrow> f (xs[i := x] ! j) = f (xs ! j)"
  by (cases "i < length xs"; cases "i = j") (simp_all add: list_update_beyond)

lemma same_streams_update:
  assumes "c_heap c' = (c_heap c)[a := s]" and "s_id s = s_id (c_heap c ! a)" and "s_closed s = s_closed (c_heap c ! a)"
  shows "same_streams c c'"
  using nth_update_same [of s_id, OF assms(2)] nth_update_same [of s_closed, OF assms(3)]
  by (simp add: same_streams_def assms(1))

lemma stream_read_own:
  "stream_read s n = Some (s', d, e) \<Longrightarrow> s_id s' = s_id s \<and> s_closed s' = s_closed s"
  by (auto simp: stream_read_def Let_def split: if_splits list.splits)

lemma same_streams_read:
  assumes "conn_stream_read c a n = Some (c', d, e)"
  shows "same_streams c c' \<and> c_enc c' = c_enc c"
proof -
  obtain s' where s': "stream_read (c_heap c ! a) n = Some (s', d, e)" "c' = c\<lparr>c_heap := (c_heap c)[a := s']\<rparr>"
    using assms by (auto simp: conn_stream_read_def split: option.splits)
  then show ?thesis using stream_read_own [OF s'(1)] by (auto intro: same_streams_update [of _ _ a s'])
qed

lemma same_streams_dispatch: "same_streams c (dispatch wr c f now)"
  using dispatch_heap_cases [of wr c f now]
proof (elim disjE exE)
  assume "c_heap (dispatch wr c f now) = c_heap c @ [new_stream (stream_id f)]"
  then show ?thesis by (simp add: same_streams_def nth_append new_stream_def)
qed (auto intro: same_streams_heap same_streams_update)

lemma same_streams_close: "same_streams c (conn_close c)"
  by (auto simp: same_streams_def conn_close_def end_streams_nth)

lemma conn_close_own:
  "c_heap c \<noteq> [] \<Longrightarrow> c_heap (conn_close c) \<noteq> [] \<and>
   s_id (c_heap (conn_close c) ! 0) = s_id (c_heap c ! 0) \<and>
   s_closed (c_heap (conn_close c) ! 0) = s_closed (c_heap c ! 0)"
  using same_streamsD(1) [OF same_streams_close [of c]] same_streamsD(2) [OF same_streams_close, of 0 c] by auto

text \<open>What a step of the connection makes its coalescer do.\<close>

fun end_sends :: "end_event \<Rightarrow> 'w conn \<Rightarrow> coal_event list" where
  "end_sends (End_frame f now) c =
     (if ftype f = type_ping then [Put (control_frame type_pong 0 (payload f))] else [])"
| "end_sends (End_read_end e) c = []"
| "end_sends (End_ping now rnd now') c =
     (if ping_overdue c now then []
      else case rnd of Inl e \<Rightarrow> [] | Inr cookie \<Rightarrow> [Put (control_frame type_ping 0 cookie)])"
| "end_sends (End_timer cover) c = [if cover then Cover_tick else Timer_fire]"
| "end_sends (End_keepalive rnd) c =
     (case rnd of Inl e \<Rightarrow> [] | Inr cookie \<Rightarrow> [Put (control_frame type_ping 0 cookie)])"
| "end_sends (End_padding n rnd) c =
     (if n \<le> 0 \<or> int max_payload < n then []
      else case rnd (nat n) of Inl e \<Rightarrow> [] | Inr p \<Rightarrow> [Put (control_frame type_padding 0 p)])"

lemma send_frame_eq:
  "send_frame wr c f = (c\<lparr>c_enc := fst (write_frame wr (c_enc c) f)\<rparr>, snd (write_frame wr (c_enc c) f))"
  by (simp add: send_frame_def split: prod.split)

lemma conn_close_enc [simp]: "c_enc (conn_close c) = c_enc c"
  by (simp add: conn_close_def)

lemma end_step_enc:
  "c_enc (fst (end_step enc ev c)) = coal_run (fc_write enc pipe_write) cls (end_sends ev c) (c_enc c)"
proof (cases ev)
  case (End_frame f now)
  then show ?thesis
    by (auto simp: dispatch_def Let_def send_frame_eq frame_type_defs split: option.split)
next
  case (End_ping now rnd now')
  then show ?thesis
    by (auto simp: ping_round_def ping_send_def ping_stamp_def send_ping_def send_frame_eq
        split: sum.split option.split)
qed (auto simp: send_ping_def send_padding_def send_frame_eq split: sum.split)

lemma coal_run_closed:
  "cc_closed (coal_run wr cls evs c) \<longleftrightarrow> Shut \<in> set evs \<or> cc_closed c"
proof (induction evs arbitrary: c)
  case (Cons ev evs)
  then show ?case by (cases ev) auto
qed simp

lemma end_sends_open: "Shut \<notin> set (end_sends ev c)"
  by (cases ev) (auto split: sum.split)

lemma end_step_streams:
  assumes step: "end_step enc ev c = (c', gone)"
  shows "same_streams c c'"
proof -
  have "c_heap c' = c_heap c \<or> c_heap c' = c_heap (conn_close c) \<or> (\<exists>f now. c_heap c' = c_heap (dispatch (end_writer enc) c f now))"
  proof (cases ev)
    case (End_ping now rnd now')
    with step show ?thesis
      by (auto simp: ping_round_def ping_send_def ping_stamp_def send_ping_def send_frame_eq conn_close_def
          split: sum.splits option.splits if_splits prod.splits)
  qed (use step in \<open>auto simp: send_ping_def send_padding_def send_frame_eq conn_close_def split: sum.splits\<close>)
  with same_streams_close [of c] same_streams_dispatch [of c "end_writer enc"] show ?thesis
    by (auto simp: same_streams_def)
qed

lemma end_step_own:
  assumes "end_step enc ev c = (c', gone)" and "c_heap c \<noteq> []"
  shows "c_heap c' \<noteq> [] \<and> s_id (c_heap c' ! 0) = s_id (c_heap c ! 0) \<and>
    s_closed (c_heap c' ! 0) = s_closed (c_heap c ! 0)"
  using same_streamsD(1) [OF end_step_streams [OF assms(1)]] same_streamsD(2) [OF end_step_streams [OF assms(1)], of 0]
    assms(2) by auto

end
