(* ===== verification/Client_End.thy ===== *)
theory Client_End
  imports Composition
begin

text \<open>
  The running client, \<^verbatim>\<open>cmd/ghost-client/main.go\<close>: the session manager of \<open>Client_Session\<close> and, for each session it
  sets up, the connection of \<open>Mux_Conn\<close> over its writing stack. What the writer goroutine learns of its
  packet is what the active session's stream answers, a stream reader reads what its stream holds, a session
  dies when its connection ends, and closing one closes its connection. Shown here: the session manager inside the
  running client makes only its own steps (\<open>client_moves\<close>), and sessions and connections agree in every run
  (\<open>client_end_ok\<close>).
\<close>

section \<open>State\<close>

text \<open>
  \<open>ce_conns\<close> has the connection of each session, by its number, and \<open>ce_keys\<close> what it was built from: what
  the handshake yielded and the random numbers of its coalescer.
\<close>

record 'c client_end =
  ce_client :: client
  ce_conns :: "'c tunnel_end list"
  ce_keys :: "('c session \<times> nat Stream.stream) list"

text \<open>The client once its first session is set up.\<close>

definition client_end_start ::
  "'c aead \<Rightarrow> bool \<Rightarrow> 'c session \<Rightarrow> nat Stream.stream \<Rightarrow> int \<Rightarrow> 'c client_end" where
  "client_end_start enc rotating ses rnd now =
     \<lparr>ce_client = client_start rotating, ce_conns = [client_connection enc ses rnd now],
      ce_keys = [(ses, rnd)]\<rparr>"

section \<open>One session\<close>

text \<open>
  The stream that \<^verbatim>\<open>OpenStream\<close> returned to \<^verbatim>\<open>establish\<close> is the connection's first object. \<^verbatim>\<open>tunnelSession.close\<close> on
  it: the stream, the multiplexer, the coalescer.
\<close>

definition tunnel_stream :: nat where
  "tunnel_stream = 0"

definition session_close_end :: "'c aead \<Rightarrow> 'c tunnel_end \<Rightarrow> 'c tunnel_end" where
  "session_close_end enc c = close_end enc (fst (conn_stream_close (end_writer enc) c tunnel_stream))"

text \<open>
  The end of \<^verbatim>\<open>establish\<close>: \<open>res\<close> is what came of it up to the Noise handshake; a new connection opens its stream.
\<close>

definition establish_end ::
  "'c aead \<Rightarrow> go_error + 'c session \<Rightarrow> nat Stream.stream \<Rightarrow> int \<Rightarrow> go_error + 'c session \<times> 'c tunnel_end" where
  "establish_end enc res rnd now =
     (case res of
        Inl e \<Rightarrow> Inl e
      | Inr ses \<Rightarrow>
          (case open_stream (end_writer enc) (new_conn (tunnel_writer ses rnd) True False now) of
             (c, Inr a) \<Rightarrow> Inr (ses, c)
           | (c, Inl e) \<Rightarrow> Inl (Wrapf ''open stream: %w'' e)))"

section \<open>Operations\<close>

definition ce_end :: "'c aead \<Rightarrow> nat \<Rightarrow> end_event \<Rightarrow> 'c client_end \<Rightarrow> 'c client_end" where
  "ce_end enc i ev g =
     (if length (ce_conns g) \<le> i then g
      else case end_step enc ev (ce_conns g ! i) of
        (c', gone) \<Rightarrow>
          g\<lparr>ce_client := (if gone then session_dies i (ce_client g) else ce_client g),
            ce_conns := (ce_conns g)[i := c']\<rparr>)"

text \<open>One attempt of the writer on the active session.\<close>

definition ce_write :: "'c aead \<Rightarrow> 'c client_end \<Rightarrow> 'c client_end" where
  "ce_write enc g =
     (case (cl_writer (ce_client g), cl_active (ce_client g)) of
        (Trying pkt n, Some a) \<Rightarrow>
          if 3 \<le> n then g\<lparr>ce_client := writer_try None (ce_client g)\<rparr>
          else
            (case conn_stream_write (end_writer enc) (ce_conns g ! a) tunnel_stream pkt of
               (c', m, e) \<Rightarrow>
                 g\<lparr>ce_client := writer_try e (ce_client g), ce_conns := (ce_conns g)[a := c']\<rparr>)
      | _ \<Rightarrow> g\<lparr>ce_client := writer_try None (ce_client g)\<rparr>)"

text \<open>One iteration of the stream reader of session \<open>a\<close>, which may block.\<close>

definition ce_read :: "nat \<Rightarrow> nat \<Rightarrow> go_error option \<Rightarrow> 'c client_end \<Rightarrow> 'c client_end" where
  "ce_read a n werr g =
     (if a \<notin> set (cl_stream_readers (ce_client g)) \<or> length (ce_conns g) \<le> a then g
      else case conn_stream_read (ce_conns g ! a) tunnel_stream n of
        None \<Rightarrow> g
      | Some (c', d, e) \<Rightarrow>
          g\<lparr>ce_client := stream_reader_step a (case e of None \<Rightarrow> Inr d | Some e \<Rightarrow> Inl e) werr (ce_client g),
            ce_conns := (ce_conns g)[a := c']\<rparr>)"

definition ce_established ::
  "'c aead \<Rightarrow> (go_error option \<Rightarrow> client \<Rightarrow> client) \<Rightarrow> go_error + 'c session \<Rightarrow> nat Stream.stream \<Rightarrow> int \<Rightarrow>
   'c client_end \<Rightarrow> 'c client_end" where
  "ce_established enc result res rnd now g =
     (case establish_end enc res rnd now of
        Inl e \<Rightarrow> g\<lparr>ce_client := result (Some e) (ce_client g)\<rparr>
      | Inr (ses, c) \<Rightarrow>
          g\<lparr>ce_client := result None (ce_client g), ce_conns := ce_conns g @ [c], ce_keys := ce_keys g @ [(ses, rnd)]\<rparr>)"

definition ce_rotate_result ::
  "'c aead \<Rightarrow> go_error + 'c session \<Rightarrow> nat Stream.stream \<Rightarrow> int \<Rightarrow> 'c client_end \<Rightarrow> 'c client_end" where
  "ce_rotate_result enc res rnd now g =
     (case cl_rotation (ce_client g) of
        Establishing sid \<Rightarrow> ce_established enc rotate_result res rnd now g
      | _ \<Rightarrow> g)"

definition ce_watchdog_result ::
  "'c aead \<Rightarrow> go_error + 'c session \<Rightarrow> nat Stream.stream \<Rightarrow> int \<Rightarrow> 'c client_end \<Rightarrow> 'c client_end" where
  "ce_watchdog_result enc res rnd now g =
     (case cl_watchdog (ce_client g) of
        Establishing sid \<Rightarrow> ce_established enc watchdog_result res rnd now g
      | _ \<Rightarrow> g)"

text \<open>Closing session \<open>a\<close>: the second close of a session does nothing.\<close>

definition ce_close :: "'c aead \<Rightarrow> nat \<Rightarrow> 'c client_end \<Rightarrow> 'c client_end" where
  "ce_close enc a g =
     (if ts_closed (cl_sessions (ce_client g) ! a) then g
      else g\<lparr>ce_conns := (ce_conns g)[a := session_close_end enc (ce_conns g ! a)]\<rparr>)"

definition ce_grace_over :: "'c aead \<Rightarrow> nat \<Rightarrow> 'c client_end \<Rightarrow> 'c client_end" where
  "ce_grace_over enc a g =
     (if a \<in> set (cl_graces (ce_client g))
      then (ce_close enc a g)\<lparr>ce_client := grace_over a (ce_client g)\<rparr> else g)"

definition ce_watchdog_swap :: "'c aead \<Rightarrow> 'c client_end \<Rightarrow> 'c client_end" where
  "ce_watchdog_swap enc g =
     (case (cl_watchdog (ce_client g), cl_active (ce_client g)) of
        (Holding b, Some old) \<Rightarrow> (ce_close enc old g)\<lparr>ce_client := watchdog_swap (ce_client g)\<rparr>
      | _ \<Rightarrow> g\<lparr>ce_client := watchdog_swap (ce_client g)\<rparr>)"

definition ce_shutdown :: "'c aead \<Rightarrow> 'c client_end \<Rightarrow> 'c client_end" where
  "ce_shutdown enc g =
     (case cl_active (ce_client g) of
        Some a \<Rightarrow>
          if \<not> cl_cancelled (ce_client g) \<or> cl_tun_cancel (ce_client g) then g
          else (ce_close enc a g)\<lparr>ce_client := client_shutdown (ce_client g)\<rparr>
      | None \<Rightarrow> g\<lparr>ce_client := client_shutdown (ce_client g)\<rparr>)"

datatype 'c client_end_event =
    Ce_tun_read "go_error + bytes"
  | Ce_take
  | Ce_write
  | Ce_read nat nat "go_error option"
  | Ce_end nat end_event
  | Ce_rotate_due bool
  | Ce_rotate_result "go_error + 'c session" "nat Stream.stream" int
  | Ce_rotate_swap
  | Ce_grace_over nat
  | Ce_watchdog_tick bool int
  | Ce_watchdog_result "go_error + 'c session" "nat Stream.stream" int
  | Ce_watchdog_swap
  | Ce_cancel
  | Ce_shutdown

definition on_client :: "client_event \<Rightarrow> 'c client_end \<Rightarrow> 'c client_end" where
  "on_client ev g = g\<lparr>ce_client := client_step ev (ce_client g)\<rparr>"

fun client_end_step :: "'c aead \<Rightarrow> 'c client_end_event \<Rightarrow> 'c client_end \<Rightarrow> 'c client_end" where
  "client_end_step enc (Ce_tun_read res) g = on_client (Client_tun_read res) g"
| "client_end_step enc Ce_take g = on_client Writer_take g"
| "client_end_step enc Ce_write g = ce_write enc g"
| "client_end_step enc (Ce_read a n werr) g = ce_read a n werr g"
| "client_end_step enc (Ce_end i ev) g = ce_end enc i ev g"
| "client_end_step enc (Ce_rotate_due timer) g = on_client (Rotate_due timer) g"
| "client_end_step enc (Ce_rotate_result res rnd now) g = ce_rotate_result enc res rnd now g"
| "client_end_step enc Ce_rotate_swap g = on_client Rotate_swap g"
| "client_end_step enc (Ce_grace_over a) g = ce_grace_over enc a g"
| "client_end_step enc (Ce_watchdog_tick timer now) g = on_client (Watchdog_tick timer now) g"
| "client_end_step enc (Ce_watchdog_result res rnd now) g = ce_watchdog_result enc res rnd now g"
| "client_end_step enc Ce_watchdog_swap g = ce_watchdog_swap enc g"
| "client_end_step enc Ce_cancel g = on_client Cancel_context g"
| "client_end_step enc Ce_shutdown g = ce_shutdown enc g"

section \<open>The session manager inside the running client\<close>

text \<open>Every step of the client is a step of its session manager or leaves it alone.\<close>

lemma ce_close_client [simp]:
  "ce_client (ce_close enc a g) = ce_client g" "ce_keys (ce_close enc a g) = ce_keys g"
  "length (ce_conns (ce_close enc a g)) = length (ce_conns g)"
  by (simp_all add: ce_close_def)

definition manager_moves :: "bytes list \<Rightarrow> client \<Rightarrow> client \<Rightarrow> bool" where
  "manager_moves ps c c' \<longleftrightarrow> c' = c \<and> ps = [] \<or> (\<exists>e. c' = client_step e c \<and> client_reads [e] = ps)"

lemma manager_moves_step: "client_reads [e] = ps \<Longrightarrow> manager_moves ps c (client_step e c)"
  by (auto simp: manager_moves_def)

lemma manager_movesI:
  "manager_moves [] c c" "manager_moves [] c (writer_try e c)" "manager_moves [] c (stream_reader_step a res werr c)"
  "manager_moves [] c (session_dies a c)" "manager_moves [] c (grace_over a c)"
  "manager_moves [] c (rotate_result err c)" "manager_moves [] c (watchdog_result err c)"
  "manager_moves [] c (watchdog_swap c)" "manager_moves [] c (client_shutdown c)"
  by (simp add: manager_moves_def)
    (simp_all only: client_step.simps [symmetric], simp_all add: manager_moves_step client_reads_def
      del: client_step.simps)

definition device_read :: "'c client_end_event \<Rightarrow> bytes list" where
  "device_read ev = (case ev of Ce_tun_read (Inr p) \<Rightarrow> [p] | _ \<Rightarrow> [])"

lemma client_moves: "manager_moves (device_read ev) (ce_client g) (ce_client (client_end_step enc ev g))"
proof (cases ev)
  case Ce_write
  then show ?thesis
    by (auto simp: device_read_def ce_write_def manager_movesI split: writer_state.split option.split prod.split)
qed (auto simp: device_read_def on_client_def ce_read_def ce_end_def ce_rotate_result_def ce_watchdog_result_def
    ce_established_def ce_grace_over_def ce_watchdog_swap_def ce_shutdown_def manager_movesI manager_moves_step
    client_reads_def
    simp del: client_step.simps split: option.split prod.split renewer.split sum.split)

interpretation manager: component "client_end_start enc rotating ses rnd now" "client_end_step enc" ce_client
    "client_start rotating" client_step
  for enc :: "'c aead" and rotating ses rnd now
  using client_moves unfolding manager_moves_def by unfold_locales (auto simp: client_end_start_def)

lemma client_run_fold: "client_run evs c = fold client_step evs c"
  by (induction evs arbitrary: c) (simp_all del: client_step.simps)

lemma client_end_inv: "client_inv (ce_client (fold (client_end_step enc) evs (client_end_start enc rotating ses rnd now)))"
  by (rule manager.keeps [of client_inv, OF client_inv_start client_inv_step])

section \<open>The connections of the running client\<close>

text \<open>
  A connection and its session agree: the multiplexer is done when the session is dead, stream and coalescer are
  closed when the session is; the session's stream is the first object and has id 1.
\<close>

definition end_ok :: "bool \<Rightarrow> 'c tunnel_end \<Rightarrow> tunnel_session \<Rightarrow> bool" where
  "end_ok polite c s \<longleftrightarrow>
     conn_ok c \<and> c_heap c \<noteq> [] \<and> s_id (c_heap c ! tunnel_stream) = 1 \<and> c_done c = ts_mux_done s \<and>
     s_closed (c_heap c ! tunnel_stream) = ts_closed s \<and> cc_closed (c_enc c) = ts_closed s \<and>
     (polite \<longrightarrow> conn_frees c)"

lemma end_ok_enc:
  "end_ok polite c s \<Longrightarrow> cc_closed w = cc_closed (c_enc c) \<Longrightarrow> end_ok polite (c\<lparr>c_enc := w\<rparr>) s"
  by (simp add: end_ok_def)

lemma end_ok_close:
  assumes "end_ok polite c s"
  shows "end_ok polite (conn_close (c\<lparr>c_close_err := e\<rparr>)) (s\<lparr>ts_mux_done := True\<rparr>)"
proof -
  have "c_enc (conn_close (c\<lparr>c_close_err := e\<rparr>)) = c_enc c" by (simp add: conn_close_def)
  with assms conn_closes_close [of c polite e] conn_close_own [of "c\<lparr>c_close_err := e\<rparr>"] show ?thesis
    by (simp add: end_ok_def conn_closes_def tunnel_stream_def)
qed

lemma end_ok_step:
  assumes ok: "end_ok polite c s" and fresh: "polite \<Longrightarrow> end_opens_fresh ev c"
    and step: "end_step enc ev c = (c', gone)"
  shows "end_ok polite c' (if gone then s\<lparr>ts_mux_done := True\<rparr> else s)"
proof -
  have c': "c' = fst (end_step enc ev c)" using step by simp
  have enc: "cc_closed (c_enc c') = cc_closed (c_enc c)"
    unfolding c' end_step_enc [of enc ev c "\<lambda>w. (w, None)"] coal_run_closed using end_sends_open by blast
  have okc: "conn_ok c" using ok by (simp add: end_ok_def)
  have own: "c_heap c' \<noteq> [] \<and> s_id (c_heap c' ! 0) = s_id (c_heap c ! 0) \<and>
      s_closed (c_heap c' ! 0) = s_closed (c_heap c ! 0)"
    using ok end_step_own [OF step] by (simp add: end_ok_def)
  have "if gone then conn_closes polite c c' else conn_grows polite c c'"
    using end_step_moves [OF okc fresh step] .
  with ok own enc show ?thesis by (auto simp: end_ok_def conn_closes_def conn_grows_def tunnel_stream_def split: if_splits)
qed

lemma establish_end_eq:
  "establish_end enc (Inr ses) rnd now = Inr (ses, client_connection enc ses rnd now)"
  "establish_end enc (Inl e) rnd now = Inl e"
proof -
  have "snd (write_frame (end_writer enc) (tunnel_writer ses rnd) (control_frame type_stream_open 1 [])) = None"
    by (simp add: write_frame_def control_frame_def coal_write_def tunnel_writer_eq encode_frame_def
        Let_def max_payload_def header_size_def)
  then show "establish_end enc (Inr ses) rnd now = Inr (ses, client_connection enc ses rnd now)"
    by (simp add: establish_end_def client_connection_def open_stream_def open_register_def open_announce_def
        send_frame_eq new_conn_def)
qed (simp add: establish_end_def)

lemma client_connection_open: "cc_closed (c_enc (client_connection enc ses rnd now)) = False"
  by (simp add: client_connection_simps) (simp add: tunnel_writer_eq)

lemma end_ok_new: "end_ok polite (client_connection enc ses rnd now) (new_tunnel_session sid)"
  by (simp add: end_ok_def client_connection_open)
    (simp add: client_connection_simps conn_frees_def new_tunnel_session_def tunnel_stream_def)

lemma write_chunks_closed: "cc_closed (fst (write_chunks (coal_write wr) w sid p tot)) = cc_closed w"
proof (induction p arbitrary: w tot rule: chunk_induct)
  case (chunk p)
  obtain w' e where w: "write_frame (coal_write wr) w (data_frame sid (take max_payload p)) = (w', e)" by fastforce
  then have "cc_closed w' = cc_closed w" by (metis fst_conv write_frame_closed)
  with w chunk show ?case by (simp add: write_chunks_Cons split: option.split)
qed simp

lemma end_ok_write:
  assumes "end_ok polite c s" and "conn_stream_write (end_writer enc) c a p = (c', n, e)"
  shows "end_ok polite c' s"
  using assms write_chunks_closed [of "fc_write enc pipe_write" "c_enc c" "s_id (c_heap c ! a)" p 0]
  by (auto simp: conn_stream_write_def stream_write_def split: prod.splits if_splits intro: end_ok_enc)

lemma end_ok_read:
  assumes "end_ok polite c s" and read: "conn_stream_read c tunnel_stream n = Some (c', d, e)"
  shows "end_ok polite c' s"
proof -
  have own: "c_heap c \<noteq> []" using assms(1) by (simp add: end_ok_def)
  from read obtain t where t: "stream_read (c_heap c ! 0) n = Some (t, d, e)" "c' = c\<lparr>c_heap := (c_heap c)[0 := t]\<rparr>"
    by (auto simp: conn_stream_read_def tunnel_stream_def split: option.splits)
  have "conn_grows polite c c'"
    using assms own by (intro conn_grows_read [OF _ _ read]) (auto simp: end_ok_def tunnel_stream_def)
  with assms(1) t own stream_read_own [OF t(1)] show ?thesis
    by (simp add: end_ok_def conn_grows_def tunnel_stream_def)
qed

text \<open>\<^verbatim>\<open>tunnelSession.close\<close> on an open session.\<close>

lemma session_close_end_simps:
  assumes "\<not> s_closed (c_heap c ! 0)" and "s_id (c_heap c ! 0) = 1"
  shows "c_enc (session_close_end enc c) = coal_run (fc_write enc pipe_write) (fc_close (\<lambda>w. (pipe_close w, None)))
      [Put (close_frame 1), Shut] (c_enc c)"
  using assms by (simp add: session_close_end_def close_end_def conn_stream_close_def stream_close_def
      tunnel_stream_def Let_def split: prod.split)

lemma end_ok_session_close:
  assumes ok: "end_ok polite c s" and opn: "\<not> ts_closed s"
  shows "end_ok polite (session_close_end enc c) (session_close s)"
proof -
  let ?c1 = "fst (conn_stream_close (end_writer enc) c tunnel_stream)"
  let ?t = "deliver_err ((c_heap c ! 0)\<lparr>s_closed := True\<rparr>) EOF"
  have own: "c_heap c \<noteq> []" "\<not> s_closed (c_heap c ! 0)" "s_id (c_heap c ! 0) = 1" "conn_ok c"
    using ok opn by (simp_all add: end_ok_def tunnel_stream_def)
  have heap: "c_heap ?c1 = (c_heap c)[0 := ?t]" "c_done ?c1 = c_done c" "c_streams ?c1 = c_streams c"
    using own(2) by (simp_all add: conn_stream_close_def stream_close_def tunnel_stream_def Let_def split: prod.split)
  have okc: "conn_ok ?c1" using conn_ok_stream_ops(3) [OF own(4)] own(1) by (simp add: tunnel_stream_def)
  have frees: "polite \<longrightarrow> conn_frees ?c1"
    using ok own(1) by (auto simp: end_ok_def conn_frees_def heap nth_list_update)
  have end1: "conn_closes polite ?c1 (session_close_end enc c)"
    using conn_closes_end [OF okc, of polite enc] by (simp add: session_close_end_def)
  have "c_heap ?c1 \<noteq> []" using own(1) by (simp add: heap)
  from conn_close_own [OF this] own have own1: "c_heap (session_close_end enc c) \<noteq> []"
    "s_id (c_heap (session_close_end enc c) ! 0) = 1" "s_closed (c_heap (session_close_end enc c) ! 0)"
    by (simp_all add: session_close_end_def heap)
  have "cc_closed (c_enc (session_close_end enc c))"
    by (simp add: session_close_end_simps [OF own(2,3)])
  with end1 own1 frees opn show ?thesis
    by (simp add: end_ok_def conn_closes_def tunnel_stream_def session_close_def)
qed

text \<open>Every session of the running client with its connection.\<close>

definition client_end_ok :: "bool \<Rightarrow> 'c client_end \<Rightarrow> bool" where
  "client_end_ok polite g \<longleftrightarrow>
     length (ce_conns g) = length (cl_sessions (ce_client g)) \<and> length (ce_keys g) = length (ce_conns g) \<and>
     (\<forall>i < length (ce_conns g). end_ok polite (ce_conns g ! i) (cl_sessions (ce_client g) ! i))"

fun peer_opens_fresh :: "'c client_end_event \<Rightarrow> 'c client_end \<Rightarrow> bool" where
  "peer_opens_fresh (Ce_end i ev) g \<longleftrightarrow> length (ce_conns g) \<le> i \<or> end_opens_fresh ev (ce_conns g ! i)"
| "peer_opens_fresh ev g \<longleftrightarrow> True"

lemma client_end_okD:
  assumes "client_end_ok polite g"
  shows "length (ce_conns g) = length (cl_sessions (ce_client g))" and "length (ce_keys g) = length (ce_conns g)"
    and "i < length (ce_conns g) \<Longrightarrow> end_ok polite (ce_conns g ! i) (cl_sessions (ce_client g) ! i)"
  using assms by (simp_all add: client_end_ok_def)

lemma client_end_ok_update:
  assumes "client_end_ok polite g" and "length ss = length (ce_conns g)"
    and "end_ok polite c (ss ! i)" and "\<And>j. j < length ss \<Longrightarrow> j \<noteq> i \<Longrightarrow> ss ! j = cl_sessions (ce_client g) ! j"
    and "cl_sessions c1 = ss"
  shows "client_end_ok polite (g\<lparr>ce_client := c1, ce_conns := (ce_conns g)[i := c]\<rparr>)"
proof -
  have "end_ok polite ((ce_conns g)[i := c] ! j) (ss ! j)" if "j < length (ce_conns g)" for j
    using that assms by (cases "j = i") (simp_all add: client_end_ok_def)
  with assms(1,2,5) show ?thesis by (simp add: client_end_ok_def)
qed

lemma client_end_ok_same:
  "client_end_ok polite g \<Longrightarrow> cl_sessions c = cl_sessions (ce_client g) \<Longrightarrow>
   client_end_ok polite (g\<lparr>ce_client := c\<rparr>)"
  by (simp add: client_end_ok_def)

lemma client_end_ok_add:
  assumes "client_end_ok polite g" and "cl_sessions c = cl_sessions (ce_client g) @ [new_tunnel_session sid]"
  shows "client_end_ok polite (g\<lparr>ce_client := c, ce_conns := ce_conns g @ [client_connection enc ses rnd now],
    ce_keys := ce_keys g @ [(ses, rnd)]\<rparr>)"
  using assms by (auto simp: client_end_ok_def nth_append less_Suc_eq end_ok_new)

lemma client_sessions_same:
  "cl_sessions (writer_try res c) = cl_sessions c" "cl_sessions (stream_reader_step a r werr c) = cl_sessions c"
  "cl_sessions (client_tun_read r c) = cl_sessions c" "cl_sessions (writer_take c) = cl_sessions c"
  "cl_sessions (rotate_due timer c) = cl_sessions c" "cl_sessions (rotate_swap c) = cl_sessions c"
  "cl_sessions (watchdog_tick timer now c) = cl_sessions c" "cl_sessions (cancel_context c) = cl_sessions c"
  "cl_sessions (rotate_result (Some e) c) = cl_sessions c" "cl_sessions (watchdog_result (Some e) c) = cl_sessions c"
  by (auto simp: writer_try_def stream_reader_step_def client_tun_read_def writer_take_def rotate_due_def
      rotate_swap_def watchdog_tick_def cancel_context_def rotate_result_def watchdog_result_def next_id_def Let_def
      split: writer_state.split option.split sum.split list.split renewer.split)

lemma client_end_ok_close:
  assumes ok: "client_end_ok polite g" and a: "a < length (ce_conns g)"
    and ss: "cl_sessions c = (cl_sessions (ce_client g))[a := session_close (cl_sessions (ce_client g) ! a)]"
  shows "client_end_ok polite ((ce_close enc a g)\<lparr>ce_client := c\<rparr>)"
proof (cases "ts_closed (cl_sessions (ce_client g) ! a)")
  case True
  then have "session_close (cl_sessions (ce_client g) ! a) = cl_sessions (ce_client g) ! a"
    by (simp add: session_close_def)
  with ok ss True show ?thesis by (simp add: ce_close_def client_end_ok_same)
next
  case False
  have "client_end_ok polite (g\<lparr>ce_client := c, ce_conns := (ce_conns g)[a := session_close_end enc (ce_conns g ! a)]\<rparr>)"
    using client_end_okD(1) [OF ok] a end_ok_session_close [OF client_end_okD(3) [OF ok a] False]
    by (intro client_end_ok_update [OF ok _ _ _ ss]) simp_all
  with False show ?thesis by (cases g) (simp add: ce_close_def)
qed

lemma client_end_ok_end:
  assumes ok: "client_end_ok polite g" and fresh: "polite \<Longrightarrow> peer_opens_fresh (Ce_end i ev) g"
  shows "client_end_ok polite (ce_end enc i ev g)"
proof (cases "i < length (ce_conns g)")
  case True
  obtain c' gone where st: "end_step enc ev (ce_conns g ! i) = (c', gone)" by fastforce
  let ?s = "cl_sessions (ce_client g) ! i"
  have ok': "end_ok polite c' (if gone then ?s\<lparr>ts_mux_done := True\<rparr> else ?s)"
    using end_ok_step [OF client_end_okD(3) [OF ok True] _ st] fresh True by simp
  have "client_end_ok polite (g\<lparr>ce_client := (if gone then session_dies i (ce_client g) else ce_client g),
      ce_conns := (ce_conns g)[i := c']\<rparr>)"
    using client_end_okD(1) [OF ok] True ok'
    by (intro client_end_ok_update [OF ok _ _ _ refl]) (auto simp: session_dies_def)
  with True st show ?thesis by (simp add: ce_end_def)
qed (use ok in \<open>simp add: ce_end_def\<close>)

lemma client_end_ok_write:
  assumes ok: "client_end_ok polite g"
  shows "client_end_ok polite (ce_write enc g)"
proof -
  have *: "client_end_ok polite (g\<lparr>ce_client := writer_try e (ce_client g), ce_conns := (ce_conns g)[a := c']\<rparr>)"
    if "conn_stream_write (end_writer enc) (ce_conns g ! a) tunnel_stream pkt = (c', m, e)" for a pkt c' m e
  proof (cases "a < length (ce_conns g)")
    case True
    with ok end_ok_write [OF client_end_okD(3) [OF ok True] that] show ?thesis
      by (intro client_end_ok_update [OF ok]) (simp_all add: client_sessions_same client_end_okD(1))
  next
    case False
    have "client_end_ok polite (g\<lparr>ce_client := writer_try e (ce_client g)\<rparr>)"
      using ok by (rule client_end_ok_same) (simp add: client_sessions_same)
    with False show ?thesis by (cases g) (simp add: list_update_beyond)
  qed
  show ?thesis
    using * ok by (auto simp: ce_write_def client_end_ok_same client_sessions_same
        split: writer_state.split option.split prod.split)
qed

lemma client_end_ok_read:
  assumes ok: "client_end_ok polite g"
  shows "client_end_ok polite (ce_read a n werr g)"
proof (cases "a \<notin> set (cl_stream_readers (ce_client g)) \<or> length (ce_conns g) \<le> a")
  case False
  then have a: "a < length (ce_conns g)" by simp
  have "client_end_ok polite (g\<lparr>ce_client := stream_reader_step a r werr (ce_client g), ce_conns := (ce_conns g)[a := c']\<rparr>)"
    if "conn_stream_read (ce_conns g ! a) tunnel_stream n = Some (c', d, e)" for c' d e r
    using ok end_ok_read [OF client_end_okD(3) [OF ok a] that]
    by (intro client_end_ok_update [OF ok]) (simp_all add: client_sessions_same client_end_okD(1))
  with False ok show ?thesis by (auto simp: ce_read_def split: option.split)
qed (use ok in \<open>auto simp: ce_read_def\<close>)

lemma client_end_ok_established:
  assumes ok: "client_end_ok polite g"
    and fails: "\<And>e. cl_sessions (result (Some e) (ce_client g)) = cl_sessions (ce_client g)"
    and adds: "cl_sessions (result None (ce_client g)) = cl_sessions (ce_client g) @ [new_tunnel_session sid]"
  shows "client_end_ok polite (ce_established enc result res rnd now g)"
  using client_end_ok_same [OF ok fails] client_end_ok_add [OF ok adds]
  by (cases res) (simp_all add: ce_established_def establish_end_eq)

lemma client_end_ok_step:
  assumes ok: "client_end_ok polite g" and inv: "client_inv (ce_client g)"
    and fresh: "polite \<Longrightarrow> peer_opens_fresh ev g"
  shows "client_end_ok polite (client_end_step enc ev g)"
proof -
  have len: "length (ce_conns g) = length (cl_sessions (ce_client g))" using client_end_okD(1) [OF ok] .
  have known: "a < length (ce_conns g)"
    if "cl_active (ce_client g) = Some a \<or> a \<in> set (cl_graces (ce_client g))" for a
    using that inv len by (auto simp: client_inv_def known_def)
  show ?thesis
  proof (cases ev)
    case (Ce_end i e)
    with client_end_ok_end [OF ok] fresh show ?thesis by simp
  next
    case (Ce_rotate_result res rnd now)
    have "client_end_ok polite (ce_established enc rotate_result res rnd now g)"
      if "cl_rotation (ce_client g) = Establishing sid" for sid
      by (rule client_end_ok_established [OF ok, where sid = sid])
        (use that in \<open>simp_all add: rotate_result_def add_session_def client_sessions_same\<close>)
    with Ce_rotate_result ok show ?thesis by (simp add: ce_rotate_result_def split: renewer.split)
  next
    case (Ce_watchdog_result res rnd now)
    have "client_end_ok polite (ce_established enc watchdog_result res rnd now g)"
      if "cl_watchdog (ce_client g) = Establishing sid" for sid
      by (rule client_end_ok_established [OF ok, where sid = sid])
        (use that in \<open>simp_all add: watchdog_result_def add_session_def client_sessions_same\<close>)
    with Ce_watchdog_result ok show ?thesis by (simp add: ce_watchdog_result_def split: renewer.split)
  next
    case (Ce_grace_over a)
    have "client_end_ok polite ((ce_close enc a g)\<lparr>ce_client := grace_over a (ce_client g)\<rparr>)"
      if "a \<in> set (cl_graces (ce_client g))"
      using that known [of a] by (intro client_end_ok_close [OF ok]) (simp_all add: grace_over_def close_number_def)
    with Ce_grace_over ok show ?thesis by (simp add: ce_grace_over_def)
  next
    case Ce_watchdog_swap
    have "client_end_ok polite ((ce_close enc a g)\<lparr>ce_client := watchdog_swap (ce_client g)\<rparr>)"
      if "cl_watchdog (ce_client g) = Holding b" "cl_active (ce_client g) = Some a" for a b
      using that known [of a] by (intro client_end_ok_close [OF ok]) (simp_all add: watchdog_swap_def close_number_def Let_def)
    with Ce_watchdog_swap ok show ?thesis
      by (auto simp: ce_watchdog_swap_def watchdog_swap_def Let_def
          intro: client_end_ok_same split: renewer.split option.split)
  next
    case Ce_shutdown
    have "client_end_ok polite ((ce_close enc a g)\<lparr>ce_client := client_shutdown (ce_client g)\<rparr>)"
      if "cl_cancelled (ce_client g)" "\<not> cl_tun_cancel (ce_client g)" "cl_active (ce_client g) = Some a" for a
      using that known [of a] by (intro client_end_ok_close [OF ok]) (simp_all add: client_shutdown_def close_number_def Let_def)
    with Ce_shutdown ok show ?thesis
      by (auto simp: ce_shutdown_def client_shutdown_def Let_def intro: client_end_ok_same split: option.split)
  qed (use ok in \<open>auto simp: on_client_def client_sessions_same client_end_ok_write client_end_ok_read
      intro!: client_end_ok_same\<close>)
qed

end
