(* ===== verification/Conversation.thy ===== *)
theory Conversation
  imports Composition
begin

text \<open>
  What one end of a session says: the frames it may offer its coalescer besides the DATA of its streams
  (\<open>chatter\<close>), that the goroutines of a connection offer nothing else (\<open>quiet_sends\<close>), and what the
  environment may do so that all of it can be sealed (\<open>modest_end\<close>). Shared by the runs of both programs.
\<close>

definition chatter :: "frame \<Rightarrow> bool" where
  "chatter f \<longleftrightarrow> small_frame f \<and> ftype f \<in> {type_data, type_ping, type_pong, type_padding}"

definition is_data :: "frame \<Rightarrow> bool" where
  "is_data f \<longleftrightarrow> ftype f = type_data"

definition quiet :: "coal_event list \<Rightarrow> bool" where
  "quiet es \<longleftrightarrow> list_all (\<lambda>e. case e of Put f \<Rightarrow> chatter f \<and> \<not> is_data f | Shut \<Rightarrow> False | _ \<Rightarrow> True) es"

lemma quiet_offered:
  "quiet es \<Longrightarrow> Shut \<notin> set es \<and> list_all chatter (offered es) \<and> filter is_data (offered es) = []"
  by (induction es rule: offered.induct) (auto simp: quiet_def)

lemma chatter_data: "packet_ok p \<Longrightarrow> chatter (data_frame sid p) \<and> is_data (data_frame sid p)"
  by (simp add: chatter_def small_frame_def is_data_def data_frame_def valid_frame_def packet_ok_def max_payload_def)

text \<open>What the random numbers and the peer may be: frames of a size the sealing takes.\<close>

fun modest_end :: "end_event \<Rightarrow> bool" where
  "modest_end (End_frame f now) = (ftype f = type_ping \<longrightarrow> length (payload f) \<le> 60132)"
| "modest_end (End_ping now rnd now') = (case rnd of Inl e \<Rightarrow> True | Inr p \<Rightarrow> length p \<le> 60132)"
| "modest_end (End_keepalive rnd) = (case rnd of Inl e \<Rightarrow> True | Inr p \<Rightarrow> length p \<le> 60132)"
| "modest_end (End_padding n rnd) = (case rnd (nat n) of Inl e \<Rightarrow> True | Inr p \<Rightarrow> length p \<le> 60132)"
| "modest_end ev = True"

lemma quiet_sends: "modest_end ev \<Longrightarrow> quiet (end_sends ev c)"
  by (cases ev) (auto simp: quiet_def chatter_def small_frame_def is_data_def control_frame_def valid_frame_def
      max_payload_def frame_type_defs split: sum.splits)

lemma stream_write_answer:
  assumes "packet_ok p" and "\<not> s_closed s"
  shows "snd (snd (stream_write wr w s p)) = snd (write_frame wr w (data_frame (s_id s) p))"
proof -
  have p: "p \<noteq> []" "\<not> max_payload < length p" using assms(1) by (simp_all add: packet_ok_def max_payload_def)
  show ?thesis
  proof (cases "write_frame wr w (data_frame (s_id s) p)")
    case (Pair w' e)
    with p assms(2) show ?thesis
      by (cases e)
        (simp_all add: stream_write_def write_chunks.simps [of wr w] write_chunks.simps [of _ _ _ "[]"])
  qed
qed

text \<open>What the other end's stream hears of a conversation: the payloads of its DATA, whatever PADDING is in between.\<close>

lemma conversation_heard:
  assumes vis: "visible fs = visible mid" and mid: "list_all chatter mid" "filter is_data mid = map (data_frame sid) ps"
  shows "\<forall>f\<in>set fs. ftype f \<noteq> type_stream_open \<and> ftype f \<noteq> type_stream_close"
    and "map payload (filter (\<lambda>f. ftype f = type_data \<and> stream_id f = sid) fs) = ps"
proof -
  have "ftype f \<noteq> type_stream_open \<and> ftype f \<noteq> type_stream_close" if "f \<in> set fs" for f
  proof (cases "ftype f = type_padding")
    case False
    with that have "f \<in> set (visible mid)" unfolding vis [symmetric] by (simp add: visible_def)
    with mid(1) show ?thesis by (auto simp: visible_def list_all_iff chatter_def frame_type_defs)
  qed (simp add: frame_type_defs)
  then show "\<forall>f\<in>set fs. ftype f \<noteq> type_stream_open \<and> ftype f \<noteq> type_stream_close" by blast
  have "filter is_data fs = filter is_data (visible fs)" "filter is_data mid = filter is_data (visible mid)"
    by (auto simp: visible_def is_data_def frame_type_defs intro!: filter_cong)
  with mid(2) vis have "filter is_data fs = map (data_frame sid) ps" by simp
  moreover have "filter (\<lambda>f. ftype f = type_data \<and> stream_id f = sid) fs = filter (\<lambda>f. stream_id f = sid) (filter is_data fs)"
    by (simp add: is_data_def conj_commute)
  ultimately show "map payload (filter (\<lambda>f. ftype f = type_data \<and> stream_id f = sid) fs) = ps"
    by (simp add: filter_map comp_def data_frame_def)
qed

text \<open>The keys of the concrete runs last.\<close>

lemma tag_lasts_long: "noise_lasts tag_enc (\<lambda>k. 40 + (0 :: nat) * k)"
  by (simp add: noise_lasts_def tag_enc_def)

end
