(* ===== verification/Client_Run.thy ===== *)
theory Client_Run
  imports Client_End Conversation
begin

text \<open>
  What a run of the whole client (\<open>Client_End\<close>) puts on the network. In every run each connection has made its
  coalescer a sequence of steps that says exactly what the session manager has sent over it (\<open>says\<close>,
  \<open>client_says\<close>): so the server's end of the session reads these packets (\<open>client_run_reaches_the_device\<close>). And
  what becomes of a session that has died: its reader ends, and the watchdog puts a living one in its place.
\<close>

section \<open>What a session has said\<close>

text \<open>
  The frames a connection has offered its coalescer: the STREAM_OPEN of its stream, then DATA of that
  stream, keepalives and padding, and the STREAM_CLOSE before the close. \<open>ps\<close> are the payloads of the DATA.
\<close>

definition says :: "bool \<Rightarrow> bytes list \<Rightarrow> coal_event list \<Rightarrow> bool" where
  "says closed ps evs \<longleftrightarrow>
     (Shut \<in> set evs \<longleftrightarrow> closed) \<and>
     (\<exists>mid. offered evs = control_frame type_stream_open 1 [] # mid @ (if closed then [close_frame 1] else []) \<and>
        list_all chatter mid \<and> filter is_data mid = map (data_frame 1) ps)"

lemma says_new: "says False [] [Put (control_frame type_stream_open 1 [])]"
  by (simp add: says_def)

lemma says_quiet: "says closed ps evs \<Longrightarrow> quiet es \<Longrightarrow> says closed ps (evs @ es)"
  using quiet_offered [of es] by (auto simp: says_def offered_append)

lemma says_data:
  assumes "says False ps evs" and "packet_ok p"
  shows "says False (ps @ [p]) (evs @ [Put (data_frame 1 p)])"
  using assms(1) chatter_data [OF assms(2), of 1] by (auto simp: says_def offered_append)

lemma says_close: "says False ps evs \<Longrightarrow> says True ps (evs @ [Put (close_frame 1), Shut])"
  by (auto simp: says_def offered_append)

lemma says_small: "says closed ps evs \<Longrightarrow> list_all small_frame (offered evs)"
  by (auto simp: says_def chatter_def list_all_iff small_frame_def control_frame_def close_frame_def
      valid_frame_def max_payload_def)

definition end_says ::
  "'c aead \<Rightarrow> 'c session \<times> nat Stream.stream \<Rightarrow> nat \<Rightarrow> bytes list \<Rightarrow> 'c tunnel_end \<Rightarrow> bool" where
  "end_says enc key k ps c \<longleftrightarrow>
     (\<exists>evs. c_enc c = end_run enc evs (tunnel_writer (fst key) (snd key)) \<and> length evs \<le> k \<and>
        says (s_closed (c_heap c ! tunnel_stream)) ps evs)"

lemma end_saysI:
  assumes "end_says enc key k ps c" and "c_enc c' = end_run enc es (c_enc c)" and "k + length es \<le> k'"
    and "\<And>evs. says (s_closed (c_heap c ! tunnel_stream)) ps evs \<Longrightarrow>
      says (s_closed (c_heap c' ! tunnel_stream)) ps' (evs @ es)"
  shows "end_says enc key k' ps' c'"
proof -
  obtain evs where evs: "c_enc c = end_run enc evs (tunnel_writer (fst key) (snd key))" "length evs \<le> k"
    "says (s_closed (c_heap c ! tunnel_stream)) ps evs"
    using assms(1) by (auto simp: end_says_def)
  then have "c_enc c' = end_run enc (evs @ es) (tunnel_writer (fst key) (snd key))" "length (evs @ es) \<le> k'"
    using assms(2,3) by (simp_all add: end_run_def coal_run_append)
  with assms(4) [OF evs(3)] show ?thesis unfolding end_says_def by blast
qed

lemma end_says_same:
  "end_says enc key k ps c \<Longrightarrow> c_enc c' = c_enc c \<Longrightarrow>
   s_closed (c_heap c' ! tunnel_stream) = s_closed (c_heap c ! tunnel_stream) \<Longrightarrow> k \<le> k' \<Longrightarrow> end_says enc key k' ps c'"
  by (fastforce simp: end_says_def)

section \<open>Every session says what was sent over it\<close>

text \<open>What the random numbers, the peer and the device may be: frames of a size the sealing takes.\<close>

fun modest :: "'c client_end_event \<Rightarrow> bool" where
  "modest (Ce_tun_read res) = (case res of Inl e \<Rightarrow> True | Inr p \<Rightarrow> length p \<le> 60132)"
| "modest (Ce_end i ev) = modest_end ev"
| "modest ev = True"

definition sent_over :: "nat \<Rightarrow> (nat \<times> bytes) list \<Rightarrow> bytes list" where
  "sent_over i xs = map snd (filter (\<lambda>x. fst x = i) xs)"

definition lasting :: "('c \<Rightarrow> 'c \<Rightarrow> bool) \<Rightarrow> ('c \<Rightarrow> nat) \<Rightarrow> nat \<Rightarrow> 'c session \<times> nat Stream.stream \<Rightarrow> bool" where
  "lasting R left n key \<longleftrightarrow> (\<exists>s t r. fst key = new_session (Some s) t \<and> R s r \<and> 2 * n + 3 < left s)"

lemma lasting_Suc: "lasting R left (Suc n) key \<Longrightarrow> lasting R left n key"
  by (fastforce simp: lasting_def)

definition packets_ok :: "client \<Rightarrow> bool" where
  "packets_ok c \<longleftrightarrow> list_all packet_ok (in_hand (cl_writer c) @ cl_queue c)"

definition client_says ::
  "'c aead \<Rightarrow> ('c \<Rightarrow> 'c \<Rightarrow> bool) \<Rightarrow> ('c \<Rightarrow> nat) \<Rightarrow> nat \<Rightarrow> 'c client_end \<Rightarrow> bool" where
  "client_says enc R left n g \<longleftrightarrow>
     (\<forall>i < length (ce_conns g). lasting R left n (ce_keys g ! i) \<longrightarrow>
        end_says enc (ce_keys g ! i) (2 * n + 1) (sent_over i (cl_sent (ce_client g))) (ce_conns g ! i))"

lemma client_saysD:
  "client_says enc R left n g \<Longrightarrow> i < length (ce_conns g) \<Longrightarrow> lasting R left (Suc n) (ce_keys g ! i) \<Longrightarrow>
   end_says enc (ce_keys g ! i) (2 * n + 1) (sent_over i (cl_sent (ce_client g))) (ce_conns g ! i)"
  by (simp add: client_says_def lasting_Suc)

lemma client_says_update:
  assumes says: "client_says enc R left n g"
    and others: "\<And>j. j \<noteq> i \<Longrightarrow> sent_over j (cl_sent c) = sent_over j (cl_sent (ce_client g))"
    and upd: "i < length (ce_conns g) \<Longrightarrow> lasting R left (Suc n) (ce_keys g ! i) \<Longrightarrow>
      end_says enc (ce_keys g ! i) (2 * n + 1) (sent_over i (cl_sent (ce_client g))) (ce_conns g ! i) \<Longrightarrow>
      end_says enc (ce_keys g ! i) (2 * n + 3) (sent_over i (cl_sent c)) c'"
  shows "client_says enc R left (Suc n) (g\<lparr>ce_client := c, ce_conns := (ce_conns g)[i := c']\<rparr>)"
proof -
  have "end_says enc (ce_keys g ! j) (2 * n + 3) (sent_over j (cl_sent c)) ((ce_conns g)[i := c'] ! j)"
    if j: "j < length (ce_conns g)" "lasting R left (Suc n) (ce_keys g ! j)" for j
  proof (cases "j = i")
    case True
    with upd client_saysD [OF says j] j show ?thesis by (simp del: mult_Suc_right)
  next
    case False
    with end_says_same [OF client_saysD [OF says j] refl refl] others [OF False] show ?thesis by simp
  qed
  then show ?thesis by (simp add: client_says_def numeral_3_eq_3)
qed

lemma client_says_same:
  assumes says: "client_says enc R left n g" and "cl_sent c = cl_sent (ce_client g)"
  shows "client_says enc R left (Suc n) (g\<lparr>ce_client := c\<rparr>)"
  using end_says_same [OF client_saysD [OF says] refl refl] assms(2) unfolding client_says_def by simp

lemma client_says_end:
  assumes says: "client_says enc R left n g" and ok: "client_end_ok False g" and ev: "modest_end ev"
  shows "client_says enc R left (Suc n) (ce_end enc i ev g)"
proof (cases "i < length (ce_conns g)")
  case True
  obtain c' gone where st: "end_step enc ev (ce_conns g ! i) = (c', gone)" by fastforce
  let ?c = "if gone then session_dies i (ce_client g) else ce_client g"
  have sent: "cl_sent ?c = cl_sent (ce_client g)" by (simp add: session_dies_def)
  have "c_heap (ce_conns g ! i) \<noteq> []" using client_end_okD(3) [OF ok True] by (simp add: end_ok_def)
  from end_step_own [OF st this]
  have cl: "s_closed (c_heap c' ! tunnel_stream) = s_closed (c_heap (ce_conns g ! i) ! tunnel_stream)"
    by (simp add: tunnel_stream_def)
  have sends: "c_enc c' = end_run enc (end_sends ev (ce_conns g ! i)) (c_enc (ce_conns g ! i))"
    using end_step_enc [of enc ev "ce_conns g ! i"] st by (simp add: end_run_def)
  have one: "length (end_sends ev (ce_conns g ! i)) \<le> 1" by (cases ev) (auto split: sum.split)
  have "end_says enc key (2 * n + 3) ps c'" if "end_says enc key (2 * n + 1) ps (ce_conns g ! i)" for key ps
    using that sends one cl quiet_sends [OF ev]
    by (intro end_saysI [OF that sends]) (auto intro: says_quiet)
  then have "client_says enc R left (Suc n) (g\<lparr>ce_client := ?c, ce_conns := (ce_conns g)[i := c']\<rparr>)"
    by (intro client_says_update [OF says]) (simp_all add: sent)
  with True st show ?thesis by (simp add: ce_end_def)
qed (use client_says_same [OF says refl] in \<open>simp add: ce_end_def\<close>)

text \<open>An attempt of the writer that comes back without error is one DATA frame, and none before the close fails.\<close>

lemma end_says_write:
  assumes law: "noise_law enc dec R" and lasts: "noise_lasts enc left"
    and key: "lasting R left (Suc n) key" and p: "packet_ok p"
    and says: "end_says enc key (2 * n + 1) ps c" and sid: "s_id (c_heap c ! tunnel_stream) = 1"
    and wr: "conn_stream_write (end_writer enc) c tunnel_stream p = (c', m, e)"
  shows "end_says enc key (2 * n + 3) (if e = None then ps @ [p] else ps) c' \<and>
    (e = None \<longleftrightarrow> \<not> s_closed (c_heap c ! tunnel_stream))"
proof (cases "s_closed (c_heap c ! tunnel_stream)")
  case True
  with wr have "c' = c\<lparr>c_enc := c_enc c\<rparr>" "\<exists>x. e = Some x" by (auto simp: conn_stream_write_def stream_write_def)
  with end_says_same [OF says, of c' "2 * n + 3"] True show ?thesis by auto
next
  case False
  let ?f = "data_frame 1 p"
  have c': "c_enc c' = end_run enc [Put ?f] (c_enc c)" "c_heap c' = c_heap c"
    using wr stream_write_packet [OF p False, of "end_writer enc" "c_enc c"] sid
    by (auto simp: conn_stream_write_def end_run_def split: prod.splits)
  from says obtain evs where evs: "c_enc c = end_run enc evs (tunnel_writer (fst key) (snd key))"
    "length evs \<le> 2 * n + 1" "says False ps evs"
    using False by (auto simp: end_says_def)
  from key obtain s t r where s: "fst key = new_session (Some s) t" "R s r" "2 * Suc n + 3 < left s"
    by (auto simp: lasting_def)
  have small: "small_frame ?f"
    using p by (simp add: small_frame_def data_frame_def valid_frame_def packet_ok_def max_payload_def)
  have "Shut \<notin> set evs" using evs(3) by (simp add: says_def)
  from tunnel_accepts [OF law lasts s(2) says_small [OF evs(3)] small this, of t "snd key"] evs(1,2) s(1,3)
  have "snd (write_frame (end_writer enc) (c_enc c) ?f) = None" by simp
  with stream_write_answer [OF p False, of "end_writer enc" "c_enc c"] sid wr have "e = None"
    by (auto simp: conn_stream_write_def split: prod.splits)
  with c' False says_data [OF _ p] show ?thesis by (auto intro!: end_saysI [OF says c'(1)])
qed

lemma sent_over_snoc: "sent_over i (xs @ [(a, p)]) = sent_over i xs @ (if a = i then [p] else [])"
  by (simp add: sent_over_def)

lemma client_says_write:
  assumes law: "noise_law enc dec R" and lasts: "noise_lasts enc left"
    and says: "client_says enc R left n g" and ok: "client_end_ok False g" and pk: "packets_ok (ce_client g)"
  shows "client_says enc R left (Suc n) (ce_write enc g)"
proof (cases "\<exists>pkt k a. cl_writer (ce_client g) = Trying pkt k \<and> \<not> 3 \<le> k \<and> cl_active (ce_client g) = Some a")
  case True
  then obtain pkt k a where w: "cl_writer (ce_client g) = Trying pkt k" "\<not> 3 \<le> k" "cl_active (ce_client g) = Some a"
    by blast
  obtain c' m e where wr: "conn_stream_write (end_writer enc) (ce_conns g ! a) tunnel_stream pkt = (c', m, e)"
    using prod_cases3 by blast
  have p: "packet_ok pkt" using pk w(1) by (simp add: packets_ok_def in_hand_def)
  have sent: "cl_sent (writer_try e (ce_client g)) = cl_sent (ce_client g) @ (if e = None then [(a, pkt)] else [])"
    using w by (simp add: writer_try_def split: option.split)
  have "client_says enc R left (Suc n)
      (g\<lparr>ce_client := writer_try e (ce_client g), ce_conns := (ce_conns g)[a := c']\<rparr>)"
  proof (rule client_says_update [OF says])
    assume a: "a < length (ce_conns g)" and key: "lasting R left (Suc n) (ce_keys g ! a)"
      and old: "end_says enc (ce_keys g ! a) (2 * n + 1) (sent_over a (cl_sent (ce_client g))) (ce_conns g ! a)"
    have "s_id (c_heap (ce_conns g ! a) ! tunnel_stream) = 1"
      using client_end_okD(3) [OF ok a] by (simp add: end_ok_def)
    from end_says_write [OF law lasts key p old this wr] sent
    show "end_says enc (ce_keys g ! a) (2 * n + 3) (sent_over a (cl_sent (writer_try e (ce_client g)))) c'"
      by (cases e) (simp_all add: sent_over_snoc)
  qed (simp add: sent sent_over_snoc)
  with w wr show ?thesis by (simp add: ce_write_def)
next
  case False
  then have "cl_sent (writer_try None (ce_client g)) = cl_sent (ce_client g)"
    by (auto simp: writer_try_def split: writer_state.split option.split)
  from client_says_same [OF says this] False show ?thesis
    by (auto simp: ce_write_def split: writer_state.split option.split)
qed

lemma client_says_read:
  assumes says: "client_says enc R left n g" and ok: "client_end_ok False g"
  shows "client_says enc R left (Suc n) (ce_read a m werr g)"
proof (cases "a \<in> set (cl_stream_readers (ce_client g)) \<and> a < length (ce_conns g)")
  case True
  have ne: "c_heap (ce_conns g ! a) \<noteq> []" using client_end_okD(3) [OF ok, of a] True by (simp add: end_ok_def)
  have sent: "cl_sent (stream_reader_step a r werr c) = cl_sent c" for r c
    by (simp add: stream_reader_step_def split: sum.split option.split)
  have "client_says enc R left (Suc n)
      (g\<lparr>ce_client := stream_reader_step a r werr (ce_client g), ce_conns := (ce_conns g)[a := c']\<rparr>)"
    if read: "conn_stream_read (ce_conns g ! a) tunnel_stream m = Some (c', d, e)" for c' d e r
  proof (rule client_says_update [OF says])
    assume old: "end_says enc (ce_keys g ! a) (2 * n + 1) (sent_over a (cl_sent (ce_client g))) (ce_conns g ! a)"
    from old sent same_streams_read [OF read] ne same_streamsD(2) [of _ c' tunnel_stream]
    show "end_says enc (ce_keys g ! a) (2 * n + 3) (sent_over a (cl_sent (stream_reader_step a r werr (ce_client g)))) c'"
      by (intro end_says_same [OF old [folded sent [of r "ce_client g"]]]) (simp_all add: tunnel_stream_def)
  qed (simp add: sent)
  with True client_says_same [OF says refl] show ?thesis by (auto simp: ce_read_def split: option.split)
qed (use client_says_same [OF says refl] in \<open>auto simp: ce_read_def\<close>)

lemma client_says_close:
  assumes says: "client_says enc R left n g" and ok: "client_end_ok False g"
    and sent: "cl_sent c = cl_sent (ce_client g)" and a: "a < length (ce_conns g)"
  shows "client_says enc R left (Suc n) ((ce_close enc a g)\<lparr>ce_client := c\<rparr>)"
proof (cases "ts_closed (cl_sessions (ce_client g) ! a)")
  case True
  with client_says_same [OF says sent] show ?thesis by (simp add: ce_close_def)
next
  case False
  have eo: "end_ok False (ce_conns g ! a) (cl_sessions (ce_client g) ! a)" using client_end_okD(3) [OF ok a] .
  then have opn: "\<not> s_closed (c_heap (ce_conns g ! a) ! tunnel_stream)"
    "s_id (c_heap (ce_conns g ! a) ! 0) = 1" using False by (simp_all add: end_ok_def tunnel_stream_def)
  have cl: "s_closed (c_heap (session_close_end enc (ce_conns g ! a)) ! tunnel_stream)"
    using end_ok_session_close [OF eo False, of enc] by (simp add: end_ok_def)
  have "client_says enc R left (Suc n)
      (g\<lparr>ce_client := c, ce_conns := (ce_conns g)[a := session_close_end enc (ce_conns g ! a)]\<rparr>)"
  proof (rule client_says_update [OF says])
    assume old: "end_says enc (ce_keys g ! a) (2 * n + 1) (sent_over a (cl_sent (ce_client g))) (ce_conns g ! a)"
    show "end_says enc (ce_keys g ! a) (2 * n + 3) (sent_over a (cl_sent c)) (session_close_end enc (ce_conns g ! a))"
      using opn cl says_close
      by (intro end_saysI [OF old, where es = "[Put (close_frame 1), Shut]"])
        (simp_all add: session_close_end_simps end_run_def tunnel_stream_def sent)
  qed (simp add: sent)
  with False show ?thesis by (cases g) (simp add: ce_close_def)
qed

lemma end_says_new:
  "end_says enc (ses, rnd) 1 [] (client_connection enc ses rnd now)"
  unfolding end_says_def
  by (rule exI [of _ "[Put (control_frame type_stream_open 1 [])]"])
    (simp add: client_connection_simps end_run_def says_new tunnel_stream_def new_stream_def)

lemma client_says_established:
  assumes says: "client_says enc R left n g" and keys: "length (ce_keys g) = length (ce_conns g)"
    and sent: "\<And>err. cl_sent (result err (ce_client g)) = cl_sent (ce_client g)"
    and new: "sent_over (length (ce_conns g)) (cl_sent (ce_client g)) = []"
  shows "client_says enc R left (Suc n) (ce_established enc result res rnd now g)"
proof (cases res)
  case (Inr ses)
  have "end_says enc (ce_keys g ! j) (2 * n + 3) (sent_over j (cl_sent (ce_client g))) (ce_conns g ! j)"
    if "j < length (ce_conns g)" "lasting R left (Suc n) (ce_keys g ! j)" for j
    using end_says_same [OF client_saysD [OF says that] refl refl] by simp
  moreover have "end_says enc (ses, rnd) (2 * n + 3) [] (client_connection enc ses rnd now)"
    by (rule end_says_same [OF end_says_new refl refl]) simp
  ultimately show ?thesis
    using keys by (auto simp: Inr ce_established_def establish_end_eq client_says_def sent new nth_append
        less_Suc_eq numeral_3_eq_3)
qed (use client_says_same [OF says sent] in \<open>simp add: ce_established_def establish_end_eq\<close>)

lemma packets_ok_step:
  assumes "packets_ok c" and "list_all (\<lambda>p. length p \<le> 60132) (client_reads [e])"
  shows "packets_ok (client_step e c)"
proof (cases e)
  case (Client_tun_read res)
  have "set (offer p q) \<subseteq> set q \<union> {p}" for p and q :: "bytes list"
    by (auto simp: offer_def split: if_splits)
  with assms Client_tun_read show ?thesis
    by (fastforce simp: packets_ok_def client_tun_read_def client_reads_def list_all_iff packet_ok_def split: sum.split)
next
  case Writer_take
  with assms(1) show ?thesis by (auto simp: packets_ok_def writer_take_def in_hand_def split: list.split)
next
  case (Writer_try res)
  with assms(1) show ?thesis
    by (auto simp: packets_ok_def writer_try_def in_hand_def split: writer_state.splits option.split)
qed (use assms(1) in \<open>auto simp: packets_ok_def stream_reader_step_def rotate_due_def rotate_result_def rotate_swap_def
    grace_over_def watchdog_tick_def watchdog_result_def watchdog_swap_def cancel_context_def client_shutdown_def
    session_dies_def close_number_def next_id_def add_session_def Let_def
    split: sum.splits option.splits renewer.splits\<close>)

lemma client_sent_same:
  "\<forall>res. e \<noteq> Writer_try res \<Longrightarrow> cl_sent (client_step e c) = cl_sent c"
  by (cases e) (auto simp: client_tun_read_def writer_take_def stream_reader_step_def rotate_due_def rotate_result_def
      rotate_swap_def grace_over_def watchdog_tick_def watchdog_result_def watchdog_swap_def cancel_context_def
      client_shutdown_def session_dies_def close_number_def next_id_def add_session_def Let_def
      split: sum.splits option.splits renewer.splits list.splits)

lemma client_sessions_grow: "length (cl_sessions c) \<le> length (cl_sessions (client_step e c))"
  by (cases e) (auto simp: client_sessions_same rotate_result_def
      grace_over_def watchdog_result_def watchdog_swap_def client_shutdown_def session_dies_def close_number_def
      add_session_def Let_def split: option.splits renewer.splits)

definition sent_known :: "client \<Rightarrow> bool" where
  "sent_known c \<longleftrightarrow> client_inv c \<and> (\<forall>x \<in> set (cl_sent c). fst x < length (cl_sessions c))"

lemma sent_known_step:
  assumes "sent_known c"
  shows "sent_known (client_step e c)"
proof -
  have "\<forall>x \<in> set (cl_sent (client_step e c)). fst x < length (cl_sessions c)"
  proof (cases "\<exists>res. e = Writer_try res")
    case True
    with assms show ?thesis
      by (auto simp: sent_known_def client_inv_def known_def writer_try_def
          split: writer_state.splits option.splits if_splits)
  next
    case False
    with assms client_sent_same [of e c] show ?thesis by (simp add: sent_known_def)
  qed
  with assms client_inv_step client_sessions_grow [of c e] show ?thesis
    unfolding sent_known_def by (metis order_less_le_trans)
qed

lemma sent_known_over: "sent_known c \<Longrightarrow> length (cl_sessions c) \<le> i \<Longrightarrow> sent_over i (cl_sent c) = []"
  by (auto simp: sent_known_def sent_over_def filter_empty_conv)

lemma client_says_step:
  assumes law: "noise_law enc dec R" and lasts: "noise_lasts enc left"
    and says: "client_says enc R left n g" and ok: "client_end_ok False g" and pk: "packets_ok (ce_client g)"
    and known: "sent_known (ce_client g)" and ev: "modest ev"
  shows "client_says enc R left (Suc n) (client_end_step enc ev g)"
proof -
  have len: "length (ce_conns g) = length (cl_sessions (ce_client g))" "length (ce_keys g) = length (ce_conns g)"
    using ok by (simp_all add: client_end_ok_def)
  have active: "a < length (ce_conns g)"
    if "cl_active (ce_client g) = Some a \<or> a \<in> set (cl_graces (ce_client g))" for a
    using that known len by (auto simp: sent_known_def client_inv_def known_def)
  have result: "cl_sent (rotate_result err c) = cl_sent c" "cl_sent (watchdog_result err c) = cl_sent c" for err c
    using client_sent_same [of "Rotate_result err" c] client_sent_same [of "Watchdog_result err" c] by simp_all
  have closes: "cl_sent (grace_over a c) = cl_sent c" "cl_sent (watchdog_swap c) = cl_sent c"
    "cl_sent (client_shutdown c) = cl_sent c" for a c
    using client_sent_same [of "Grace_over a" c] client_sent_same [of Watchdog_swap c]
      client_sent_same [of Client_shutdown c] by simp_all
  have new: "sent_over (length (ce_conns g)) (cl_sent (ce_client g)) = []"
    using sent_known_over [OF known] len by simp
  note same = client_says_same [OF says refl, simplified]
  show ?thesis
  proof (cases ev)
    case Ce_write
    with client_says_write [OF law lasts says ok pk] show ?thesis by simp
  next
    case (Ce_read a m werr)
    with client_says_read [OF says ok] show ?thesis by simp
  next
    case (Ce_end i e)
    with client_says_end [OF says ok] ev show ?thesis by simp
  next
    case (Ce_rotate_result res rnd now)
    with client_says_established [where result = rotate_result, OF says len(2) result(1) new] same show ?thesis
      by (simp add: ce_rotate_result_def split: renewer.split)
  next
    case (Ce_watchdog_result res rnd now)
    with client_says_established [where result = watchdog_result, OF says len(2) result(2) new] same show ?thesis
      by (simp add: ce_watchdog_result_def split: renewer.split)
  next
    case (Ce_grace_over a)
    with client_says_close [OF says ok closes(1), of a] active [of a] same show ?thesis
      by (simp add: ce_grace_over_def)
  next
    case Ce_watchdog_swap
    with client_says_close [OF says ok closes(2)] active client_says_same [OF says closes(2)] show ?thesis
      by (auto simp: ce_watchdog_swap_def split: renewer.split option.split)
  next
    case Ce_shutdown
    with client_says_close [OF says ok closes(3)] active client_says_same [OF says closes(3)] same show ?thesis
      by (auto simp: ce_shutdown_def split: option.split)
  qed (use client_says_same [OF says client_sent_same] in \<open>simp_all add: on_client_def del: client_step.simps\<close>)
qed

text \<open>A run of the client from its first session.\<close>

definition client_end_run ::
  "'c aead \<Rightarrow> 'c client_end_event list \<Rightarrow> 'c client_end \<Rightarrow> 'c client_end" where
  "client_end_run enc evs g = fold (client_end_step enc) evs g"

definition device_reads :: "'c client_end_event list \<Rightarrow> bytes list" where
  "device_reads evs = concat (map device_read evs)"

lemma pipeline_moves: "pipeline_inv rd c \<Longrightarrow> manager_moves ps c c' \<Longrightarrow> pipeline_inv (rd @ ps) c'"
  using pipeline_inv_step unfolding manager_moves_def by fastforce

lemma packets_moves:
  "packets_ok c \<Longrightarrow> manager_moves ps c c' \<Longrightarrow> list_all (\<lambda>p. length p \<le> 60132) ps \<Longrightarrow> packets_ok c'"
  using packets_ok_step unfolding manager_moves_def by blast

lemma client_end_run_facts:
  assumes g: "g = client_end_run enc evs (client_end_start enc rotating ses rnd now)"
  shows "sent_known (ce_client g)" and "client_end_ok False g"
    and "pipeline_inv (device_reads evs) (ce_client g)"
proof -
  let ?s = "client_end_start enc rotating ses rnd now"
  show "sent_known (ce_client g)"
    unfolding g client_end_run_def
    by (rule manager.keeps [of sent_known, OF _ sent_known_step])
      (simp add: sent_known_def client_inv_start, simp add: client_start_def)
  have "client_end_ok False (fold (client_end_step enc) es ?s) \<and>
      pipeline_inv (device_reads es) (ce_client (fold (client_end_step enc) es ?s))" for es
  proof (induction es rule: rev_induct)
    case Nil
    show ?case
      by (simp add: client_end_start_def client_end_ok_def end_ok_new)
        (simp add: client_start_def end_ok_new pipeline_inv_def hand_simps device_reads_def)
  next
    case (snoc ev es)
    have "pipeline_inv (device_reads (es @ [ev])) (ce_client (fold (client_end_step enc) (es @ [ev]) ?s))"
      using pipeline_moves [OF conjunct2 [OF snoc.IH] client_moves] by (simp add: device_reads_def)
    moreover have "client_end_ok False (client_end_step enc ev (fold (client_end_step enc) es ?s))"
      using client_end_ok_step [OF conjunct1 [OF snoc.IH] client_end_inv] by simp
    ultimately show ?case by simp
  qed
  then show "client_end_ok False g" "pipeline_inv (device_reads evs) (ce_client g)"
    unfolding g client_end_run_def by blast+
qed

lemma client_end_run_packets:
  "list_all modest evs \<Longrightarrow> packets_ok (ce_client (client_end_run enc evs (client_end_start enc rotating ses rnd now)))"
proof (induction evs rule: rev_induct)
  case Nil
  show ?case by (simp add: client_end_run_def client_end_start_def client_start_def packets_ok_def in_hand_def)
next
  case (snoc ev evs)
  have "list_all (\<lambda>p. length p \<le> 60132) (device_read ev)"
    using snoc.prems by (cases ev) (auto simp: device_read_def split: sum.splits)
  with snoc packets_moves [OF _ client_moves this] show ?case by (simp add: client_end_run_def)
qed

lemma client_end_run_says:
  assumes law: "noise_law enc dec R" and lasts: "noise_lasts enc left"
  shows "list_all modest evs \<Longrightarrow>
    client_says enc R left (length evs) (client_end_run enc evs (client_end_start enc rotating ses rnd now))"
proof (induction evs rule: rev_induct)
  case Nil
  show ?case
    using end_says_new [of enc ses rnd now]
    by (simp add: client_end_run_def client_says_def client_end_start_def)
      (simp add: client_start_def sent_over_def)
next
  case (snoc ev evs)
  let ?g = "client_end_run enc evs (client_end_start enc rotating ses rnd now)"
  note facts = client_end_run_facts [where g = ?g, OF refl]
  from client_says_step [OF law lasts _ facts(2) client_end_run_packets facts(1)] snoc
  show ?case by (simp add: client_end_run_def)
qed

section \<open>What the server's end hears\<close>

lemma server_hears:
  assumes vis: "visible fs = visible (control_frame type_stream_open 1 [] # mid @ (if closed then [close_frame 1] else []))"
    and mid: "list_all chatter mid" "filter is_data mid = map (data_frame 1) ps"
    and c: "c = conn_close ((dispatch_all wr (new_conn w False True now) fs clock k)\<lparr>c_close_err := e\<rparr>)"
  shows "c_done c \<and> c_spawned c = [0] \<and> stream_ok (c_heap c ! 0) \<and> inbox (c_heap c ! 0) = ps \<and>
    read_err (c_heap c ! 0) = Some EOF"
proof -
  let ?fin = "if closed then [close_frame 1] else []"
  have "visible fs = control_frame type_stream_open 1 [] # visible mid @ ?fin"
    using vis by (simp add: visible_def control_frame_def close_frame_def frame_type_defs)
  from visible_Cons_split [OF this] obtain pads rest where
    fs: "fs = pads @ control_frame type_stream_open 1 [] # rest"
    and pads: "\<forall>p\<in>set pads. ftype p = type_padding" and rest: "visible rest = visible mid @ ?fin"
    by blast
  from visible_append_split [OF rest] obtain body tail where
    tail: "rest = body @ tail" "visible body = visible mid" "visible tail = ?fin" by blast
  define c1 where "c1 = dispatch wr (new_conn w False True now) (control_frame type_stream_open 1 [])
      (clock (k + length pads))"
  define k1 where "k1 = Suc (k + length pads)"
  define c2 where "c2 = dispatch_all wr c1 body clock k1"
  have run: "dispatch_all wr (new_conn w False True now) fs clock k = dispatch_all wr c2 tail clock (k1 + length body)"
    by (simp add: fs tail dispatch_all_append dispatch_padding_all [OF pads] c1_def c2_def k1_def)
  have c1: "conn_ok c1" "\<not> c_done c1" "map_of (c_streams c1) 1 = Some 0" "read_err (c_heap c1 ! 0) = None"
    "inbox (c_heap c1 ! 0) = []" "c_spawned c1 = [0]"
    by (simp add: c1_def conn_ok_dispatch)
      (simp_all add: c1_def dispatch_def control_frame_def new_conn_def frame_type_defs Let_def)
  note body = conversation_heard [OF tail(2) mid]
  note c2 = stream_hears [OF c1(1-4) body(1) c2_def, unfolded body(2) c1(5,6)]
  have "dispatch_all wr c2 tail clock (k1 + length body) = c2 \<or>
      (\<exists>t. dispatch_all wr c2 tail clock (k1 + length body) = dispatch wr c2 (close_frame 1) t)"
  proof (cases closed)
    case False
    then have "\<forall>f\<in>set tail. ftype f = type_padding" using tail(3) by (simp add: visible_def filter_empty_conv)
    then show ?thesis by (simp add: dispatch_padding_all)
  next
    case True
    then obtain p1 p2 where t: "tail = p1 @ close_frame 1 # p2" "\<forall>p\<in>set p1. ftype p = type_padding" "visible p2 = []"
      using visible_Cons_split tail(3) by (metis (full_types))
    then have "\<forall>f\<in>set p2. ftype f = type_padding" by (simp add: visible_def filter_empty_conv)
    with t(2) show ?thesis by (auto simp: t(1) dispatch_all_append dispatch_padding_all)
  qed
  then obtain t where "dispatch_all wr c2 tail clock (k1 + length body) = c2 \<or>
      dispatch_all wr c2 tail clock (k1 + length body) = dispatch wr c2 (close_frame 1) t" by blast
  from stream_ends [OF c2(1,2,4,5) this, where e = e] c2(3,6) show ?thesis
    by (simp add: c run)
qed

section \<open>From the client's device to the server's\<close>

lemma wire_of_run:
  "c_enc c = end_run enc evs w \<Longrightarrow> wire_of enc c = pipe_sent (fc_wr (cc_inner (end_run enc (evs @ [Shut]) w)))"
  by (simp add: wire_of_def end_run_def coal_run_append)

lemma session_arrives:
  assumes law: "noise_law enc dec R" and lasts: "noise_lasts enc left" and step: "R s r"
    and says: "end_says enc (new_session (Some s) t, rnd) k ps c" and nonces: "k < left s"
    and wire: "pipe_pending net = wire_of enc c" "in_end net = EOF"
  shows "\<exists>r' srv. read_tunnel enc dec (new_session t' (Some r)) clock net
      (server_connection (new_session t' (Some r)) rnd' now') = Some (r', srv) \<and>
    c_spawned srv = [0] \<and> stream_ok (c_heap srv ! 0) \<and> inbox (c_heap srv ! 0) = ps \<and>
    read_err (c_heap srv ! 0) = Some EOF"
proof -
  let ?w = "tunnel_writer (new_session (Some s) t) rnd"
  from says obtain evs where evs: "c_enc c = end_run enc evs ?w" "length evs \<le> k"
    "says (s_closed (c_heap c ! tunnel_stream)) ps evs"
    by (auto simp: end_says_def)
  from evs(3) obtain mid where mid: "offered evs = control_frame type_stream_open 1 [] # mid @
      (if s_closed (c_heap c ! tunnel_stream) then [close_frame 1] else [])"
    "list_all chatter mid" "filter is_data mid = map (data_frame 1) ps"
    by (auto simp: says_def)
  have small: "list_all (\<lambda>f. valid_frame f \<and> length (payload f) \<le> 60132) (offered evs)"
    using says_small [OF evs(3)] by (simp add: small_frame_def [abs_def])
  have "length evs < left s" using evs(2) nonces by simp
  from tunnel_delivers_frames [OF law lasts step small this, where t = t and rnd = rnd and t' = t' and k = 0
      and wr = "end_writer enc" and clock = clock
      and c = "server_connection (new_session t' (Some r)) rnd' now'"] wire wire_of_run [OF evs(1)]
  obtain r' fs where fs: "visible fs = visible (offered evs)"
    and run: "read_tunnel enc dec (new_session t' (Some r)) clock net
        (server_connection (new_session t' (Some r)) rnd' now') =
      Some (r', conn_close ((dispatch_all (end_writer enc) (server_connection (new_session t' (Some r)) rnd' now') fs clock 0)
        \<lparr>c_close_err := Some EOF\<rparr>))"
    by (auto simp: read_tunnel_def end_run_def Let_def)
  from server_hears [OF fs [unfolded mid(1)] mid(2,3) refl, where wr = "end_writer enc"
      and w = "tunnel_writer (new_session t' (Some r)) rnd'" and now = now' and clock = clock and k = 0
      and e = "Some EOF"] run
  show ?thesis by (simp add: server_connection_def)
qed

text \<open>
  C2: the whole client, from its device to the server's. In every run of the client, with any rotation,
  reconnection, closing, keepalive and padding, and whatever the server sends: take a session and the bytes its
  connection has put on the network when it is closed. However the network cuts them, the server's read loop ends
  with one stream, and \<^verbatim>\<open>Bridge\<close> on it writes to the server's TUN device exactly the valid ones of the packets that the
  client's writer sent over this session, in order and each once; and over all sessions these are packets the client read
  from its device, in that order, none twice.
\<close>

theorem client_run_reaches_the_device:
  assumes law: "noise_law enc dec R" and lasts: "noise_lasts enc left"
    and run: "g = client_end_run enc evs (client_end_start enc rotating ses rnd0 now0)" and modest: "list_all modest evs"
    and i: "i < length (ce_conns g)" and key: "ce_keys g ! i = (new_session (Some s) t, rnd)" and step: "R s r"
    and nonces: "2 * length evs + 3 < left s"
    and packets: "sent_over i (cl_sent (ce_client g)) = first # rest" "src_ip_key first \<noteq> []"
    and wire: "pipe_pending net = wire_of enc (ce_conns g ! i)" "in_end net = EOF"
    and buf: "\<forall>p\<in>set (first # rest). length p \<le> n"
  shows "\<exists>r' srv s' rt'. read_tunnel enc dec (new_session t' (Some r)) clock net
      (server_connection (new_session t' (Some r)) rnd' now') = Some (r', srv) \<and>
    c_spawned srv = [0] \<and> serve_stream n (\<lambda>_. None) (c_heap srv ! 0) rt = Some (s', rt', None) \<and>
    rt_tun rt' = rt_tun rt @ filter is_valid_ip_packet (sent_over i (cl_sent (ce_client g))) \<and>
    subseq (map snd (cl_sent (ce_client g))) (device_reads evs)"
proof -
  have "lasting R left (length evs) (ce_keys g ! i)"
    unfolding key lasting_def using step nonces by auto
  with client_end_run_says [OF law lasts modest, of rotating ses rnd0 now0] i
  have "end_says enc (new_session (Some s) t, rnd) (2 * length evs + 1) (first # rest) (ce_conns g ! i)"
    unfolding client_says_def key [symmetric] packets(1) [symmetric] run by blast
  from session_arrives [OF law lasts step this _ wire, where t' = t' and clock = clock and rnd' = rnd' and now' = now'] nonces
  obtain r' srv where srv: "read_tunnel enc dec (new_session t' (Some r)) clock net
      (server_connection (new_session t' (Some r)) rnd' now') = Some (r', srv)" "c_spawned srv = [0]"
    and str: "stream_ok (c_heap srv ! 0)" "inbox (c_heap srv ! 0) = first # rest" "read_err (c_heap srv ! 0) = Some EOF"
    by auto
  have "subseq (map snd (cl_sent (ce_client g))) (device_reads evs)"
    using client_end_run_facts(3) [OF run] unfolding pipeline_inv_def by (blast dest: subseq_prefixD)
  with serve_stream_delivers [OF str buf packets(2), of rt] srv packets(1) show ?thesis
    by (metis packets(1))
qed

section \<open>After a session has died\<close>

text \<open>Two looks of the watchdog at a dead session, five seconds apart.\<close>

lemma watchdog_looks:
  assumes "cl_watchdog c = Waiting" and "cl_active c = Some a" and "ts_mux_done (cl_sessions c ! a)"
    and "\<And>t. cl_starts c (ts_id (cl_sessions c ! a)) = Some t \<Longrightarrow> t \<le> now1"
    and "five_seconds \<le> now2 - now1"
  shows "\<exists>f. watchdog_tick True now2 (watchdog_tick True now1 c) =
    c\<lparr>cl_starts := f, cl_counter := cl_counter c + 1, cl_watchdog := Establishing (cl_counter c + 1)\<rparr>"
proof (cases "cl_starts c (ts_id (cl_sessions c ! a))")
  case None
  with assms show ?thesis
    by (intro exI [of _ "(cl_starts c)(ts_id (cl_sessions c ! a) \<mapsto> now1)"])
      (simp add: watchdog_tick_def next_id_def Let_def)
next
  case (Some t)
  with assms(4) [OF Some] assms show ?thesis
    by (intro exI [of _ "cl_starts c"]) (auto simp: watchdog_tick_def next_id_def Let_def)
qed


section \<open>The reader of a session that has ended\<close>

fun peers_fresh :: "'c aead \<Rightarrow> 'c client_end_event list \<Rightarrow> 'c client_end \<Rightarrow> bool" where
  "peers_fresh enc [] g \<longleftrightarrow> True"
| "peers_fresh enc (ev # evs) g \<longleftrightarrow> peer_opens_fresh ev g \<and> peers_fresh enc evs (client_end_step enc ev g)"

lemma client_end_ok_run:
  "client_end_ok polite g \<Longrightarrow> client_inv (ce_client g) \<Longrightarrow> (polite \<Longrightarrow> peers_fresh enc evs g) \<Longrightarrow>
   client_end_ok polite (client_end_run enc evs g)"
proof (induction evs arbitrary: g)
  case (Cons ev evs)
  have "client_inv (ce_client (client_end_step enc ev g))"
    using client_moves [of ev g enc] Cons.prems(2) client_inv_step by (auto simp: manager_moves_def)
  moreover have "client_end_ok polite (client_end_step enc ev g)"
    using client_end_ok_step [OF Cons.prems(1,2)] Cons.prems(3) by simp
  ultimately show ?case using Cons.IH Cons.prems(3) by (simp add: client_end_run_def)
qed (simp add: client_end_run_def)

lemma ce_read_gone: "a \<notin> set (cl_stream_readers (ce_client g)) \<Longrightarrow> client_end_run enc (map (Ce_read a n) errs) g = g"
  by (induction errs) (simp_all add: client_end_run_def ce_read_def)

lemma reader_drains:
  assumes "client_end_ok polite g" and "a < length (ce_conns g)"
    and "read_err (c_heap (ce_conns g ! a) ! tunnel_stream) \<noteq> None" and n: "0 < n"
    and "left_to_read (c_heap (ce_conns g ! a) ! tunnel_stream) < length errs"
  shows "a \<notin> set (cl_stream_readers (ce_client (client_end_run enc (map (Ce_read a n) errs) g)))"
  using assms(1-3,5)
proof (induction errs arbitrary: g)
  case (Cons err errs)
  let ?c = "ce_conns g ! a"
  have ok: "conn_ok ?c" "c_heap ?c \<noteq> []"
    using client_end_okD(3) [OF Cons.prems(1,2)] by (simp_all add: end_ok_def)
  then have "stream_ok (c_heap ?c ! tunnel_stream)" using conn_ok_stream [of ?c 0] by (simp add: tunnel_stream_def)
  moreover obtain e where e: "read_err (c_heap ?c ! tunnel_stream) = Some e" using Cons.prems(3) by blast
  ultimately obtain s' d e' where s': "stream_read (c_heap ?c ! tunnel_stream) n = Some (s', d, e')"
    "read_err s' = Some e" "e' = None \<longrightarrow> left_to_read s' < left_to_read (c_heap ?c ! tunnel_stream)"
    using ended_stream_read [OF _ _ n] by blast
  define g1 where "g1 = ce_read a n err g"
  have run: "client_end_run enc (map (Ce_read a n) (err # errs)) g = client_end_run enc (map (Ce_read a n) errs) g1"
    by (simp add: g1_def client_end_run_def)
  show ?case
  proof (cases "a \<in> set (cl_stream_readers (ce_client g)) \<and> e' = None")
    case True
    have g1: "g1 = g\<lparr>ce_client := stream_reader_step a (Inr d) err (ce_client g),
        ce_conns := (ce_conns g)[a := ?c\<lparr>c_heap := (c_heap ?c)[tunnel_stream := s']\<rparr>]\<rparr>"
      using True s'(1) Cons.prems(2) by (simp add: g1_def ce_read_def conn_stream_read_def)
    have "client_end_ok polite g1" unfolding g1_def by (rule client_end_ok_read [OF Cons.prems(1)])
    from Cons.IH [OF this] s'(2,3) True Cons.prems(2,4) ok(2) show ?thesis
      unfolding run by (simp add: g1 tunnel_stream_def)
  next
    case False
    have "a \<notin> set (cl_stream_readers (ce_client g1))"
      using False s'(1) Cons.prems(2)
      by (auto simp: g1_def ce_read_def conn_stream_read_def stream_reader_step_def split: sum.split option.split)
    then show ?thesis unfolding run by (simp add: ce_read_gone)
  qed
qed simp


section \<open>Concrete runs\<close>

text \<open>A packet, then a rotation, and the old session's grace period ends.\<close>

definition rotating_run :: "nat client_end_event list" where
  "rotating_run =
     [Ce_tun_read (Inr ping_packet), Ce_take, Ce_write, Ce_rotate_due True,
      Ce_rotate_result (Inr (new_session (Some 5) (Some 6))) (sconst 3) 0, Ce_rotate_swap, Ce_end 0 (End_timer True),
      Ce_grace_over 0]"

text \<open>The session dies with a packet in the writer's hand.\<close>

definition dying_run :: "nat client_end_event list" where
  "dying_run = [Ce_tun_read (Inr ping_packet), Ce_take, Ce_end 0 (End_read_end EOF)]"

definition demo_start :: "nat client_end" where
  "demo_start = client_end_start tag_enc True (new_session (Some 0) (Some 100)) (sconst 3) 0"

lemma demo_first_write:
  assumes "conn_stream_write (end_writer tag_enc) (client_connection tag_enc (new_session (Some 0) (Some 100)) (sconst 3) 0)
    tunnel_stream ping_packet = (c', m, e)"
  shows "e = None"
proof -
  have "lasting (=) (\<lambda>k. 40 + (0 :: nat) * k) (Suc 0) (new_session (Some 0) (Some 100), sconst 3)"
    by (auto simp: lasting_def)
  from end_says_write [OF tag_law tag_lasts_long this ping_packet_simps(1) _ _ assms, of "[]"]
    end_says_new [of tag_enc "new_session (Some 0) (Some 100)" "sconst 3" 0]
  show ?thesis by (simp add: client_connection_simps tunnel_stream_def new_stream_def)
qed

lemma rotating_run_sends:
  "cl_sent (ce_client (client_end_run tag_enc rotating_run demo_start)) = [(0, ping_packet)]"
  "ce_keys (client_end_run tag_enc rotating_run demo_start) ! 0 = (new_session (Some 0) (Some 100), sconst 3)"
  "0 < length (ce_conns (client_end_run tag_enc rotating_run demo_start))"
proof -
  obtain c' m e where wr: "conn_stream_write (end_writer tag_enc)
      (client_connection tag_enc (new_session (Some 0) (Some 100)) (sconst 3) 0) tunnel_stream ping_packet = (c', m, e)"
    using prod_cases3 by blast
  note wr' = wr [unfolded demo_first_write [OF wr]]
  define g3 where "g3 = \<lparr>ce_client = (client_start True)\<lparr>cl_sent := [(0, ping_packet)]\<rparr>, ce_conns = [c'],
      ce_keys = [(new_session (Some 0) (Some 100 :: nat option), sconst (3 :: nat))]\<rparr>"
  have "client_end_run tag_enc (take 3 rotating_run) demo_start = g3"
    using wr' by (simp add: rotating_run_def demo_start_def client_end_run_def client_end_start_def client_start_def
        on_client_def client_tun_read_def ping_packet_simps offer_def tun_write_queue_def writer_take_def
        ce_write_def writer_try_def g3_def)
  then have run: "client_end_run tag_enc rotating_run demo_start = client_end_run tag_enc (drop 3 rotating_run) g3"
    by (metis append_take_drop_id client_end_run_def fold_append comp_apply)
  show "cl_sent (ce_client (client_end_run tag_enc rotating_run demo_start)) = [(0, ping_packet)]"
    "ce_keys (client_end_run tag_enc rotating_run demo_start) ! 0 = (new_session (Some 0) (Some 100), sconst 3)"
    "0 < length (ce_conns (client_end_run tag_enc rotating_run demo_start))"
    unfolding run
    by (simp_all add: rotating_run_def client_end_run_def g3_def client_start_def on_client_def rotate_due_def
        next_id_def ce_rotate_result_def ce_established_def establish_end_eq rotate_result_def add_session_def
        rotate_swap_def ce_end_def ce_grace_over_def grace_over_def close_number_def Let_def)
qed

lemma client_run_reaches_the_device_witness:
  "\<exists>net r' srv s' rt'. read_tunnel tag_enc tag_dec (new_session (Some 100) (Some 0)) (\<lambda>_. 0) net
      (server_connection (new_session (Some 100) (Some 0)) (sconst 5) 0) = Some (r', srv) \<and>
    serve_stream 1600 (\<lambda>_. None) (c_heap srv ! 0) new_tun_router = Some (s', rt', None) \<and>
    rt_tun rt' = [ping_packet]"
proof -
  let ?g = "client_end_run tag_enc rotating_run demo_start"
  define W where "W = fst (coal_close (fc_write tag_enc pipe_write) (fc_close (\<lambda>w. (pipe_close w, None)))
    (c_enc (ce_conns ?g ! 0)))"
  have wire: "pipe_pending (pipe_join (fc_wr (cc_inner W))) = wire_of tag_enc (ce_conns ?g ! 0)"
    "in_end (pipe_join (fc_wr (cc_inner W))) = EOF"
    by (simp_all add: wire_of_def W_def)
  have over: "sent_over 0 (cl_sent (ce_client ?g)) = [ping_packet]"
    by (simp add: rotating_run_sends sent_over_def)
  have "list_all modest rotating_run" "2 * length rotating_run + 3 < 40 + (0 :: nat) * 0"
    "src_ip_key ping_packet \<noteq> []" "\<forall>p\<in>set [ping_packet]. length p \<le> 1600"
    by (simp_all add: rotating_run_def ping_packet_simps)
  from client_run_reaches_the_device [OF tag_law tag_lasts_long refl [of ?g, unfolded demo_start_def] this(1)
      rotating_run_sends(3,2) [unfolded demo_start_def] refl this(2) over [unfolded demo_start_def] this(3)
      wire [unfolded demo_start_def] this(4),
      where t' = "Some 100" and rt = new_tun_router and rnd' = "sconst 5" and now' = 0 and clock = "\<lambda>_. 0"]
  show ?thesis
    unfolding over [unfolded demo_start_def] by (fastforce simp: new_tun_router_def ping_packet_simps)
qed

lemma dying_run_state:
  "cl_active (ce_client (client_end_run tag_enc dying_run demo_start)) = Some 0"
  "c_done (ce_conns (client_end_run tag_enc dying_run demo_start) ! 0)"
  "cl_watchdog (ce_client (client_end_run tag_enc dying_run demo_start)) = Waiting"
  "cl_starts (ce_client (client_end_run tag_enc dying_run demo_start)) = (\<lambda>_. None)"
  "cl_writer (ce_client (client_end_run tag_enc dying_run demo_start)) = Trying ping_packet 0"
  "cl_sent (ce_client (client_end_run tag_enc dying_run demo_start)) = []"
  "length (ce_conns (client_end_run tag_enc dying_run demo_start)) = 1"
  by (simp_all add: dying_run_def demo_start_def client_end_run_def client_end_start_def client_start_def
      on_client_def client_tun_read_def ping_packet_simps offer_def tun_write_queue_def writer_take_def ce_end_def
      session_dies_def)
    (simp add: conn_close_def)




end
