(* ===== verification/Camouflage.thy ===== *)
theory Camouflage
  imports Go_IO
begin

text \<open>
  The HTTP camouflage layer, \<^verbatim>\<open>internal/camouflage\<close>: the request router, the length-prefixed
  handshake envelope, the tunnel handler that falls back to the cover site, and the relay
  between the HTTP stream and the tunnel.

  The authentication callback \<^verbatim>\<open>onAuth\<close> is a parameter, the cover site is whoever gets the
  \<open>Fallback\<close> outcome with the request body it will read: an \<^verbatim>\<open>io.MultiReader\<close> of the bytes
  already consumed and the rest of the body (\<open>multi\<close>). The central fact is that the fallback
  sees exactly the body the client sent.
\<close>

section \<open>Routing\<close>

definition default_tunnel_path :: string where
  "default_tunnel_path = ''/api/v1/stream''"

definition tunnel_method :: string where
  "tunnel_method = ''POST''"

definition set_tunnel_path :: "string \<Rightarrow> string" where
  "set_tunnel_path p = (if p = '''' then default_tunnel_path else p)"

definition to_tunnel :: "string \<Rightarrow> string \<Rightarrow> string \<Rightarrow> bool" where
  "to_tunnel tunnel_path method path \<longleftrightarrow> method = tunnel_method \<and> path = tunnel_path"

section \<open>The handshake envelope\<close>

definition read_length_prefixed :: "'r reader \<Rightarrow> 'r \<Rightarrow> ('r \<times> (go_error + bytes)) option" where
  "read_length_prefixed rd r =
     (case io_read_full rd r 2 of
        None \<Rightarrow> None
      | Some (r1, len_buf, Some e) \<Rightarrow> Some (r1, Inl (Wrapf ''read length prefix: %w'' e))
      | Some (r1, len_buf, None) \<Rightarrow>
          let n = unat (get_be16 len_buf)
          in if n = 0 then Some (r1, Inl (Errorf ''zero-length message'' []))
             else (case io_read_full rd r1 n of
                 None \<Rightarrow> None
               | Some (r2, buf, Some e) \<Rightarrow> Some (r2, Inl (Wrapf ''read message body: %w'' e))
               | Some (r2, buf, None) \<Rightarrow> Some (r2, Inr buf)))"

definition write_length_prefixed :: "'w writer \<Rightarrow> 'w \<Rightarrow> bytes \<Rightarrow> 'w \<times> go_error option" where
  "write_length_prefixed wr w data =
     (if 65535 < length data then (w, Some (Errorf ''message too large: %d'' [int (length data)]))
      else
        case wr w (put_be16 (word_of_nat (length data))) of
          (w1, n, Some e) \<Rightarrow> (w1, Some e)
        | (w1, n, None) \<Rightarrow> (case wr w1 data of (w2, m, e) \<Rightarrow> (w2, e)))"

text \<open>
  The slice expression \<^verbatim>\<open>buf[2 : 2+n]\<close> adds in \<^verbatim>\<open>uint16\<close>; a slice whose end is before its start
  panics, which is the outcome \<open>None\<close>.
\<close>

definition go_slice :: "nat \<Rightarrow> nat \<Rightarrow> bytes \<Rightarrow> bytes option" where
  "go_slice i j xs = (if i \<le> j \<and> j \<le> length xs then Some (subslice i j xs) else None)"

definition parse_length_prefixed :: "bytes \<Rightarrow> (go_error + bytes) option" where
  "parse_length_prefixed buf =
     (if length buf < 2 then Some (Inl (Errorf ''buffer too short for length prefix'' []))
      else
        let n = get_be16 (subslice 0 2 buf)
        in if n = 0 then Some (Inl (Errorf ''zero-length message'' []))
           else if length buf - 2 < unat n
           then Some (Inl (Errorf ''declared length %d exceeds available %d''
                  [int (unat n), int (length buf) - 2]))
           else map_option Inr (go_slice 2 (unat (2 + n)) buf))"

section \<open>The body handed to the fallback\<close>

text \<open>
  \<^verbatim>\<open>io.MultiReader\<close> of some \<^verbatim>\<open>bytes.Reader\<close>s and a last reader: exhausted readers are skipped, the
  last one's error is the end.
\<close>

record 'r multi =
  mr_heads :: "bytes list"
  mr_last :: 'r

fun skip_empty :: "bytes list \<Rightarrow> bytes list" where
  "skip_empty ([] # bs) = skip_empty bs"
| "skip_empty bs = bs"

definition multi_read :: "'r reader \<Rightarrow> 'r multi reader" where
  "multi_read rd m n =
     (case skip_empty (mr_heads m) of
        [] \<Rightarrow>
          (case rd (mr_last m) n of
             None \<Rightarrow> None
           | Some (r', d, e) \<Rightarrow> Some (\<lparr>mr_heads = [], mr_last = r'\<rparr>, d, e))
      | b # bs \<Rightarrow> Some (m\<lparr>mr_heads := drop n b # bs\<rparr>, take n b, None))"

definition multi_pending :: "('r \<Rightarrow> bytes) \<Rightarrow> 'r multi \<Rightarrow> bytes" where
  "multi_pending pend m = concat (mr_heads m) @ pend (mr_last m)"

lemma concat_skip_empty: "concat (skip_empty bs) = concat bs"
  by (induction bs rule: skip_empty.induct) auto

lemma skip_empty_hd: "skip_empty bs = b # cs \<Longrightarrow> b \<noteq> []"
  by (induction bs rule: skip_empty.induct) auto


context sticky_source begin

lemma multi_source:
  "sticky_source (multi_read read) (multi_pending pending) (\<lambda>m. final (mr_last m))
     (\<lambda>m. length (concat (mr_heads m)) + weight (mr_last m))"
proof unfold_locales
  fix n :: nat and m :: "'r multi"
  assume "0 < n"
  then show "multi_read read m n \<noteq> None"
    using read_returns [of n "mr_last m"]
    by (auto simp: multi_read_def split: list.splits option.splits)
next
  fix n :: nat and m m' :: "'r multi" and d
  assume n: "0 < n" and rd: "multi_read read m n = Some (m', d, None)"
  show "multi_pending pending m = d @ multi_pending pending m' \<and>
    final (mr_last m') = final (mr_last m) \<and>
    length (concat (mr_heads m')) + weight (mr_last m') <
      length (concat (mr_heads m)) + weight (mr_last m) \<and> length d \<le> n"
  proof (cases "skip_empty (mr_heads m)")
    case Nil
    with rd obtain r' where r': "read (mr_last m) n = Some (r', d, None)"
      "m' = \<lparr>mr_heads = [], mr_last = r'\<rparr>"
      by (auto simp: multi_read_def split: option.splits)
    have "concat (mr_heads m) = []" using Nil concat_skip_empty [of "mr_heads m"] by simp
    with read_ok [OF n r'(1)] r'(2) show ?thesis by (simp add: multi_pending_def)
  next
    case (Cons b bs)
    with rd have m': "m' = m\<lparr>mr_heads := drop n b # bs\<rparr>" "d = take n b"
      by (simp_all add: multi_read_def)
    have c: "concat (mr_heads m) = b @ concat bs" using Cons concat_skip_empty [of "mr_heads m"] by simp
    have "b \<noteq> []" by (rule skip_empty_hd [OF Cons])
    with n m' c show ?thesis by (cases b) (auto simp: multi_pending_def)
  qed
next
  fix n :: nat and m m' :: "'r multi" and d e
  assume n: "0 < n" and rd: "multi_read read m n = Some (m', d, Some e)"
  then obtain r' where e: "skip_empty (mr_heads m) = []" "read (mr_last m) n = Some (r', d, Some e)"
    "m' = \<lparr>mr_heads = [], mr_last = r'\<rparr>"
    by (auto simp: multi_read_def split: list.splits option.splits)
  have "concat (mr_heads m) = []" using e(1) concat_skip_empty [of "mr_heads m"] by simp
  with e read_err [OF n e(2)] read_err_stays [OF n e(2)]
  show "d = [] \<and> multi_pending pending m = [] \<and> e = final (mr_last m)"
    and "multi_pending pending m' = [] \<and> final (mr_last m') = final (mr_last m) \<and>
      length (concat (mr_heads m')) + weight (mr_last m') \<le>
        length (concat (mr_heads m)) + weight (mr_last m)"
    by (simp_all add: multi_pending_def)
qed

end

interpretation multi: sticky_source "multi_read pipe_read" "multi_pending pipe_pending"
    "\<lambda>m. in_end (mr_last m)" "\<lambda>m. length (concat (mr_heads m)) + pipe_weight (mr_last m)"
  by (rule pipe.multi_source)

section \<open>The tunnel handler\<close>

definition max_handshake_buffer :: nat where
  "max_handshake_buffer = 4096"

text \<open>
  What a request ends in: the cover site with the body it reads, or the tunnel with the reply
  \<^verbatim>\<open>msg2\<close>, the tunnel endpoint (which may be nil) and the body positioned after the handshake.
\<close>

datatype ('r, 't) outcome = Fallback "'r multi" | Tunnel bytes "'t option" 'r

definition tunnel_handler ::
  "(bytes \<Rightarrow> go_error + bytes \<times> 't option) \<Rightarrow> 'r reader \<Rightarrow> 'r \<Rightarrow> ('r, 't) outcome option" where
  "tunnel_handler on_auth rd body =
     (case io_read_full rd body 2 of
        None \<Rightarrow> None
      | Some (b1, len_buf, len_err) \<Rightarrow>
          if len_err \<noteq> None \<or> length len_buf < 2
          then Some (Fallback \<lparr>mr_heads = [len_buf], mr_last = b1\<rparr>)
          else
            let declared = unat (get_be16 len_buf)
            in if declared = 0 \<or> max_handshake_buffer < declared
               then Some (Fallback \<lparr>mr_heads = [len_buf], mr_last = b1\<rparr>)
               else
                 case io_read_full rd b1 declared of
                   None \<Rightarrow> None
                 | Some (b2, msg1, msg_err) \<Rightarrow>
                     if msg_err \<noteq> None \<or> length msg1 < declared
                     then Some (Fallback \<lparr>mr_heads = [len_buf, msg1], mr_last = b2\<rparr>)
                     else
                       (case on_auth msg1 of
                          Inl e \<Rightarrow> Some (Fallback \<lparr>mr_heads = [len_buf, msg1], mr_last = b2\<rparr>)
                        | Inr (resp, tun) \<Rightarrow> Some (Tunnel resp tun b2)))"

definition serve_http ::
  "string \<Rightarrow> (bytes \<Rightarrow> go_error + bytes \<times> 't option) \<Rightarrow> 'r reader \<Rightarrow> string \<Rightarrow> string \<Rightarrow> 'r \<Rightarrow>
   ('r, 't) outcome option" where
  "serve_http tunnel_path on_auth rd method path body =
     (if to_tunnel tunnel_path method path then tunnel_handler on_auth rd body
      else Some (Fallback \<lparr>mr_heads = [], mr_last = body\<rparr>))"

text \<open>
  What the handler should do, on byte lists: the message of a handshake envelope and what
  follows it.
\<close>

definition envelope :: "bytes \<Rightarrow> (bytes \<times> bytes) option" where
  "envelope bs =
     (let n = unat (get_be16 (take 2 bs))
      in if length bs < 2 \<or> n = 0 \<or> max_handshake_buffer < n \<or> length bs < 2 + n then None
         else Some (take n (drop 2 bs), drop (2 + n) bs))"

definition accepted_handshake ::
  "(bytes \<Rightarrow> go_error + bytes \<times> 't option) \<Rightarrow> bytes \<Rightarrow> (bytes \<times> 't option \<times> bytes) option" where
  "accepted_handshake on_auth bs =
     (case envelope bs of
        None \<Rightarrow> None
      | Some (msg1, rest) \<Rightarrow>
          (case on_auth msg1 of Inl e \<Rightarrow> None | Inr (resp, tun) \<Rightarrow> Some (resp, tun, rest)))"

context sticky_source begin

lemma tunnel_handler_spec:
  "\<exists>out. tunnel_handler on_auth read body = Some out \<and>
    (case accepted_handshake on_auth (pending body) of
       Some (resp, tun, rest) \<Rightarrow>
         \<exists>b. out = Tunnel resp tun b \<and> pending b = rest \<and> final b = final body
     | None \<Rightarrow>
         \<exists>m. out = Fallback m \<and> multi_pending pending m = pending body \<and>
           final (mr_last m) = final body)"
proof (cases "length (pending body) < 2")
  case True
  with read_full_drained [OF True] show ?thesis
    by (auto simp: tunnel_handler_def accepted_handshake_def envelope_def multi_pending_def Let_def)
next
  case False
  let ?bs = "pending body" and ?n = "unat (get_be16 (take 2 (pending body)))"
  obtain b1 where b1: "io_read_full read body 2 = Some (b1, take 2 ?bs, None)"
    "pending b1 = drop 2 ?bs" "final b1 = final body"
    using read_full_enough [of 2 body] False by auto
  show ?thesis
  proof (cases "?n = 0 \<or> max_handshake_buffer < ?n")
    case True
    with b1 False show ?thesis
      by (auto simp: tunnel_handler_def accepted_handshake_def envelope_def multi_pending_def Let_def)
  next
    case n: False
    show ?thesis
    proof (cases "length (pending b1) < ?n")
      case True
      with read_full_drained [OF True] b1 False n show ?thesis
        by (auto simp: tunnel_handler_def accepted_handshake_def envelope_def multi_pending_def
            Let_def)
    next
      case long: False
      obtain b2 where b2: "io_read_full read b1 ?n = Some (b2, take ?n (drop 2 ?bs), None)"
        "pending b2 = drop (2 + ?n) ?bs" "final b2 = final body"
        using read_full_enough [of ?n b1] long b1 by (auto simp: add.commute)
      have env: "envelope ?bs = Some (take ?n (drop 2 ?bs), drop (2 + ?n) ?bs)"
        using False n long b1 by (auto simp: envelope_def Let_def)
      have split: "take 2 ?bs @ take ?n (drop 2 ?bs) @ drop (2 + ?n) ?bs = ?bs"
        by (metis append_take_drop_id drop_drop add.commute)
      from b1 b2 False n long env split show ?thesis
        by (cases "on_auth (take ?n (drop 2 ?bs))")
          (auto simp: tunnel_handler_def accepted_handshake_def multi_pending_def Let_def)
    qed
  qed
qed

end

section \<open>The relay\<close>

text \<open>
  The loop of both directions of \<^verbatim>\<open>bridge\<close> (the hand-written one and \<^verbatim>\<open>io.Copy\<close>, both with a
  32 KiB buffer): read a piece, write it, stop at the first error. The result is the reader,
  the writer and the error that stopped it, a write error first.
\<close>

definition copy_buffer :: nat where
  "copy_buffer = 32 * 1024"

partial_function (option) copy_loop ::
  "'r reader \<Rightarrow> 'w writer \<Rightarrow> 'r \<Rightarrow> 'w \<Rightarrow> ('r \<times> 'w \<times> go_error) option" where
  "copy_loop rd wr r w =
     (case rd r copy_buffer of
        None \<Rightarrow> None
      | Some (r', d, e) \<Rightarrow>
          (case (if d = [] then (w, 0, None) else wr w d) of
             (w', n, Some we) \<Rightarrow> Some (r', w', we)
           | (w', n, None) \<Rightarrow>
               (case e of
                  Some re \<Rightarrow> Some (r', w', re)
                | None \<Rightarrow> copy_loop rd wr r' w')))"

context byte_source begin

lemma copy_all:
  assumes sink: "byte_sink wr sent good" and total: "\<And>w p. good w \<Longrightarrow> \<exists>w' n. wr w p = (w', n, None)"
  shows "good w \<Longrightarrow> \<exists>r' w'. copy_loop read wr r w = Some (r', w', final r) \<and>
    sent w' = sent w @ pending r \<and> good w'"
proof (induction "weight r" arbitrary: r w rule: less_induct)
  case less
  have pos: "0 < copy_buffer" by (simp add: copy_buffer_def)
  obtain r1 d e where rd: "read r copy_buffer = Some (r1, d, e)"
    using read_returns [OF pos, of r] by (metis not_None_eq prod_cases3)
  show ?case
  proof (cases e)
    case (Some er)
    with read_err [OF pos rd [unfolded Some]] rd less.prems show ?thesis
      by (subst copy_loop.simps) simp
  next
    case None
    note ok = read_ok [OF pos rd [unfolded None]]
    obtain w1 where w1: "(if d = [] then (w, 0, None) else wr w d) = (w1, fst (snd
        (if d = [] then (w, 0, None) else wr w d)), None)" "sent w1 = sent w @ d" "good w1"
      using total [OF less.prems, of d] byte_sink.write_ok [OF sink less.prems, of d] less.prems
      by (cases "d = []") fastforce+
    have "\<exists>r' w'. copy_loop read wr r1 w1 = Some (r', w', final r1) \<and>
        sent w' = sent w1 @ pending r1 \<and> good w'"
      using less.hyps [of r1 w1] ok w1(3) by simp
    with ok rd None w1 show ?thesis
      by (subst copy_loop.simps) (auto split: prod.splits)
  qed
qed

end

section \<open>Properties\<close>

text \<open>
  C13: an active prober cannot tell the server from the cover site by its body handling. Every
  request that is not a POST to the tunnel path carrying a well-formed envelope that
  \<^verbatim>\<open>onAuth\<close> accepts reaches the cover site with exactly the body the client sent, byte for byte and with
  the same end, however much of it was read while looking for a handshake and however it
  arrived in pieces; an accepted one reaches the tunnel with the reply and the body right after
  the envelope. The handler always returns.
\<close>

theorem cover_site_sees_original_body:
  "\<exists>out. serve_http tunnel_path on_auth pipe_read method path body = Some out \<and>
    (case (if method = ''POST'' \<and> path = tunnel_path
           then accepted_handshake on_auth (pipe_pending body) else None) of
       Some (resp, tun, rest) \<Rightarrow>
         \<exists>b. out = Tunnel resp tun b \<and> pipe_pending b = rest \<and> in_end b = in_end body
     | None \<Rightarrow>
         \<exists>m. out = Fallback m \<and>
           (\<forall>n. length (pipe_pending body) < n \<longrightarrow>
             (\<exists>m'. io_read_full (multi_read pipe_read) m n =
               Some (m', pipe_pending body,
                 Some (short_error (pipe_pending body) (in_end body))))))"
proof -
  have reads: "\<exists>m'. io_read_full (multi_read pipe_read) m n =
      Some (m', pipe_pending body, Some (short_error (pipe_pending body) (in_end body)))"
    if "multi_pending pipe_pending m = pipe_pending body" and "in_end (mr_last m) = in_end body"
      and "length (pipe_pending body) < n" for m n
    using multi.read_full_short [of m n] that by simp
  show ?thesis
  proof (cases "to_tunnel tunnel_path method path")
    case True
    then show ?thesis
      using pipe.tunnel_handler_spec [of on_auth body] reads
      by (auto simp: serve_http_def to_tunnel_def tunnel_method_def split: option.splits)
  next
    case False
    then show ?thesis
      using reads [of "\<lparr>mr_heads = [], mr_last = body\<rparr>"]
      by (auto simp: serve_http_def to_tunnel_def tunnel_method_def multi_pending_def)
  qed
qed

lemma cover_site_sees_original_body_witness:
  "\<exists>m m'. serve_http default_tunnel_path (\<lambda>m. Inl EOF :: go_error + bytes \<times> nat option) pipe_read
      ''POST'' default_tunnel_path \<lparr>in_chunks = [[0], [3, 9, 9], [9, 7]], in_end = EOF\<rparr> =
      Some (Fallback m) \<and>
    io_read_full (multi_read pipe_read) m 100 = Some (m', [0, 3, 9, 9, 9, 7], Some UnexpectedEOF)"
proof -
  have "length (pipe_pending \<lparr>in_chunks = [[0], [3, 9, 9], [9, 7]], in_end = EOF\<rparr>) < 100"
    by (simp add: pipe_pending_def)
  with cover_site_sees_original_body [of default_tunnel_path
      "\<lambda>m. Inl EOF :: go_error + bytes \<times> nat option" "''POST''" default_tunnel_path
      "\<lparr>in_chunks = [[0], [3, 9, 9], [9, 7]], in_end = EOF\<rparr>"]
  show ?thesis
    by (fastforce simp: accepted_handshake_def pipe_pending_def short_error_def split: option.splits)
qed

context byte_source begin

lemma read_length_prefixed_message:
  assumes "pending r = put_be16 (word_of_nat (length data)) @ data @ rest"
    and "data \<noteq> []" and "length data \<le> 65535"
  shows "\<exists>r'. read_length_prefixed read r = Some (r', Inr data) \<and> pending r' = rest \<and>
    final r' = final r"
proof -
  have n: "unat (word_of_nat (length data) :: 16 word) = length data" using assms(3) by simp
  obtain r1 where r1: "io_read_full read r 2 = Some (r1, put_be16 (word_of_nat (length data)), None)"
    "pending r1 = data @ rest" "final r1 = final r"
    using read_full_enough [of 2 r] assms(1) by (auto simp: put_be16_def)
  obtain r2 where "io_read_full read r1 (length data) = Some (r2, data, None)"
    "pending r2 = rest" "final r2 = final r"
    using read_full_enough [of "length data" r1] r1 by auto
  with r1 n assms(2) show ?thesis by (simp add: read_length_prefixed_def Let_def)
qed

end

context byte_sink begin

lemma write_length_prefixed_ok:
  assumes "inv w" and "write_length_prefixed put w data = (w', None)"
  shows "length data \<le> 65535 \<and> inv w' \<and>
    sent w' = sent w @ put_be16 (word_of_nat (length data)) @ data"
proof -
  from assms(2) obtain w1 n m where len: "length data \<le> 65535"
    and w1: "put w (put_be16 (word_of_nat (length data))) = (w1, n, None)"
    and w2: "put w1 data = (w', m, None)"
    by (auto simp: write_length_prefixed_def split: if_splits prod.splits option.splits)
  from write_ok [OF assms(1) w1] have "sent w1 = sent w @ put_be16 (word_of_nat (length data))"
    and i: "inv w1" by simp_all
  with write_ok [OF i w2] len show ?thesis by simp
qed

end

text \<open>
  the handshake envelope round trip. A message written by \<^verbatim>\<open>writeLengthPrefixed\<close> is the one
  \<^verbatim>\<open>readLengthPrefixed\<close> returns, however the pieces arrive, and the tunnel data behind it is left in
  place; and the server's handler recognises it as a handshake when it is no longer than 4096
  bytes.
\<close>

theorem envelope_roundtrip:
  assumes "write_length_prefixed pipe_write w msg = (w', None)" and "msg \<noteq> []"
    and "pipe_sent w' = pipe_sent w @ bs" and "pipe_pending r = bs @ rest"
  shows "(\<exists>r'. read_length_prefixed pipe_read r = Some (r', Inr msg) \<and> pipe_pending r' = rest \<and>
      in_end r' = in_end r) \<and>
    (if length msg \<le> 4096 then envelope (bs @ rest) = Some (msg, rest)
     else envelope (bs @ rest) = None)"
proof -
  from pipe_end.write_length_prefixed_ok [OF _ assms(1)] assms(3)
  have bs: "bs = put_be16 (word_of_nat (length msg)) @ msg" and len: "length msg \<le> 65535" by auto
  have "unat (word_of_nat (length msg) :: 16 word) = length msg" using len by simp
  with bs assms(2) have "if length msg \<le> 4096 then envelope (bs @ rest) = Some (msg, rest)
      else envelope (bs @ rest) = None"
    by (simp add: envelope_def max_handshake_buffer_def Let_def)
  with pipe.read_length_prefixed_message [of r msg rest] assms(2,4) bs len show ?thesis by simp
qed

lemma envelope_roundtrip_witness:
  "(\<exists>r'. read_length_prefixed pipe_read \<lparr>in_chunks = [[0], [2, 5], [6, 7, 8]], in_end = EOF\<rparr> =
      Some (r', Inr [5, 6]) \<and> pipe_pending r' = [7, 8]) \<and>
    envelope [0, 2, 5, 6, 7, 8] = Some ([5, 6], [7, 8])"
proof -
  have "write_length_prefixed pipe_write \<lparr>out_chunks = [], out_closed = False\<rparr> [5, 6] =
      (\<lparr>out_chunks = [[0, 2], [5, 6]], out_closed = False\<rparr>, None)"
    by (simp add: write_length_prefixed_def pipe_write_def put_be16_def)
  from envelope_roundtrip [OF this, of "[0, 2, 5, 6]" "\<lparr>in_chunks = [[0], [2, 5], [6, 7, 8]], in_end = EOF\<rparr>"
      "[7, 8]"]
  show ?thesis by (auto simp: pipe_sent_def pipe_pending_def)
qed

text \<open>
  \<^verbatim>\<open>parseLengthPrefixed\<close> on every buffer: the two length errors, the announced bytes, and a
  panic when a complete message announces 65534 or 65535 bytes, because the end of the slice is
  computed in \<^verbatim>\<open>uint16\<close> and wraps to 0 or 1.
\<close>

theorem parse_length_prefixed_verdict:
  "parse_length_prefixed buf =
     (let n = unat (get_be16 (subslice 0 2 buf))
      in if length buf < 2 then Some (Inl (Errorf ''buffer too short for length prefix'' []))
         else if n = 0 then Some (Inl (Errorf ''zero-length message'' []))
         else if length buf < 2 + n
         then Some (Inl (Errorf ''declared length %d exceeds available %d''
                [int n, int (length buf) - 2]))
         else if 65534 \<le> n then None
         else Some (Inr (take n (drop 2 buf))))"
proof -
  define w where "w = get_be16 (subslice 0 2 buf)"
  have lt: "unat w < 65536" using unsigned_less [of w] by simp
  have sum: "unat (2 + w) = (if 65534 \<le> unat w then unat w - 65534 else 2 + unat w)"
    using lt by (simp add: unat_word_ariths mod_if)
  have zero: "w = 0 \<longleftrightarrow> unat w = 0" by (simp add: unsigned_eq_0_iff)
  have "go_slice 2 (unat (2 + w)) buf =
      (if 65534 \<le> unat w then None else Some (take (unat w) (drop 2 buf)))"
    if "\<not> length buf - 2 < unat w" and "2 \<le> length buf"
    using that lt by (auto simp: go_slice_def sum subslice_def)
  moreover have "length buf - 2 < unat w \<longleftrightarrow> length buf < 2 + unat w" if "2 \<le> length buf"
    using that by auto
  ultimately show ?thesis
    unfolding parse_length_prefixed_def w_def [symmetric] Let_def zero by auto
qed

lemma relay_copies:
  assumes "\<not> out_closed w"
  shows "\<exists>r' w'. copy_loop pipe_read pipe_write r w = Some (r', w', in_end r) \<and>
    pipe_sent w' = pipe_sent w @ pipe_pending r"
proof -
  have "byte_sink pipe_write pipe_sent (\<lambda>w. \<not> out_closed w)"
    by (rule open_pipe.byte_sink_axioms)
  moreover have "\<exists>w' n. pipe_write w p = (w', n, None)" if "\<not> out_closed w" for w p
    using that by (simp add: pipe_write_def)
  ultimately show ?thesis
    using pipe.copy_all [of pipe_write pipe_sent "\<lambda>w. \<not> out_closed w" w r] assms by blast
qed

text \<open>
  the relay between the HTTP stream and the tunnel ends, and until an end fails it forwards
  every byte it read, in order, whatever the pieces.
\<close>

theorem relay_forwards_everything:
  assumes "\<not> out_closed w"
  shows "\<exists>r' w'. copy_loop pipe_read pipe_write r w = Some (r', w', in_end r) \<and>
    pipe_sent w' = pipe_sent w @ pipe_pending r"
  using relay_copies [OF assms] .

lemma relay_forwards_everything_witness:
  "\<exists>r' w'. copy_loop pipe_read pipe_write \<lparr>in_chunks = [[1], [], [2, 3]], in_end = ClosedPipe\<rparr>
      \<lparr>out_chunks = [[9]], out_closed = False\<rparr> = Some (r', w', ClosedPipe) \<and> pipe_sent w' = [9, 1, 2, 3]"
  using relay_forwards_everything [of "\<lparr>out_chunks = [[9]], out_closed = False\<rparr>"
      "\<lparr>in_chunks = [[1], [], [2, 3]], in_end = ClosedPipe\<rparr>"]
  by (auto simp: pipe_sent_def pipe_pending_def)

end
