(* ===== verification/Server.thy ===== *)
theory Server
  imports Auth Camouflage
begin

text \<open>
  The session table of \<^verbatim>\<open>cmd/ghost-server/main.go\<close>: the authentication callback \<^verbatim>\<open>onAuth\<close>, which
  kicks out the previous session of the same client, \<^verbatim>\<open>closeSession\<close>, and the goroutine that
  removes a session once its multiplexer is done. A session is an entry of \<open>sv_sessions\<close> with
  the components \<^verbatim>\<open>closeSession\<close> shuts down as flags; \<open>sv_active\<close> is \<^verbatim>\<open>activeSessions\<close>, keyed by the
  text form of the client's key.
\<close>

record 'c server_session =
  ss_client :: string
  ss_keys :: "'c session"
  ss_close_once :: bool
  ss_shaper_stopped :: bool
  ss_mux_done :: bool
  ss_coalesced_closed :: bool
  ss_pipes_closed :: bool
  ss_cleanup_pending :: bool

record 'c server =
  sv_active :: "string \<Rightarrow> nat option"
  sv_sessions :: "'c server_session list"
  sv_allowed :: "string list"

definition new_server :: "string list \<Rightarrow> 'c server" where
  "new_server allowed = \<lparr>sv_active = (\<lambda>_. None), sv_sessions = [], sv_allowed = allowed\<rparr>"

definition close_session :: "'c server_session \<Rightarrow> 'c server_session" where
  "close_session s =
     (if ss_close_once s then s
      else s\<lparr>ss_close_once := True, ss_shaper_stopped := True, ss_mux_done := True,
             ss_coalesced_closed := True, ss_pipes_closed := True\<rparr>)"

text \<open>
  The handshake part of \<^verbatim>\<open>onAuth\<close>: the client's static key, the reply and the session keys, or the
  error of the first step that fails. \<open>new_hs\<close>, \<open>rd\<close>, \<open>wr\<close> and \<open>peer_static\<close> are the Noise package.
\<close>

definition authenticate ::
  "(noise_config \<Rightarrow> go_error + 'h) \<Rightarrow> ('h, 'c) handshake_op \<Rightarrow> ('h, 'c) handshake_op \<Rightarrow>
   ('h \<Rightarrow> bytes) \<Rightarrow> dh_key \<Rightarrow> string list \<Rightarrow> bytes \<Rightarrow> go_error + string \<times> bytes \<times> 'c session" where
  "authenticate new_hs rd wr peer_static server_kp allowed msg1 =
     (case new_responder new_hs server_kp of
        Inl e \<Rightarrow> Inl e
      | Inr hs \<Rightarrow>
          (case responder_read rd hs msg1 of
             (hs1, Inl e) \<Rightarrow> Inl e
           | (hs1, Inr _) \<Rightarrow>
               let client_pub = encode_key (peer_static hs1)
               in if allowed \<noteq> [] \<and> client_pub \<notin> set allowed
                  then Inl (Errorf ''client not in allowed list'' [])
                  else
                    (case responder_write wr hs1 [] of
                       (hs2, Inl e) \<Rightarrow> Inl e
                     | (hs2, Inr (msg2, ses)) \<Rightarrow> Inr (client_pub, msg2, ses))))"

definition fresh_session :: "string \<Rightarrow> 'c session \<Rightarrow> 'c server_session" where
  "fresh_session client_pub ses =
     \<lparr>ss_client = client_pub, ss_keys = ses, ss_close_once = False, ss_shaper_stopped = False,
      ss_mux_done = False, ss_coalesced_closed = False, ss_pipes_closed = False,
      ss_cleanup_pending = True\<rparr>"

definition install_session :: "string \<Rightarrow> 'c session \<Rightarrow> 'c server \<Rightarrow> 'c server" where
  "install_session client_pub ses sv =
     (let kicked =
        (case sv_active sv client_pub of
           None \<Rightarrow> sv_sessions sv
         | Some old \<Rightarrow> (sv_sessions sv)[old := close_session (sv_sessions sv ! old)])
      in sv\<lparr>sv_sessions := kicked @ [fresh_session client_pub ses],
            sv_active := (sv_active sv)(client_pub := Some (length (sv_sessions sv)))\<rparr>)"

definition on_auth ::
  "(noise_config \<Rightarrow> go_error + 'h) \<Rightarrow> ('h, 'c) handshake_op \<Rightarrow> ('h, 'c) handshake_op \<Rightarrow>
   ('h \<Rightarrow> bytes) \<Rightarrow> dh_key \<Rightarrow> bytes \<Rightarrow> 'c server \<Rightarrow> 'c server \<times> (go_error + bytes \<times> nat option)" where
  "on_auth new_hs rd wr peer_static server_kp msg1 sv =
     (case authenticate new_hs rd wr peer_static server_kp (sv_allowed sv) msg1 of
        Inl e \<Rightarrow> (sv, Inl e)
      | Inr (client_pub, msg2, ses) \<Rightarrow>
          (install_session client_pub ses sv, Inr (msg2, Some (length (sv_sessions sv)))))"

text \<open>The multiplexer of session \<open>i\<close> ends on its own, and the goroutine waiting for that.\<close>

definition mux_ends :: "nat \<Rightarrow> 'c server \<Rightarrow> 'c server" where
  "mux_ends i sv =
     (if i < length (sv_sessions sv)
      then sv\<lparr>sv_sessions := (sv_sessions sv)[i := (sv_sessions sv ! i)\<lparr>ss_mux_done := True\<rparr>]\<rparr>
      else sv)"

definition cleanup_session :: "nat \<Rightarrow> 'c server \<Rightarrow> 'c server" where
  "cleanup_session i sv =
     (if i < length (sv_sessions sv) \<and> ss_cleanup_pending (sv_sessions sv ! i) \<and>
         ss_mux_done (sv_sessions sv ! i)
      then
        let s = sv_sessions sv ! i;
            sv1 = sv\<lparr>sv_sessions := (sv_sessions sv)[i := s\<lparr>ss_cleanup_pending := False\<rparr>]\<rparr>
        in if sv_active sv1 (ss_client s) = Some i
           then sv1\<lparr>sv_active := (sv_active sv1)(ss_client s := None)\<rparr>
           else sv1
      else sv)"

datatype server_event = Auth_request bytes | Mux_ends nat | Cleanup nat

fun server_step ::
  "(noise_config \<Rightarrow> go_error + 'h) \<Rightarrow> ('h, 'c) handshake_op \<Rightarrow> ('h, 'c) handshake_op \<Rightarrow>
   ('h \<Rightarrow> bytes) \<Rightarrow> dh_key \<Rightarrow> server_event \<Rightarrow> 'c server \<Rightarrow> 'c server" where
  "server_step new_hs rd wr ps kp (Auth_request msg1) sv = fst (on_auth new_hs rd wr ps kp msg1 sv)"
| "server_step new_hs rd wr ps kp (Mux_ends i) sv = mux_ends i sv"
| "server_step new_hs rd wr ps kp (Cleanup i) sv = cleanup_session i sv"

fun server_run ::
  "(noise_config \<Rightarrow> go_error + 'h) \<Rightarrow> ('h, 'c) handshake_op \<Rightarrow> ('h, 'c) handshake_op \<Rightarrow>
   ('h \<Rightarrow> bytes) \<Rightarrow> dh_key \<Rightarrow> server_event list \<Rightarrow> 'c server \<Rightarrow> 'c server" where
  "server_run new_hs rd wr ps kp [] sv = sv"
| "server_run new_hs rd wr ps kp (ev # evs) sv =
     server_run new_hs rd wr ps kp evs (server_step new_hs rd wr ps kp ev sv)"

section \<open>The invariant of the table\<close>

text \<open>
  The table points to sessions of the right client that are not cleaned up; and every session
  that is still running is in the table.
\<close>

definition server_inv :: "'c server \<Rightarrow> bool" where
  "server_inv sv \<longleftrightarrow>
     (\<forall>k i. sv_active sv k = Some i \<longrightarrow>
        i < length (sv_sessions sv) \<and> ss_client (sv_sessions sv ! i) = k \<and>
        ss_cleanup_pending (sv_sessions sv ! i)) \<and>
     (\<forall>i < length (sv_sessions sv). \<not> ss_mux_done (sv_sessions sv ! i) \<longrightarrow>
        sv_active sv (ss_client (sv_sessions sv ! i)) = Some i \<and>
        \<not> ss_close_once (sv_sessions sv ! i)) \<and>
     (\<forall>i < length (sv_sessions sv).
        sv_allowed sv \<noteq> [] \<longrightarrow> ss_client (sv_sessions sv ! i) \<in> set (sv_allowed sv))"

lemma close_session_simps [simp]:
  "ss_client (close_session s) = ss_client s" "ss_mux_done (close_session s) \<longleftrightarrow> ss_mux_done s \<or> \<not> ss_close_once s"
  "ss_cleanup_pending (close_session s) = ss_cleanup_pending s"
  by (simp_all add: close_session_def)

lemma server_invD:
  assumes "server_inv sv"
  shows "sv_active sv k = Some i \<Longrightarrow> i < length (sv_sessions sv) \<and>
      ss_client (sv_sessions sv ! i) = k \<and> ss_cleanup_pending (sv_sessions sv ! i)"
    and "i < length (sv_sessions sv) \<Longrightarrow> \<not> ss_mux_done (sv_sessions sv ! i) \<Longrightarrow>
      sv_active sv (ss_client (sv_sessions sv ! i)) = Some i \<and> \<not> ss_close_once (sv_sessions sv ! i)"
    and "i < length (sv_sessions sv) \<Longrightarrow> sv_allowed sv \<noteq> [] \<Longrightarrow>
      ss_client (sv_sessions sv ! i) \<in> set (sv_allowed sv)"
  using assms by (simp_all add: server_inv_def)

lemma install_session_nth:
  assumes "server_inv sv" and "i \<le> length (sv_sessions sv)"
  shows "sv_sessions (install_session k ses sv) ! i =
    (if i = length (sv_sessions sv) then fresh_session k ses
     else if sv_active sv k = Some i then close_session (sv_sessions sv ! i)
     else sv_sessions sv ! i)"
  using assms server_invD(1) [OF assms(1), of k]
  by (auto simp: install_session_def Let_def nth_append nth_list_update split: option.splits)

lemma install_session_simps:
  "length (sv_sessions (install_session k ses sv)) = Suc (length (sv_sessions sv))"
  "sv_active (install_session k ses sv) = (sv_active sv)(k := Some (length (sv_sessions sv)))"
  "sv_allowed (install_session k ses sv) = sv_allowed sv"
  by (simp_all add: install_session_def Let_def split: option.splits)

lemma server_inv_install:
  assumes inv: "server_inv sv" and k: "sv_allowed sv \<noteq> [] \<longrightarrow> k \<in> set (sv_allowed sv)"
  shows "server_inv (install_session k ses sv)"
  unfolding server_inv_def install_session_simps
proof (intro conjI allI impI)
  fix k' i
  assume "((sv_active sv)(k \<mapsto> length (sv_sessions sv))) k' = Some i"
  with server_invD(1) [OF inv, of k' i]
  show "i < Suc (length (sv_sessions sv))"
    and "ss_client (sv_sessions (install_session k ses sv) ! i) = k'"
    and "ss_cleanup_pending (sv_sessions (install_session k ses sv) ! i)"
    by (auto simp: install_session_nth [OF inv] fresh_session_def split: if_splits)
next
  fix i
  assume i: "i < Suc (length (sv_sessions sv))"
  let ?s = "sv_sessions (install_session k ses sv) ! i"
  show "sv_allowed sv \<noteq> [] \<Longrightarrow> ss_client ?s \<in> set (sv_allowed sv)"
    using i k server_invD(3) [OF inv, of i]
    by (auto simp: install_session_nth [OF inv] fresh_session_def)
  assume run: "\<not> ss_mux_done ?s"
  show "((sv_active sv)(k \<mapsto> length (sv_sessions sv))) (ss_client ?s) = Some i" and "\<not> ss_close_once ?s"
    using i run server_invD(2) [OF inv, of i]
    by (auto simp: install_session_nth [OF inv] fresh_session_def split: if_splits)
qed

lemma authenticate_allowed:
  "authenticate new_hs rd wr ps kp allowed msg1 = Inr (k, msg2, ses) \<Longrightarrow>
   allowed \<noteq> [] \<longrightarrow> k \<in> set allowed"
  by (auto simp: authenticate_def Let_def split: sum.splits prod.splits if_splits)

lemma server_inv_update:
  assumes inv: "server_inv sv" and i: "i < length (sv_sessions sv)"
    and client: "ss_client (f (sv_sessions sv ! i)) = ss_client (sv_sessions sv ! i)"
    and fin: "ss_mux_done (f (sv_sessions sv ! i))"
    and act: "act = sv_active sv \<or> act = (sv_active sv)(ss_client (sv_sessions sv ! i) := None)"
    and pend: "act (ss_client (sv_sessions sv ! i)) = Some i \<Longrightarrow> ss_cleanup_pending (f (sv_sessions sv ! i))"
    and own: "act \<noteq> sv_active sv \<Longrightarrow> sv_active sv (ss_client (sv_sessions sv ! i)) = Some i"
  shows "server_inv (sv\<lparr>sv_sessions := (sv_sessions sv)[i := f (sv_sessions sv ! i)], sv_active := act\<rparr>)"
    (is "server_inv ?sv")
proof -
  have nth: "sv_sessions ?sv ! j = (if j = i then f (sv_sessions sv ! i) else sv_sessions sv ! j)"
    if "j < length (sv_sessions sv)" for j
    using that i by (simp add: nth_list_update)
  have sub: "sv_active sv k = Some j" if "act k = Some j" for k j
    using that act by (auto split: if_splits)
  have entry: "j < length (sv_sessions sv) \<and> ss_client (sv_sessions ?sv ! j) = k \<and>
      ss_cleanup_pending (sv_sessions ?sv ! j)" if a: "act k = Some j" for k j
  proof (cases "j = i")
    case True
    with server_invD(1) [OF inv sub [OF a]] pend a client i show ?thesis by simp
  next
    case False
    with server_invD(1) [OF inv sub [OF a]] show ?thesis by simp
  qed
  have live: "act (ss_client (sv_sessions ?sv ! j)) = Some j \<and> \<not> ss_close_once (sv_sessions ?sv ! j)"
    if j: "j < length (sv_sessions sv)" and run: "\<not> ss_mux_done (sv_sessions ?sv ! j)" for j
  proof -
    have ne: "j \<noteq> i" using run fin i by auto
    with server_invD(2) [OF inv j] run have l: "sv_active sv (ss_client (sv_sessions sv ! j)) = Some j"
      "\<not> ss_close_once (sv_sessions sv ! j)" by simp_all
    have "act (ss_client (sv_sessions sv ! j)) = Some j"
    proof (cases "act = sv_active sv")
      case False
      with own l ne have "ss_client (sv_sessions sv ! j) \<noteq> ss_client (sv_sessions sv ! i)" by auto
      with False act l show ?thesis by auto
    qed (use l in simp)
    with l ne show ?thesis by simp
  qed
  have "ss_client (sv_sessions ?sv ! j) = ss_client (sv_sessions sv ! j)"
    if "j < length (sv_sessions sv)" for j
    using client nth [OF that] by auto
  with entry live server_invD(3) [OF inv] show ?thesis
    unfolding server_inv_def by (intro conjI allI impI) simp_all
qed

lemma server_inv_mux_ends: "server_inv sv \<Longrightarrow> server_inv (mux_ends i sv)"
  using server_inv_update [of sv i "\<lambda>s. s\<lparr>ss_mux_done := True\<rparr>" "sv_active sv"]
  by (auto simp: mux_ends_def dest: server_invD(1))

lemma server_inv_cleanup:
  assumes "server_inv sv"
  shows "server_inv (cleanup_session i sv)"
proof (cases "i < length (sv_sessions sv) \<and> ss_cleanup_pending (sv_sessions sv ! i) \<and>
    ss_mux_done (sv_sessions sv ! i)")
  case True
  let ?k = "ss_client (sv_sessions sv ! i)"
  show ?thesis
  proof (cases "sv_active sv ?k = Some i")
    case owner: True
    have "server_inv (sv\<lparr>sv_sessions :=
        (sv_sessions sv)[i := (sv_sessions sv ! i)\<lparr>ss_cleanup_pending := False\<rparr>],
        sv_active := (sv_active sv)(?k := None)\<rparr>)"
      using True owner by (intro server_inv_update [OF assms] disjI2 refl) simp_all
    with True owner show ?thesis by (simp add: cleanup_session_def Let_def)
  next
    case other: False
    have "server_inv (sv\<lparr>sv_sessions :=
        (sv_sessions sv)[i := (sv_sessions sv ! i)\<lparr>ss_cleanup_pending := False\<rparr>],
        sv_active := sv_active sv\<rparr>)"
      using True other by (intro server_inv_update [OF assms] disjI1 refl) simp_all
    with True other show ?thesis by (simp add: cleanup_session_def Let_def)
  qed
qed (use assms in \<open>auto simp: cleanup_session_def\<close>)

lemma server_inv_step:
  assumes "server_inv sv"
  shows "server_inv (server_step new_hs rd wr ps kp ev sv)"
proof (cases ev)
  case (Auth_request msg1)
  with assms show ?thesis
    by (auto simp: on_auth_def dest: authenticate_allowed split: sum.splits
        intro: server_inv_install)
next
  case (Mux_ends i)
  with assms server_inv_mux_ends [of sv i] show ?thesis by simp
next
  case (Cleanup i)
  with assms server_inv_cleanup [of sv i] show ?thesis by simp
qed

lemma server_inv_run:
  "server_inv sv \<Longrightarrow> server_inv (server_run new_hs rd wr ps kp evs sv)"
  by (induction evs arbitrary: sv) (simp_all add: server_inv_step del: server_step.simps)

lemma server_inv_new: "server_inv (new_server allowed)"
  by (simp add: server_inv_def new_server_def)

section \<open>Properties\<close>

text \<open>
  C18: after any sequence of authentications, multiplexer ends and cleanups, in any order, a
  client has at most one running session, it is the one in the table, nobody closed it, and the
  client is on the allow-list when there is one; the table holds no stale entry, each one leads
  to a session of its client whose cleanup is still to come.
\<close>

theorem one_session_per_client:
  assumes "sv = server_run new_hs rd wr peer_static kp evs (new_server allowed)"
    and "i < length (sv_sessions sv)" and "\<not> ss_mux_done (sv_sessions sv ! i)"
  shows "sv_active sv (ss_client (sv_sessions sv ! i)) = Some i \<and>
    \<not> ss_close_once (sv_sessions sv ! i) \<and>
    (sv_allowed sv = [] \<or> ss_client (sv_sessions sv ! i) \<in> set (sv_allowed sv)) \<and>
    (\<forall>j < length (sv_sessions sv). ss_client (sv_sessions sv ! j) = ss_client (sv_sessions sv ! i) \<longrightarrow>
       j = i \<or> ss_mux_done (sv_sessions sv ! j)) \<and>
    (\<forall>k j. sv_active sv k = Some j \<longrightarrow>
       j < length (sv_sessions sv) \<and> ss_client (sv_sessions sv ! j) = k \<and>
       ss_cleanup_pending (sv_sessions sv ! j))"
proof -
  have "server_inv sv" using assms(1) server_inv_run [OF server_inv_new] by simp
  note inv = server_invD [OF this]
  have "j = i \<or> ss_mux_done (sv_sessions sv ! j)"
    if "j < length (sv_sessions sv)" "ss_client (sv_sessions sv ! j) = ss_client (sv_sessions sv ! i)" for j
    using inv(2) [OF assms(2,3)] inv(2) [OF that(1)] that(2) by auto
  with inv(1) inv(2) [OF assms(2,3)] inv(3) [OF assms(2)] show ?thesis by blast
qed

text \<open>A server whose Noise package takes the message as the client's key, for concrete runs.\<close>

definition demo_run :: "server_event list \<Rightarrow> nat server" where
  "demo_run evs = server_run (\<lambda>_. Inr []) (\<lambda>hs m. (m, Inr ([], None, None)))
     (\<lambda>hs p. (hs, Inr ([1], Some 0, Some 0))) (\<lambda>hs. hs)
     \<lparr>dh_private = replicate 32 0, dh_public = replicate 32 0\<rparr> evs (new_server [])"

lemmas server_eval =
  demo_run_def new_server_def on_auth_def authenticate_def new_responder_def Keys.key_size_def
  responder_read_def responder_write_def install_session_def fresh_session_def close_session_def
  mux_ends_def cleanup_session_def new_session_def Let_def

lemma one_session_per_client_witness:
  "sv_active (demo_run [Auth_request [5], Auth_request [5], Cleanup 0]) (encode_key [5]) = Some 1 \<and>
   ss_mux_done (sv_sessions (demo_run [Auth_request [5], Auth_request [5], Cleanup 0]) ! 0)"
proof -
  let ?sv = "demo_run [Auth_request [5], Auth_request [5], Cleanup 0]"
  have s: "length (sv_sessions ?sv) = 2" "\<not> ss_mux_done (sv_sessions ?sv ! 1)"
    "ss_client (sv_sessions ?sv ! 0) = encode_key [5]" "ss_client (sv_sessions ?sv ! 1) = encode_key [5]"
    by (simp_all add: server_eval)
  then have "1 < length (sv_sessions ?sv)" by simp
  note one = one_session_per_client [OF demo_run_def this s(2)]
  then have "0 < length (sv_sessions ?sv) \<longrightarrow>
      ss_client (sv_sessions ?sv ! 0) = ss_client (sv_sessions ?sv ! 1) \<longrightarrow>
      0 = (1 :: nat) \<or> ss_mux_done (sv_sessions ?sv ! 0)" by blast
  with one s show ?thesis by simp
qed

text \<open>
  C19: the gate. A request gets a tunnel only if it is a POST to the tunnel path whose body
  starts with an envelope holding a handshake message that the server's key authenticates, from a
  client on the allow-list when there is one; the reply is the handshake reply, the endpoint is
  the session just put in the table under that client's key, and the tunnel data is what
  follows the envelope.
\<close>

theorem tunnel_only_for_authenticated:
  assumes "serve_http tunnel_path (\<lambda>m. snd (on_auth new_hs rd wr peer_static kp m sv)) pipe_read
      method path body = Some (Tunnel resp tun b)"
  shows "method = ''POST'' \<and> path = tunnel_path \<and>
    (\<exists>msg1 k ses. envelope (pipe_pending body) = Some (msg1, pipe_pending b) \<and>
       authenticate new_hs rd wr peer_static kp (sv_allowed sv) msg1 = Inr (k, resp, ses) \<and>
       (sv_allowed sv = [] \<or> k \<in> set (sv_allowed sv)) \<and>
       tun = sv_active (fst (on_auth new_hs rd wr peer_static kp msg1 sv)) k \<and> tun \<noteq> None)"
proof (cases "method = ''POST'' \<and> path = tunnel_path")
  case False
  with assms show ?thesis by (auto simp: serve_http_def to_tunnel_def tunnel_method_def)
next
  case True
  let ?auth = "\<lambda>m. snd (on_auth new_hs rd wr peer_static kp m sv)"
  from True assms have h: "tunnel_handler ?auth pipe_read body = Some (Tunnel resp tun b)"
    by (auto simp: serve_http_def to_tunnel_def tunnel_method_def split: if_splits)
  with pipe.tunnel_handler_spec [of ?auth body]
  obtain rest where "accepted_handshake ?auth (pipe_pending body) = Some (resp, tun, rest)"
    and "pipe_pending b = rest" by (auto split: option.splits)
  then obtain msg1 where e: "envelope (pipe_pending body) = Some (msg1, pipe_pending b)"
    and a: "?auth msg1 = Inr (resp, tun)"
    by (auto simp: accepted_handshake_def split: option.splits sum.splits)
  from a obtain k ses where k:
    "authenticate new_hs rd wr peer_static kp (sv_allowed sv) msg1 = Inr (k, resp, ses)"
    "tun = Some (length (sv_sessions sv))"
    by (auto simp: on_auth_def split: sum.splits)
  with authenticate_allowed [OF k(1)] True e show ?thesis
    by (auto simp: on_auth_def install_session_simps)
qed

lemma tunnel_only_for_authenticated_witness:
  "\<exists>msg1 k ses. envelope [0, 1, 5, 8] = Some (msg1, [8]) \<and>
    authenticate (\<lambda>_. Inr []) (\<lambda>hs m. (m, Inr ([], None, None)))
      (\<lambda>hs p. (hs, Inr ([1], Some 0, Some 0))) (\<lambda>hs. hs)
      \<lparr>dh_private = replicate 32 0, dh_public = replicate 32 0\<rparr> [encode_key [5]] msg1 =
      Inr (k, [1], ses :: nat session)"
proof -
  let ?kp = "\<lparr>dh_private = replicate 32 0, dh_public = replicate 32 0\<rparr>"
  let ?rd = "\<lambda>hs m. (m, Inr ([], None, None)) :: bytes \<times> (go_error + bytes \<times> nat option \<times> nat option)"
  let ?wr = "\<lambda>hs p. (hs, Inr ([1], Some 0, Some 0)) :: bytes \<times> (go_error + bytes \<times> nat option \<times> nat option)"
  have "serve_http default_tunnel_path
      (\<lambda>m. snd (on_auth (\<lambda>_. Inr []) ?rd ?wr (\<lambda>hs. hs) ?kp m (new_server [encode_key [5]]))) pipe_read
      ''POST'' default_tunnel_path \<lparr>in_chunks = [[0, 1], [5, 8]], in_end = EOF\<rparr> =
      Some (Tunnel [1] (Some 0) \<lparr>in_chunks = [[8]], in_end = EOF\<rparr>)"
    by (simp add: serve_http_def to_tunnel_def tunnel_method_def tunnel_handler_def
        io_read_full_def read_loop.simps pipe_read_def get_be16_def max_handshake_buffer_def server_eval)
  from tunnel_only_for_authenticated [OF this] show ?thesis
    by (auto simp: pipe_pending_def new_server_def)
qed

section \<open>The allow-list compares texts\<close>

text \<open>
  \<^verbatim>\<open>DecodeKey\<close> accepts a key in four base64 forms, but the allow-list is compared with the one
  form \<^verbatim>\<open>EncodeKey\<close> writes: a client listed in another form of its key is turned away.
\<close>

lemma allow_list_wants_canonical_text:
  assumes "new_responder new_hs kp = Inr hs" and "responder_read rd hs msg1 = (hs1, Inr p)"
    and "peer_static hs1 = k" and "decode_key t = Inr k" and "t \<noteq> encode_key k"
  shows "authenticate new_hs rd wr peer_static kp [t] msg1 =
    Inl (Errorf ''client not in allowed list'' [])"
  using assms by (auto simp: authenticate_def Let_def)

end
