(* ===== verification/Gateway.thy ===== *)
theory Gateway
  imports Composition Server
begin

text \<open>
  The running server, \<^verbatim>\<open>cmd/ghost-server/main.go\<close>: the session table, one multiplexed connection per
  session and the TUN router, which the callback given to \<^verbatim>\<open>mux.NewConn\<close> ties together by running
  \<^verbatim>\<open>TunRouter.Bridge\<close> on each stream a client opens. The components are those of \<open>Server\<close>, \<open>Mux_Conn\<close>
  and \<open>Tun_Router\<close>; here their operations are joined the way the program joins them, so that
  what a bridge reads is what its stream holds and what it writes goes into its session's connection.
\<close>

section \<open>State\<close>

text \<open>
  \<open>gw_conns\<close> has the connection of each session of the table, \<open>gw_callbacks\<close> the streams (session and
  address) whose callback waits in its first read, \<open>gw_links\<close> the stream of each bridge of the router.
\<close>

record 'c gateway =
  gw_server :: "'c server"
  gw_conns :: "'c tunnel_end list"
  gw_callbacks :: "(nat \<times> nat) list"
  gw_links :: "(nat \<times> nat) list"
  gw_router :: router

text \<open>What the server is given: the Noise package, its key pair and the cipher of the sessions.\<close>

record ('h, 'c) gateway_params =
  gp_new :: "noise_config \<Rightarrow> go_error + 'h"
  gp_read :: "('h, 'c) handshake_op"
  gp_write :: "('h, 'c) handshake_op"
  gp_peer :: "'h \<Rightarrow> bytes"
  gp_keys :: dh_key
  gp_enc :: "'c aead"

definition new_gateway :: "string list \<Rightarrow> 'c gateway" where
  "new_gateway allowed =
     \<lparr>gw_server = new_server allowed, gw_conns = [], gw_callbacks = [], gw_links = [],
      gw_router = new_tun_router\<rparr>"

section \<open>Operations\<close>

definition update_conn :: "nat \<Rightarrow> 'c tunnel_end \<Rightarrow> 'c gateway \<Rightarrow> 'c gateway" where
  "update_conn i c g = g\<lparr>gw_conns := (gw_conns g)[i := c]\<rparr>"

definition gw_auth ::
  "('h, 'c) gateway_params \<Rightarrow> bytes \<Rightarrow> nat Stream.stream \<Rightarrow> int \<Rightarrow> 'c gateway \<Rightarrow> 'c gateway" where
  "gw_auth par msg1 rnd now g =
     (case on_auth (gp_new par) (gp_read par) (gp_write par) (gp_peer par) (gp_keys par) msg1 (gw_server g) of
        (sv, Inl e) \<Rightarrow> g\<lparr>gw_server := sv\<rparr>
      | (sv, Inr _) \<Rightarrow>
          let new = sv_sessions sv ! length (gw_conns g);
              kicked = (case sv_active (gw_server g) (ss_client new) of
                  None \<Rightarrow> gw_conns g
                | Some old \<Rightarrow>
                    if ss_close_once (sv_sessions (gw_server g) ! old) then gw_conns g
                    else (gw_conns g)[old := close_end (gp_enc par) (gw_conns g ! old)])
          in g\<lparr>gw_server := sv, gw_conns := kicked @ [server_connection (ss_keys new) rnd now]\<rparr>)"

text \<open>
  A step of a goroutine of session \<open>i\<close>'s connection. A stream the client has opened gets its callback, and the
  session ends with its multiplexer.
\<close>

definition gw_end :: "'c aead \<Rightarrow> nat \<Rightarrow> end_event \<Rightarrow> 'c gateway \<Rightarrow> 'c gateway" where
  "gw_end enc i ev g =
     (if length (gw_conns g) \<le> i then g
      else case end_step enc ev (gw_conns g ! i) of
        (c', gone) \<Rightarrow>
          (update_conn i c' g)
            \<lparr>gw_server := (if gone then mux_ends i (gw_server g) else gw_server g),
             gw_callbacks := gw_callbacks g @ map (Pair i) (drop (length (c_spawned (gw_conns g ! i))) (c_spawned c'))\<rparr>)"

text \<open>A read of stream \<open>a\<close> of session \<open>i\<close>, which may block.\<close>

definition gw_stream_read ::
  "nat \<times> nat \<Rightarrow> nat \<Rightarrow> 'c gateway \<Rightarrow> ('c gateway \<times> (go_error + bytes)) option" where
  "gw_stream_read l n g =
     (case conn_stream_read (gw_conns g ! fst l) (snd l) n of
        None \<Rightarrow> None
      | Some (c', d, e) \<Rightarrow>
          Some (update_conn (fst l) c' g, (case e of None \<Rightarrow> Inr d | Some e \<Rightarrow> Inl e)))"

text \<open>The first read of the callback \<open>k\<close> and what \<^verbatim>\<open>Bridge\<close> does until its goroutines run.\<close>

definition gw_open :: "nat \<Rightarrow> nat \<Rightarrow> go_error option \<Rightarrow> 'c gateway \<Rightarrow> 'c gateway" where
  "gw_open k n err g =
     (if length (gw_callbacks g) \<le> k then g
      else case gw_stream_read (gw_callbacks g ! k) n g of
        None \<Rightarrow> g
      | Some (g1, res) \<Rightarrow>
          (case bridge_open res err (gw_router g1) of
             (r, e) \<Rightarrow>
               g1\<lparr>gw_callbacks := take k (gw_callbacks g) @ drop (Suc k) (gw_callbacks g), gw_router := r,
                  gw_links := (if e = None then gw_links g @ [gw_callbacks g ! k] else gw_links g)\<rparr>))"

text \<open>The two goroutines of bridge \<open>b\<close>, one iteration each.\<close>

definition gw_inbound :: "nat \<Rightarrow> nat \<Rightarrow> go_error option \<Rightarrow> 'c gateway \<Rightarrow> 'c gateway" where
  "gw_inbound b n err g =
     (if length (gw_links g) \<le> b \<or> \<not> br_reader (rt_bridges (gw_router g) ! b) then g
      else case gw_stream_read (gw_links g ! b) n g of
        None \<Rightarrow> g
      | Some (g1, res) \<Rightarrow> g1\<lparr>gw_router := bridge_inbound b res err (gw_router g1)\<rparr>)"

definition gw_drain :: "'c aead \<Rightarrow> nat \<Rightarrow> 'c gateway \<Rightarrow> 'c gateway" where
  "gw_drain enc b g =
     (if length (gw_links g) \<le> b \<or> \<not> br_writer (rt_bridges (gw_router g) ! b) then g
      else case br_queue (rt_bridges (gw_router g) ! b) of
        [] \<Rightarrow> g\<lparr>gw_router := bridge_drain b None (gw_router g)\<rparr>
      | pkt # q \<Rightarrow>
          (case conn_stream_write (coal_write (fc_write enc pipe_write))
                  (gw_conns g ! fst (gw_links g ! b)) (snd (gw_links g ! b)) pkt of
             (c', n, e) \<Rightarrow>
               (update_conn (fst (gw_links g ! b)) c' g)\<lparr>gw_router := bridge_drain b e (gw_router g)\<rparr>))"

datatype gateway_event =
    Gw_auth bytes "nat Stream.stream" int
  | Gw_end nat end_event
  | Gw_cleanup nat
  | Gw_open nat nat "go_error option"
  | Gw_inbound nat nat "go_error option"
  | Gw_drain nat
  | Gw_return nat
  | Gw_device "go_error + bytes"
  | Gw_send

fun gateway_step :: "('h, 'c) gateway_params \<Rightarrow> gateway_event \<Rightarrow> 'c gateway \<Rightarrow> 'c gateway" where
  "gateway_step par (Gw_auth msg1 rnd now) g = gw_auth par msg1 rnd now g"
| "gateway_step par (Gw_end i ev) g = gw_end (gp_enc par) i ev g"
| "gateway_step par (Gw_cleanup i) g = g\<lparr>gw_server := cleanup_session i (gw_server g)\<rparr>"
| "gateway_step par (Gw_open k n err) g = gw_open k n err g"
| "gateway_step par (Gw_inbound b n err) g = gw_inbound b n err g"
| "gateway_step par (Gw_drain b) g = gw_drain (gp_enc par) b g"
| "gateway_step par (Gw_return b) g = g\<lparr>gw_router := bridge_return b (gw_router g)\<rparr>"
| "gateway_step par (Gw_device res) g = g\<lparr>gw_router := route_lookup res (gw_router g)\<rparr>"
| "gateway_step par Gw_send g = g\<lparr>gw_router := route_send (gw_router g)\<rparr>"

text \<open>
  A client that behaves: it opens each stream id once and none after the end. A STREAM_OPEN for a live id or
  after \<^verbatim>\<open>Close\<close> leaves a stream object that is never told the end.
\<close>

fun opens_fresh :: "gateway_event \<Rightarrow> 'c gateway \<Rightarrow> bool" where
  "opens_fresh (Gw_end i ev) g \<longleftrightarrow> length (gw_conns g) \<le> i \<or> end_opens_fresh ev (gw_conns g ! i)"
| "opens_fresh ev g = True"

inductive gateway_reach :: "('h, 'c) gateway_params \<Rightarrow> string list \<Rightarrow> bool \<Rightarrow> 'c gateway \<Rightarrow> bool"
  for par allowed polite where
  start: "gateway_reach par allowed polite (new_gateway allowed)"
| step: "gateway_reach par allowed polite g \<Longrightarrow> \<not> rt_panic (gw_router g) \<Longrightarrow> (polite \<Longrightarrow> opens_fresh ev g) \<Longrightarrow>
    gateway_reach par allowed polite (gateway_step par ev g)"

lemma gateway_reach_fold:
  "gateway_reach par allowed polite g \<Longrightarrow> \<exists>evs. g = fold (gateway_step par) evs (new_gateway allowed)"
proof (induction rule: gateway_reach.induct)
  case start
  show ?case by (rule exI [of _ "[]"]) simp
next
  case (step g ev)
  then obtain evs where "g = fold (gateway_step par) evs (new_gateway allowed)" by blast
  then show ?case by (intro exI [of _ "evs @ [ev]"]) simp
qed

section \<open>The components of the server\<close>

definition server_moves :: "('h, 'c) gateway_params \<Rightarrow> 'c server \<Rightarrow> 'c server \<Rightarrow> bool" where
  "server_moves par sv sv' \<longleftrightarrow>
     sv' = sv \<or>
     (\<exists>ev. sv' = server_step (gp_new par) (gp_read par) (gp_write par) (gp_peer par) (gp_keys par) ev sv)"

definition router_moves :: "router \<Rightarrow> router \<Rightarrow> bool" where
  "router_moves r r' \<longleftrightarrow> r' = r \<or> (\<exists>ev. r' = router_step ev r)"

lemma router_movesI:
  "router_moves r (route_lookup res r)" "router_moves r (route_send r)"
  "router_moves r (fst (bridge_open res err r))" "router_moves r (bridge_drain b err r)"
  "router_moves r (bridge_inbound b res err r)" "router_moves r (bridge_return b r)" "router_moves r r"
  unfolding router_moves_def by (metis router_step.simps)+

lemma server_movesI:
  "server_moves par sv (fst (on_auth (gp_new par) (gp_read par) (gp_write par) (gp_peer par) (gp_keys par) m sv))"
  "server_moves par sv (mux_ends i sv)" "server_moves par sv (cleanup_session i sv)" "server_moves par sv sv"
  unfolding server_moves_def by (metis server_step.simps)+

lemma update_conn_simps [simp]:
  "gw_server (update_conn i c g) = gw_server g" "gw_router (update_conn i c g) = gw_router g"
  "gw_callbacks (update_conn i c g) = gw_callbacks g" "gw_links (update_conn i c g) = gw_links g"
  "gw_conns (update_conn i c g) = (gw_conns g)[i := c]"
  by (simp_all add: update_conn_def)

lemma gw_stream_readD:
  assumes "gw_stream_read l n g = Some (g1, res)"
  shows "gw_server g1 = gw_server g" and "gw_router g1 = gw_router g"
    and "gw_callbacks g1 = gw_callbacks g" and "gw_links g1 = gw_links g"
  using assms by (auto simp: gw_stream_read_def split: option.splits)

text \<open>Every step of the server is a step of its session table or none, and one of its router or none.\<close>

lemma gateway_moves:
  "server_moves par (gw_server g) (gw_server (gateway_step par ev g)) \<and>
   router_moves (gw_router g) (gw_router (gateway_step par ev g))"
proof (cases ev)
  case (Gw_auth msg1 rnd now)
  then show ?thesis
    using server_movesI(1) [of par "gw_server g" msg1]
    by (auto simp: gw_auth_def Let_def router_movesI split: prod.split sum.split)
next
  case (Gw_open k n err)
  have "router_moves (gw_router g) r" if "bridge_open res err (gw_router g) = (r, e)" for res r e
    using router_movesI(3) [of "gw_router g" res err] that by simp
  with Gw_open show ?thesis
    by (auto simp: gw_open_def server_movesI router_movesI gw_stream_readD split: option.split prod.split)
qed (auto simp: gw_end_def gw_inbound_def gw_drain_def gw_stream_readD server_movesI router_movesI
    split: option.split prod.split list.split bool.split)

interpretation table: component "new_gateway allowed" "gateway_step par" gw_server "new_server allowed"
    "server_step (gp_new par) (gp_read par) (gp_write par) (gp_peer par) (gp_keys par)"
  for par :: "('h, 'c) gateway_params" and allowed
  using gateway_moves by unfold_locales (auto simp: new_gateway_def server_moves_def)

interpretation routing: component "new_gateway allowed" "gateway_step par" gw_router new_tun_router router_step
  for par :: "('h, 'c) gateway_params" and allowed
  using gateway_moves by unfold_locales (auto simp: new_gateway_def router_moves_def)

lemma server_run_fold:
  "server_run new_hs rd wr ps kp evs sv = fold (server_step new_hs rd wr ps kp) evs sv"
  by (induction evs arbitrary: sv) (simp_all del: server_step.simps)

lemma gateway_server_inv: "gateway_reach par allowed polite g \<Longrightarrow> server_inv (gw_server g)"
  using gateway_reach_fold table.keeps [of server_inv, OF server_inv_new server_inv_step] by metis

section \<open>The invariant of the running server\<close>

definition link_ok :: "'w conn list \<Rightarrow> nat \<times> nat \<Rightarrow> bool" where
  "link_ok cs l \<longleftrightarrow> fst l < length cs \<and> snd l < length (c_heap (cs ! fst l))"

definition gateway_ok :: "bool \<Rightarrow> 'c gateway \<Rightarrow> bool" where
  "gateway_ok polite g \<longleftrightarrow>
     length (gw_conns g) = length (sv_sessions (gw_server g)) \<and>
     length (gw_links g) = length (rt_bridges (gw_router g)) \<and>
     (\<forall>i < length (gw_conns g). conn_ok (gw_conns g ! i) \<and>
        (c_done (gw_conns g ! i) \<longleftrightarrow> ss_mux_done (sv_sessions (gw_server g) ! i)) \<and>
        (polite \<longrightarrow> conn_frees (gw_conns g ! i))) \<and>
     (\<forall>l \<in> set (gw_callbacks g) \<union> set (gw_links g). link_ok (gw_conns g) l)"

lemma gateway_okD:
  assumes "gateway_ok polite g"
  shows "length (gw_conns g) = length (sv_sessions (gw_server g))"
    and "length (gw_links g) = length (rt_bridges (gw_router g))"
    and "i < length (gw_conns g) \<Longrightarrow> conn_ok (gw_conns g ! i)"
    and "i < length (gw_conns g) \<Longrightarrow> c_done (gw_conns g ! i) = ss_mux_done (sv_sessions (gw_server g) ! i)"
    and "polite \<Longrightarrow> i < length (gw_conns g) \<Longrightarrow> conn_frees (gw_conns g ! i)"
    and "l \<in> set (gw_callbacks g) \<union> set (gw_links g) \<Longrightarrow> link_ok (gw_conns g) l"
  using assms unfolding gateway_ok_def by blast+

text \<open>A step on one connection, the session table and the router following.\<close>

lemma gateway_ok_update:
  assumes ok: "gateway_ok polite g" and i: "i < length (gw_conns g)"
    and c: "conn_grows polite (gw_conns g ! i) c \<and> sv = gw_server g \<or>
      conn_closes polite (gw_conns g ! i) c \<and> sv = mux_ends i (gw_server g)"
    and cbs: "\<forall>l\<in>set cbs. link_ok ((gw_conns g)[i := c]) l"
    and links: "set ls \<subseteq> set (gw_callbacks g) \<union> set (gw_links g)" "length ls = length (rt_bridges r)"
  shows "gateway_ok polite (g\<lparr>gw_server := sv, gw_conns := (gw_conns g)[i := c], gw_callbacks := cbs,
    gw_links := ls, gw_router := r\<rparr>)"
proof -
  have heap: "length (c_heap (gw_conns g ! i)) \<le> length (c_heap c)" and cok: "conn_ok c"
    and frees: "polite \<Longrightarrow> conn_frees c"
    using c gateway_okD(5) [OF ok _ i] by (auto simp: conn_grows_def conn_closes_def)
  have len: "length (sv_sessions sv) = length (gw_conns g)"
    using c gateway_okD(1) [OF ok] by (auto simp: mux_ends_def)
  have don: "c_done ((gw_conns g)[i := c] ! j) = ss_mux_done (sv_sessions sv ! j)"
    if "j < length (gw_conns g)" for j
    using that i c gateway_okD(1) [OF ok] gateway_okD(4) [OF ok that]
    by (auto simp: conn_grows_def conn_closes_def mux_ends_def nth_list_update)
  have at: "link_ok ((gw_conns g)[i := c]) l" if "l \<in> set cbs \<union> set ls" for l
  proof (cases "l \<in> set cbs")
    case True
    with cbs show ?thesis by blast
  next
    case False
    with that links(1) have "l \<in> set (gw_callbacks g) \<union> set (gw_links g)" by blast
    from gateway_okD(6) [OF ok this] heap i show ?thesis by (auto simp: link_ok_def nth_list_update)
  qed
  have conns: "conn_ok ((gw_conns g)[i := c] ! j) \<and> (polite \<longrightarrow> conn_frees ((gw_conns g)[i := c] ! j))"
    if "j < length (gw_conns g)" for j
    using that i cok frees gateway_okD(3,5) [OF ok] by (auto simp: nth_list_update)
  show ?thesis
    unfolding gateway_ok_def using len links(2) don conns at by simp
qed

lemma router_lengths [simp]:
  "length (rt_bridges (route_lookup res r)) = length (rt_bridges r)"
  "length (rt_bridges (route_send r)) = length (rt_bridges r)"
  "length (rt_bridges (bridge_drain b err r)) = length (rt_bridges r)"
  "length (rt_bridges (bridge_inbound b res err r)) = length (rt_bridges r)"
  "length (rt_bridges (bridge_return b r)) = length (rt_bridges r)"
  by (auto simp: route_lookup_def route_send_def bridge_drain_def bridge_inbound_def bridge_return_def
      unregister_def update_bridge_def Let_def split: option.split sum.split list.split)

lemma bridge_open_length:
  "bridge_open res err r = (r', e) \<Longrightarrow>
   length (rt_bridges r') = length (rt_bridges r) + of_bool (e = None)"
  by (auto simp: bridge_open_def register_def Let_def split: sum.splits if_splits)

lemma gateway_ok_router:
  "gateway_ok polite g \<Longrightarrow> length (rt_bridges r) = length (rt_bridges (gw_router g)) \<Longrightarrow>
   gateway_ok polite (g\<lparr>gw_router := r\<rparr>)"
  by (auto simp: gateway_ok_def)

lemma gateway_ok_cleanup:
  assumes "gateway_ok polite g"
  shows "gateway_ok polite (g\<lparr>gw_server := cleanup_session i (gw_server g)\<rparr>)"
proof -
  have *: "length (sv_sessions (cleanup_session i sv)) = length (sv_sessions sv)"
    "j < length (sv_sessions sv) \<Longrightarrow>
     ss_mux_done (sv_sessions (cleanup_session i sv) ! j) = ss_mux_done (sv_sessions sv ! j)"
    for sv :: "'a server" and j
    by (auto simp: cleanup_session_def Let_def nth_list_update)
  from assms show ?thesis by (auto simp: gateway_ok_def *)
qed

text \<open>An authentication closes the connection of the client's previous session and adds one.\<close>

lemma gateway_ok_install:
  assumes ok: "gateway_ok polite g" and inv: "server_inv (gw_server g)"
    and cs: "cs = (case sv_active (gw_server g) k of None \<Rightarrow> gw_conns g
        | Some old \<Rightarrow> if ss_close_once (sv_sessions (gw_server g) ! old) then gw_conns g
            else (gw_conns g)[old := close_end enc (gw_conns g ! old)])"
  shows "gateway_ok polite (g\<lparr>gw_server := install_session k ses (gw_server g),
    gw_conns := cs @ [server_connection ses rnd now]\<rparr>)"
proof -
  let ?sv = "gw_server g" and ?new = "server_connection ses rnd now"
  note len = gateway_okD(1) [OF ok]
  have lcs: "length cs = length (gw_conns g)" by (simp add: cs split: option.split)
  have old: "conn_ok (cs ! i) \<and> (polite \<longrightarrow> conn_frees (cs ! i)) \<and>
      length (c_heap (gw_conns g ! i)) \<le> length (c_heap (cs ! i)) \<and>
      c_done (cs ! i) = ss_mux_done (sv_sessions (install_session k ses ?sv) ! i)"
    if i: "i < length (gw_conns g)" for i
  proof (cases "sv_active ?sv k = Some i \<and> \<not> ss_close_once (sv_sessions ?sv ! i)")
    case True
    with i len conn_closes_end [OF gateway_okD(3) [OF ok i], of polite enc] gateway_okD(5) [OF ok _ i]
    show ?thesis by (auto simp: cs conn_closes_def install_session_nth [OF inv])
  next
    case False
    then have "cs ! i = gw_conns g ! i"
      by (cases "sv_active ?sv k = Some i") (auto simp: cs nth_list_update split: option.split)
    with False i len gateway_okD(3-5) [OF ok] show ?thesis
      by (auto simp: install_session_nth [OF inv])
  qed
  have new: "conn_ok ?new" "conn_frees ?new" "\<not> c_done ?new"
    by (simp_all add: server_connection_def conn_frees_new) (simp add: new_conn_def)
  have nth: "(cs @ [?new]) ! i = (if i < length (gw_conns g) then cs ! i else ?new)"
    if "i < Suc (length (gw_conns g))" for i
    using that by (auto simp: nth_append lcs)
  have fresh: "\<not> ss_mux_done (sv_sessions (install_session k ses ?sv) ! length (gw_conns g))"
    using len by (simp add: install_session_nth [OF inv] fresh_session_def)
  have "conn_ok ((cs @ [?new]) ! i) \<and> (polite \<longrightarrow> conn_frees ((cs @ [?new]) ! i)) \<and>
      c_done ((cs @ [?new]) ! i) = ss_mux_done (sv_sessions (install_session k ses ?sv) ! i)"
    if "i < Suc (length (gw_conns g))" for i
    using that old [of i] new fresh by (auto simp: nth less_Suc_eq)
  moreover have "link_ok (cs @ [?new]) l" if "l \<in> set (gw_callbacks g) \<union> set (gw_links g)" for l
    using gateway_okD(6) [OF ok that] old [of "fst l"] by (auto simp: link_ok_def nth lcs)
  ultimately show ?thesis
    using len gateway_okD(2) [OF ok]
    unfolding gateway_ok_def by (simp add: lcs install_session_simps)
qed

lemma gateway_ok_auth:
  assumes ok: "gateway_ok polite g" and inv: "server_inv (gw_server g)"
  shows "gateway_ok polite (gw_auth par msg1 rnd now g)"
proof (cases "authenticate (gp_new par) (gp_read par) (gp_write par) (gp_peer par) (gp_keys par)
    (sv_allowed (gw_server g)) msg1")
  case (Inl e)
  with ok show ?thesis by (simp add: gw_auth_def on_auth_def)
next
  case (Inr x)
  obtain k msg2 ses where x: "x = (k, msg2, ses)" by (cases x)
  have "sv_sessions (install_session k ses (gw_server g)) ! length (gw_conns g) = fresh_session k ses"
    using gateway_okD(1) [OF ok] by (simp add: install_session_nth [OF inv])
  with Inr x gateway_ok_install [OF ok inv refl, where k = k and enc = "gp_enc par"
      and ses = ses and rnd = rnd and now = now] show ?thesis
    by (simp add: gw_auth_def on_auth_def fresh_session_def)
qed

text \<open>A connection step that leaves callbacks and links alone.\<close>

lemma gateway_ok_conn:
  assumes ok: "gateway_ok polite g" and i: "i < length (gw_conns g)" and c: "conn_grows polite (gw_conns g ! i) c"
    and r: "length (rt_bridges r) = length (rt_bridges (gw_router g))"
  shows "gateway_ok polite ((update_conn i c g)\<lparr>gw_router := r\<rparr>)"
proof -
  have "link_ok ((gw_conns g)[i := c]) l" if "l \<in> set (gw_callbacks g)" for l
    using gateway_okD(6) [OF ok, of l] that i c by (auto simp: link_ok_def nth_list_update conn_grows_def)
  with c r gateway_okD(2) [OF ok] have "gateway_ok polite (g\<lparr>gw_server := gw_server g,
      gw_conns := (gw_conns g)[i := c], gw_callbacks := gw_callbacks g, gw_links := gw_links g, gw_router := r\<rparr>)"
    by (intro gateway_ok_update [OF ok i]) auto
  then show ?thesis by (cases g) (simp add: update_conn_def)
qed

lemma gateway_ok_end:
  assumes ok: "gateway_ok polite g" and fresh: "polite \<Longrightarrow> opens_fresh (Gw_end i ev) g"
  shows "gateway_ok polite (gw_end enc i ev g)"
proof (cases "i < length (gw_conns g)")
  case True
  let ?c = "gw_conns g ! i"
  obtain c' gone where st: "end_step enc ev ?c = (c', gone)" by fastforce
  let ?new = "map (Pair i) (drop (length (c_spawned ?c)) (c_spawned c'))"
  let ?sv = "if gone then mux_ends i (gw_server g) else gw_server g"
  have moves: "if gone then conn_closes polite ?c c' else conn_grows polite ?c c'"
    using end_step_moves [OF gateway_okD(3) [OF ok True] _ st] fresh True by simp
  then have "length (c_heap ?c) \<le> length (c_heap c')" by (simp add: conn_closes_def conn_grows_def split: if_splits)
  then have "link_ok ((gw_conns g)[i := c']) l" if "l \<in> set (gw_callbacks g @ ?new)" for l
    using that True gateway_okD(6) [OF ok, of l] end_step_spawned [OF st, of "snd l"]
    by (auto simp: link_ok_def nth_list_update)
  then have "gateway_ok polite (g\<lparr>gw_server := ?sv, gw_conns := (gw_conns g)[i := c'],
      gw_callbacks := gw_callbacks g @ ?new, gw_links := gw_links g, gw_router := gw_router g\<rparr>)"
    using moves gateway_okD(2) [OF ok] by (intro gateway_ok_update [OF ok True]) (auto split: if_splits)
  with True st show ?thesis by (cases gone; cases g) (simp_all add: gw_end_def update_conn_def)
qed (use ok in \<open>simp add: gw_end_def\<close>)

lemma gw_stream_read_grows:
  assumes ok: "gateway_ok polite g" and l: "l \<in> set (gw_callbacks g) \<union> set (gw_links g)"
    and read: "gw_stream_read l n g = Some (g1, res)"
  obtains c where "g1 = update_conn (fst l) c g" and "fst l < length (gw_conns g)"
    and "conn_grows polite (gw_conns g ! fst l) c"
proof -
  from gateway_okD(6) [OF ok l] have i: "fst l < length (gw_conns g)"
    and a: "snd l < length (c_heap (gw_conns g ! fst l))" by (simp_all add: link_ok_def)
  from read obtain c d e where c: "conn_stream_read (gw_conns g ! fst l) (snd l) n = Some (c, d, e)"
    "g1 = update_conn (fst l) c g" by (auto simp: gw_stream_read_def split: option.splits)
  from that [OF c(2) i conn_grows_read [OF gateway_okD(3) [OF ok i] a c(1)]] show thesis .
qed

lemma gateway_ok_open:
  assumes ok: "gateway_ok polite g"
  shows "gateway_ok polite (gw_open k n err g)"
proof (cases "k < length (gw_callbacks g)")
  case True
  let ?l = "gw_callbacks g ! k"
  let ?cbs = "take k (gw_callbacks g) @ drop (Suc k) (gw_callbacks g)"
  have l: "?l \<in> set (gw_callbacks g) \<union> set (gw_links g)" using True by simp
  show ?thesis
  proof (cases "gw_stream_read ?l n g")
    case None
    with ok show ?thesis by (simp add: gw_open_def)
  next
    case (Some x)
    obtain g1 res where x: "x = (g1, res)" by (cases x)
    from gw_stream_read_grows [OF ok l] Some x obtain c where
      c: "g1 = update_conn (fst ?l) c g" "fst ?l < length (gw_conns g)"
      "conn_grows polite (gw_conns g ! fst ?l) c" by blast
    obtain r e where r: "bridge_open res err (gw_router g) = (r, e)" by fastforce
    have sub: "set ?cbs \<subseteq> set (gw_callbacks g)"
      using set_take_subset [of k] set_drop_subset [of "Suc k"] by fastforce
    let ?ls = "if e = None then gw_links g @ [?l] else gw_links g"
    have "link_ok ((gw_conns g)[fst ?l := c]) m" if "m \<in> set ?cbs" for m
    proof -
      have "m \<in> set (gw_callbacks g) \<union> set (gw_links g)" using that sub by blast
      from gateway_okD(6) [OF ok this] c(2,3) show ?thesis
        by (auto simp: link_ok_def nth_list_update conn_grows_def)
    qed
    moreover have "set ?ls \<subseteq> set (gw_callbacks g) \<union> set (gw_links g)" using True by auto
    moreover have "length ?ls = length (rt_bridges r)"
      using gateway_okD(2) [OF ok] bridge_open_length [OF r] by simp
    ultimately have "gateway_ok polite (g\<lparr>gw_server := gw_server g, gw_conns := (gw_conns g)[fst ?l := c],
        gw_callbacks := ?cbs, gw_links := ?ls, gw_router := r\<rparr>)"
      using c(3) by (intro gateway_ok_update [OF ok c(2)]) blast+
    moreover have "gw_open k n err g = g\<lparr>gw_server := gw_server g, gw_conns := (gw_conns g)[fst ?l := c],
        gw_callbacks := ?cbs, gw_links := ?ls, gw_router := r\<rparr>"
      using True Some x c(1) r by (simp add: gw_open_def update_conn_def)
    ultimately show ?thesis by simp
  qed
qed (use ok in \<open>simp add: gw_open_def\<close>)

lemma gateway_ok_inbound:
  assumes ok: "gateway_ok polite g"
  shows "gateway_ok polite (gw_inbound b n err g)"
proof (cases "length (gw_links g) \<le> b \<or> \<not> br_reader (rt_bridges (gw_router g) ! b)")
  case False
  then have l: "gw_links g ! b \<in> set (gw_callbacks g) \<union> set (gw_links g)" by simp
  show ?thesis
  proof (cases "gw_stream_read (gw_links g ! b) n g")
    case (Some x)
    obtain g1 res where x: "x = (g1, res)" by (cases x)
    from gw_stream_read_grows [OF ok l] Some x obtain c where
      c: "g1 = update_conn (fst (gw_links g ! b)) c g" "fst (gw_links g ! b) < length (gw_conns g)"
      "conn_grows polite (gw_conns g ! fst (gw_links g ! b)) c" by blast
    from gateway_ok_conn [OF ok c(2,3)] Some x c(1) False show ?thesis
      by (simp add: gw_inbound_def)
  qed (use ok in \<open>simp add: gw_inbound_def\<close>)
qed (use ok in \<open>auto simp: gw_inbound_def\<close>)

lemma gateway_ok_drain:
  assumes ok: "gateway_ok polite g"
  shows "gateway_ok polite (gw_drain enc b g)"
proof (cases "length (gw_links g) \<le> b \<or> \<not> br_writer (rt_bridges (gw_router g) ! b)")
  case False
  then have l: "gw_links g ! b \<in> set (gw_callbacks g) \<union> set (gw_links g)" by simp
  then have i: "fst (gw_links g ! b) < length (gw_conns g)"
    using gateway_okD(6) [OF ok] by (simp add: link_ok_def)
  have "conn_grows polite (gw_conns g ! fst (gw_links g ! b)) c'"
    if "conn_stream_write wr (gw_conns g ! fst (gw_links g ! b)) a p = (c', m, e)" for wr a p c' m e
    using that conn_grows_enc [OF gateway_okD(3) [OF ok i]] by (auto simp: conn_stream_write_def split: prod.splits)
  with False ok gateway_ok_conn [OF ok i] show ?thesis
    by (auto simp: gw_drain_def gateway_ok_router split: list.split prod.split)
qed (use ok in \<open>auto simp: gw_drain_def\<close>)

lemma gateway_ok_step:
  assumes ok: "gateway_ok polite g" and inv: "server_inv (gw_server g)"
    and fresh: "polite \<Longrightarrow> opens_fresh ev g"
  shows "gateway_ok polite (gateway_step par ev g)"
  using assms by (cases ev) (simp_all add: gateway_ok_auth gateway_ok_end gateway_ok_cleanup gateway_ok_open
      gateway_ok_inbound gateway_ok_drain gateway_ok_router)

lemma gateway_reach_ok:
  "gateway_reach par allowed polite g \<Longrightarrow> gateway_ok polite g"
proof (induction rule: gateway_reach.induct)
  case start
  show ?case by (simp add: gateway_ok_def new_gateway_def new_server_def new_tun_router_def)
next
  case (step g ev)
  then show ?case using gateway_ok_step gateway_server_inv by blast
qed

lemma server_step_allowed: "sv_allowed (server_step new_hs rd wr ps kp ev sv) = sv_allowed sv"
  by (cases ev) (auto simp: on_auth_def install_session_simps mux_ends_def cleanup_session_def Let_def
      split: sum.split prod.split)

lemma gateway_allowed: "gateway_reach par allowed polite g \<Longrightarrow> sv_allowed (gw_server g) = allowed"
  using gateway_reach_fold table.keeps [of "\<lambda>sv. sv_allowed sv = allowed"]
  by (metis new_server_def server.select_convs(3) server_step_allowed)

section \<open>Where the device's packets come from\<close>

lemma bridge_step_tun:
  "rt_tun (bridge_inbound b res err r) \<noteq> rt_tun r \<Longrightarrow>
   \<exists>pkt. res = Inr pkt \<and> is_valid_ip_packet pkt \<and> rt_tun (bridge_inbound b res err r) = rt_tun r @ [pkt]"
  "bridge_open res err r = (r', e) \<Longrightarrow> rt_tun r' \<noteq> rt_tun r \<Longrightarrow>
   \<exists>pkt. res = Inr pkt \<and> is_valid_ip_packet pkt \<and> rt_tun r' = rt_tun r @ [pkt]"
  by (auto simp: bridge_inbound_def bridge_open_def register_def update_bridge_def Let_def
      split: sum.splits option.splits if_splits)

lemma router_tun_quiet [simp]:
  "rt_tun (route_lookup res r) = rt_tun r" "rt_tun (route_send r) = rt_tun r"
  "rt_tun (bridge_drain b err r) = rt_tun r" "rt_tun (bridge_return b r) = rt_tun r"
  by (auto simp: route_lookup_def route_send_def bridge_drain_def bridge_return_def unregister_def
      update_bridge_def Let_def split: option.split sum.split list.split)

lemma gw_stream_read_packet:
  assumes "gateway_ok polite g" and "l \<in> set (gw_callbacks g) \<union> set (gw_links g)"
    and "gw_stream_read l n g = Some (g1, Inr pkt)"
  shows "fst l < length (gw_conns g) \<and> snd l < length (c_heap (gw_conns g ! fst l)) \<and>
    (\<exists>m ms. inbox (c_heap (gw_conns g ! fst l) ! snd l) = m # ms \<and> pkt = take n m)"
proof -
  from gateway_okD(6) [OF assms(1,2)] have i: "fst l < length (gw_conns g)"
    and a: "snd l < length (c_heap (gw_conns g ! fst l))" by (simp_all add: link_ok_def)
  from assms(3) obtain s' where "stream_read (c_heap (gw_conns g ! fst l) ! snd l) n = Some (s', pkt, None)"
    by (auto simp: gw_stream_read_def conn_stream_read_def split: option.splits)
  with i a stream_read_data [OF conn_ok_stream [OF gateway_okD(3) [OF assms(1) i] a]] show ?thesis
    by blast
qed

text \<open>
  C5: whatever reaches the server's TUN device came from an authenticated client. In every run of the
  server, whatever clients, the network and the device do, a step that writes to the device writes one
  valid IP packet, read from the front of the queue of a stream of a session in the table; the
  session's client is on the allow-list, if there is one.
\<close>

theorem only_clients_reach_the_device:
  assumes reach: "gateway_reach par allowed polite g"
    and wrote: "rt_tun (gw_router (gateway_step par ev g)) \<noteq> rt_tun (gw_router g)"
  shows "\<exists>i a n m ms. rt_tun (gw_router (gateway_step par ev g)) = rt_tun (gw_router g) @ [take n m] \<and>
    is_valid_ip_packet (take n m) \<and>
    i < length (sv_sessions (gw_server g)) \<and>
    (allowed = [] \<or> ss_client (sv_sessions (gw_server g) ! i) \<in> set allowed) \<and>
    a < length (c_heap (gw_conns g ! i)) \<and> inbox (c_heap (gw_conns g ! i) ! a) = m # ms"
proof -
  note ok = gateway_reach_ok [OF reach]
  have "\<exists>l n g1 pkt. l \<in> set (gw_callbacks g) \<union> set (gw_links g) \<and>
      gw_stream_read l n g = Some (g1, Inr pkt) \<and> is_valid_ip_packet pkt \<and>
      rt_tun (gw_router (gateway_step par ev g)) = rt_tun (gw_router g) @ [pkt]"
  proof (cases ev)
    case (Gw_open k n err)
    with wrote obtain g1 res where k: "k < length (gw_callbacks g)"
      and r: "gw_stream_read (gw_callbacks g ! k) n g = Some (g1, res)"
      by (auto simp: gw_open_def split: if_splits option.splits)
    obtain r' e where o: "bridge_open res err (gw_router g) = (r', e)" by fastforce
    have "gw_router (gateway_step par ev g) = r'"
      using Gw_open k r o gw_stream_readD(2) [OF r] by (simp add: gw_open_def)
    with wrote bridge_step_tun(2) [OF o] r k show ?thesis by (metis UnI1 nth_mem)
  next
    case (Gw_inbound b n err)
    with wrote obtain g1 res where b: "b < length (gw_links g)" "br_reader (rt_bridges (gw_router g) ! b)"
      and r: "gw_stream_read (gw_links g ! b) n g = Some (g1, res)"
      by (auto simp: gw_inbound_def split: if_splits option.splits)
    have "gw_router (gateway_step par ev g) = bridge_inbound b res err (gw_router g)"
      using Gw_inbound b r gw_stream_readD(2) [OF r] by (simp add: gw_inbound_def)
    with wrote bridge_step_tun(1) [of b res err "gw_router g"] r b(1) show ?thesis
      by (metis UnI2 nth_mem)
  qed (use wrote in \<open>auto simp: gw_auth_def gw_end_def gw_drain_def Let_def split: if_splits option.splits prod.splits sum.splits list.splits bool.splits\<close>)
  then obtain l n g1 pkt where l: "l \<in> set (gw_callbacks g) \<union> set (gw_links g)"
    and r: "gw_stream_read l n g = Some (g1, Inr pkt)" and p: "is_valid_ip_packet pkt"
    "rt_tun (gw_router (gateway_step par ev g)) = rt_tun (gw_router g) @ [pkt]"
    by blast
  from gw_stream_read_packet [OF ok l r] gateway_okD(1) [OF ok]
    server_invD(3) [OF gateway_server_inv [OF reach], of "fst l"] gateway_allowed [OF reach] p
  show ?thesis by metis
qed

section \<open>A replaced session lets go\<close>

text \<open>A goroutine of a bridge that is gone has left its result.\<close>

definition bridge_reports :: "bridge \<Rightarrow> bool" where
  "bridge_reports b \<longleftrightarrow> br_reader b \<and> br_writer b \<or> br_errc b \<noteq> [] \<or> br_result b \<noteq> None"

definition router_reports :: "router \<Rightarrow> bool" where
  "router_reports r \<longleftrightarrow> (\<forall>i < length (rt_bridges r). bridge_reports (rt_bridges r ! i))"

lemma router_reports_update:
  "router_reports r \<Longrightarrow> (bridge_reports (rt_bridges r ! i) \<Longrightarrow> bridge_reports (f (rt_bridges r ! i))) \<Longrightarrow>
   router_reports (update_bridge i f r)"
  by (cases "i < length (rt_bridges r)") (auto simp: router_reports_def update_bridge_def nth_list_update)

lemma router_reports_same: "router_reports r \<Longrightarrow> rt_bridges r' = rt_bridges r \<Longrightarrow> router_reports r'"
  by (simp add: router_reports_def)

lemma router_reports_unregister: "router_reports r \<Longrightarrow> router_reports (unregister key r)"
  by (auto simp: unregister_def Let_def bridge_reports_def split: option.split
      intro!: router_reports_update elim: router_reports_same)

lemma router_reports_step:
  assumes "router_reports r"
  shows "router_reports (router_step ev r)"
proof (cases ev)
  case (Tun_read res)
  have "rt_bridges (route_lookup res r) = rt_bridges r"
    by (auto simp: route_lookup_def split: sum.split option.split)
  with assms Tun_read show ?thesis by (simp add: router_reports_def)
next
  case Tun_send
  with assms show ?thesis
    by (auto simp: route_send_def bridge_reports_def split: option.split
        intro!: router_reports_update elim: router_reports_same)
next
  case (Session_open res err)
  with assms show ?thesis
    by (auto simp: bridge_open_def register_def Let_def router_reports_def bridge_reports_def nth_append
        split: sum.split)
next
  case (Session_drain i err)
  with assms show ?thesis
    by (auto simp: bridge_drain_def Let_def bridge_reports_def split: list.split option.split
        intro!: router_reports_update)
next
  case (Session_inbound i res err)
  with assms show ?thesis
    by (auto simp: bridge_inbound_def Let_def bridge_reports_def split: sum.split option.split
        intro!: router_reports_update elim: router_reports_same)
next
  case (Session_return i)
  with assms show ?thesis
    by (auto simp: bridge_return_def Let_def bridge_reports_def split: list.split
        intro!: router_reports_update router_reports_unregister)
qed

lemma router_reports_new: "router_reports new_tun_router"
  by (simp add: new_tun_router_def router_reports_def)

lemma bridge_return_result:
  "b < length (rt_bridges r) \<Longrightarrow> br_errc (rt_bridges r ! b) \<noteq> [] \<or> br_result (rt_bridges r ! b) \<noteq> None \<Longrightarrow>
   br_result (rt_bridges (bridge_return b r) ! b) \<noteq> None"
  by (auto simp: bridge_return_def unregister_def update_bridge_def Let_def nth_list_update
      split: list.split option.split)

lemma gateway_reports: "gateway_reach par allowed polite g \<Longrightarrow> router_reports (gw_router g)"
  using gateway_reach_fold routing.keeps [of router_reports, OF router_reports_new router_reports_step]
  by metis

lemma reader_runs_out:
  assumes ok: "gateway_ok polite g" and b: "b < length (gw_links g)" "gw_links g ! b = (i, a)"
    and ended: "read_err (c_heap (gw_conns g ! i) ! a) \<noteq> None" and n: "0 < n"
    and errs: "left_to_read (c_heap (gw_conns g ! i) ! a) < length errs"
  shows "\<not> br_reader (rt_bridges (gw_router (fold (\<lambda>err. gw_inbound b n err) errs g)) ! b)"
  using ok b ended errs
proof (induction errs arbitrary: g)
  case (Cons err errs)
  let ?s = "c_heap (gw_conns g ! i) ! a"
  have quiet: "\<not> br_reader (rt_bridges (gw_router (fold (\<lambda>err. gw_inbound b n err) es h)) ! b)"
    if "\<not> br_reader (rt_bridges (gw_router h) ! b)" for es and h :: "'a gateway"
    using that by (induction es arbitrary: h) (simp_all add: gw_inbound_def)
  show ?case
  proof (cases "br_reader (rt_bridges (gw_router g) ! b)")
    case True
    have "link_ok (gw_conns g) (i, a)"
      using gateway_okD(6) [OF Cons.prems(1), of "(i, a)"] Cons.prems(2,3) by (metis UnI2 nth_mem)
    then have i: "i < length (gw_conns g)" and a: "a < length (c_heap (gw_conns g ! i))"
      by (simp_all add: link_ok_def)
    from Cons.prems(4) obtain e where e: "read_err ?s = Some e" by blast
    from ended_stream_read [OF conn_ok_stream [OF gateway_okD(3) [OF Cons.prems(1) i] a] e n]
    obtain s' d e' where s': "stream_read ?s n = Some (s', d, e')" "stream_ok s'" "read_err s' = Some e"
      "e' = None \<longrightarrow> left_to_read s' < left_to_read ?s" by blast
    define c' where "c' = (gw_conns g ! i)\<lparr>c_heap := (c_heap (gw_conns g ! i))[a := s']\<rparr>"
    define res where "res = (case e' of None \<Rightarrow> Inr d | Some e \<Rightarrow> Inl e)"
    have step: "gw_inbound b n err g =
        (update_conn i c' g)\<lparr>gw_router := bridge_inbound b res err (gw_router g)\<rparr>"
      using Cons.prems(2,3) True s'(1)
      by (simp add: gw_inbound_def gw_stream_read_def conn_stream_read_def c'_def res_def)
    show ?thesis
    proof (cases "e' = None")
      case more: True
      have g': "gateway_ok polite (gw_inbound b n err g)" using gateway_ok_inbound [OF Cons.prems(1)] .
      have heap: "c_heap (gw_conns (gw_inbound b n err g) ! i) ! a = s'"
        using i a by (simp add: step c'_def)
      have "left_to_read s' < length errs" using Cons.prems(5) s'(4) more by simp
      with Cons.IH [OF g'] Cons.prems(2,3) heap s'(3) show ?thesis by (simp add: step)
    next
      case False
      then have "\<not> br_reader (rt_bridges (gw_router (gw_inbound b n err g)) ! b)"
        using True Cons.prems(2) gateway_okD(2) [OF Cons.prems(1)]
        by (auto simp: step res_def bridge_inbound_def Let_def update_bridge_def)
      from quiet [OF this] show ?thesis by simp
    qed
  next
    case False
    from quiet [OF this, of "err # errs"] show ?thesis by simp
  qed
qed simp


section \<open>Concrete runs\<close>

text \<open>A run given by its events; \<open>None\<close> if the router panics or a client opens a stream twice.\<close>

fun gateway_plays ::
  "('h, 'c) gateway_params \<Rightarrow> bool \<Rightarrow> gateway_event list \<Rightarrow> 'c gateway \<Rightarrow> 'c gateway option" where
  "gateway_plays par polite [] g = Some g"
| "gateway_plays par polite (ev # evs) g =
     (if rt_panic (gw_router g) \<or> polite \<and> \<not> opens_fresh ev g then None
      else gateway_plays par polite evs (gateway_step par ev g))"

lemma gateway_reach_plays:
  "gateway_reach par allowed polite g \<Longrightarrow> gateway_plays par polite evs g = Some g' \<Longrightarrow>
   gateway_reach par allowed polite g'"
proof (induction evs arbitrary: g)
  case (Cons ev evs)
  from Cons.prems have "\<not> rt_panic (gw_router g)" "polite \<Longrightarrow> opens_fresh ev g"
    and run: "gateway_plays par polite evs (gateway_step par ev g) = Some g'"
    by (auto split: if_splits)
  with Cons.IH [OF gateway_reach.step [OF Cons.prems(1)] run] show ?case by blast
qed simp

lemma gateway_plays_append:
  "gateway_plays par polite evs g = Some g' \<Longrightarrow>
   gateway_plays par polite (evs @ evs') g = gateway_plays par polite evs' g'"
  by (induction evs arbitrary: g) (auto split: if_splits)

definition demo_params :: "(bytes, nat) gateway_params" where
  "demo_params =
     \<lparr>gp_new = (\<lambda>_. Inr []), gp_read = (\<lambda>hs m. (m, Inr ([], None, None))),
      gp_write = (\<lambda>hs p. (hs, Inr ([1], Some 0, Some 0))), gp_peer = (\<lambda>hs. hs),
      gp_keys = \<lparr>dh_private = replicate 32 0, dh_public = replicate 32 0\<rparr>, gp_enc = tag_enc\<rparr>"

text \<open>Client \<open>m\<close> authenticates, opens a stream as session \<open>i\<close> and sends a packet.\<close>

definition client_arrives :: "bytes \<Rightarrow> nat \<Rightarrow> gateway_event list" where
  "client_arrives m i =
     [Gw_auth m (sconst 3) 0, Gw_end i (End_frame (control_frame type_stream_open 1 []) 0),
      Gw_end i (End_frame (data_frame 1 ping_packet) 0)]"

definition one_client :: "nat gateway" where
  "one_client =
     \<lparr>gw_server = \<lparr>sv_active = [encode_key [9] \<mapsto> 0],
        sv_sessions = [fresh_session (encode_key [9]) (new_session (Some 0) (Some 0))], sv_allowed = []\<rparr>,
      gw_conns = [(server_connection (new_session (Some 0) (Some 0)) (sconst 3) 0)
        \<lparr>c_heap := [(new_stream 1)\<lparr>read_msgs := [ping_packet]\<rparr>], c_streams := [(1, 0)], c_spawned := [0]\<rparr>],
      gw_callbacks = [(0, 0)], gw_links = [], gw_router = new_tun_router\<rparr>"

lemmas gateway_eval =
  gw_auth_def gw_end_def update_conn_def demo_params_def on_auth_def authenticate_def new_responder_def
  responder_read_def responder_write_def install_session_def new_server_def new_gateway_def

lemma one_client_arrives:
  "gateway_plays demo_params True (client_arrives [9] 0) (new_gateway []) = Some one_client"
  by (simp add: client_arrives_def gateway_eval one_client_def fresh_session_def new_session_def
      server_connection_def new_conn_def dispatch_def control_frame_def data_frame_def frame_type_defs
      deliver_data_def new_stream_def new_tun_router_def key_size_def Let_def)

text \<open>The client again, after its first session has a bridge: session and connection 0 are closed.\<close>

definition one_bridge :: "nat gateway" where
  "one_bridge = the (gateway_plays demo_params True [Gw_open 0 1600 None] one_client)"

lemma one_bridge_eq:
  "one_bridge = one_client
     \<lparr>gw_conns := [(gw_conns one_client ! 0)\<lparr>c_heap := [new_stream 1]\<rparr>], gw_callbacks := [],
      gw_links := [(0, 0)], gw_router := (register [10, 7, 0, 2] new_tun_router)\<lparr>rt_tun := [ping_packet]\<rparr>\<rparr>"
  by (simp add: one_bridge_def gw_open_def gw_stream_read_def conn_stream_read_def stream_read_def
      one_client_def update_conn_def new_stream_def ping_packet_simps bridge_open_def register_def
      new_tun_router_def Let_def)

definition reply_packet :: bytes where
  "reply_packet = ip4 [8, 8, 8, 8] [10, 7, 0, 2]"

text \<open>
  A rotation that cuts the client off. The client, with a bridge already, authenticates again; its new
  session's bridge registers the address before the old bridge has noticed its end; the old bridge's return
  then deletes the new one's route. The client's session is in the table, its connection is alive, and
  packets for it are dropped.
\<close>

definition rotated :: "nat gateway" where
  "rotated = the (gateway_plays demo_params True
     (client_arrives [9] 1 @ [Gw_open 0 1600 None, Gw_inbound 0 1600 None, Gw_return 0,
        Gw_device (Inr reply_packet)]) one_bridge)"

lemma rotation_cuts_downlink:
  "sv_active (gw_server rotated) (encode_key [9]) = Some 1 \<and> \<not> c_done (gw_conns rotated ! 1) \<and>
   gw_links rotated ! 1 = (1, 0) \<and> br_reader (rt_bridges (gw_router rotated) ! 1) \<and>
   rt_routes (gw_router rotated) [10, 7, 0, 2] = None \<and> rt_pending (gw_router rotated) = None"
  by (simp add: rotated_def one_bridge_eq one_client_def client_arrives_def gateway_eval fresh_session_def
      new_session_def server_connection_def new_conn_def dispatch_def control_frame_def data_frame_def
      frame_type_defs deliver_data_def new_stream_def key_size_def Let_def close_end_def conn_close_def
      end_streams_def deliver_err_def close_session_def
      gw_open_def gw_stream_read_def conn_stream_read_def stream_read_def gw_inbound_def
      ping_packet_simps router_eval reply_packet_def)

lemma router_run_snoc:
  "\<not> rt_panic (router_run evs r) \<Longrightarrow> router_run (evs @ [ev]) r = router_step ev (router_run evs r)"
proof (induction evs arbitrary: r)
  case (Cons e evs)
  then show ?case by (cases "rt_panic r") (simp_all del: router_step.simps)
qed simp


lemma demo_reach:
  "gateway_reach demo_params [] True one_client" "gateway_reach demo_params [] True one_bridge"
proof -
  show one: "gateway_reach demo_params [] True one_client"
    using gateway_reach_plays [OF gateway_reach.start one_client_arrives] .
  have "gateway_plays demo_params True [Gw_open 0 1600 None] one_client = Some one_bridge"
    by (simp add: one_bridge_def one_client_def new_tun_router_def)
  from gateway_reach_plays [OF one this] show "gateway_reach demo_params [] True one_bridge" .
qed


lemma only_clients_reach_the_device_witness:
  "rt_tun (gw_router (gateway_step demo_params (Gw_open 0 1600 None) one_client)) \<noteq> [] \<and>
   (\<exists>i a n m ms. is_valid_ip_packet (take n m) \<and> i < length (sv_sessions (gw_server one_client)) \<and>
      inbox (c_heap (gw_conns one_client ! i) ! a) = m # ms)"
proof -
  have "gateway_step demo_params (Gw_open 0 1600 None) one_client = one_bridge"
    by (simp add: one_bridge_def one_client_def new_tun_router_def)
  then have wrote: "rt_tun (gw_router (gateway_step demo_params (Gw_open 0 1600 None) one_client)) \<noteq>
      rt_tun (gw_router one_client)"
    by (simp add: one_bridge_eq) (simp add: one_client_def new_tun_router_def)
  from only_clients_reach_the_device [OF demo_reach(1) wrote] show ?thesis
    by (metis Nil_is_append_conv not_Cons_self)
qed

text \<open>The client authenticates again; its old bridge returns after one read.\<close>

definition authenticated_again :: "nat gateway" where
  "authenticated_again = gateway_step demo_params (Gw_auth [9] (sconst 3) 0) one_bridge"


end
