(* ===== verification/Gateway_Run.thy ===== *)
theory Gateway_Run
  imports Gateway Conversation
begin

text \<open>
  What a run of the whole server (\<open>Gateway\<close>) puts on the network. In every run each session's connection has made
  its coalescer a sequence of steps that says exactly what its bridge took from the router (\<open>gateway_talks\<close>); so the
  client's end of the session reads these packets (\<open>gateway_run_reaches_the_client\<close>).
\<close>

section \<open>What a session has said\<close>

text \<open>
  The frames a connection of the server has offered its coalescer: DATA, \<open>data\<close> in all, keepalives, answers to
  pings and padding. The server opens no stream and closes none.
\<close>

definition conn_talks ::
  "'c aead \<Rightarrow> 'c session \<Rightarrow> nat \<Rightarrow> frame list \<Rightarrow> 'c tunnel_end \<Rightarrow> bool" where
  "conn_talks enc ses k data c \<longleftrightarrow>
     (\<exists>rnd evs. c_enc c = end_run enc evs (tunnel_writer ses rnd) \<and> length evs \<le> k \<and>
        list_all chatter (offered evs) \<and> filter is_data (offered evs) = data)"

text \<open>A step of a connection that sends no DATA.\<close>

definition conn_moves :: "'c aead \<Rightarrow> 'c tunnel_end \<Rightarrow> 'c tunnel_end \<Rightarrow> bool" where
  "conn_moves enc c c' \<longleftrightarrow>
     same_streams c c' \<and>
     (\<exists>es. c_enc c' = end_run enc es (c_enc c) \<and> length es \<le> 1 \<and> (quiet es \<or> es = [Shut]))"

lemma conn_moves_refl: "conn_moves enc c c"
  unfolding conn_moves_def by (intro conjI exI [of _ "[]"]) (simp_all add: same_streams_heap end_run_def quiet_def)

lemma conn_moves_update: "conn_moves enc (cs ! i) c \<Longrightarrow> conn_moves enc (cs ! j) (cs[i := c] ! j)"
  by (cases "i < length cs"; cases "i = j") (simp_all add: conn_moves_refl list_update_beyond)

lemma conn_moves_read: "conn_stream_read c a n = Some (c', d, e) \<Longrightarrow> conn_moves enc c c'"
  using same_streams_read [of c a n c' d e] unfolding conn_moves_def
  by (intro conjI exI [of _ "[]"]) (simp_all add: end_run_def quiet_def)

lemma conn_moves_end: "conn_moves enc c (close_end enc c)"
  unfolding conn_moves_def
  by (intro conjI exI [of _ "[Shut]"])
    (use same_streams_close [of c] in \<open>simp_all add: same_streams_def close_end_def end_run_def Let_def\<close>)

lemma conn_moves_step:
  assumes "end_step enc ev c = (c', gone)" and "modest_end ev"
  shows "conn_moves enc c c'"
proof -
  have "length (end_sends ev c) \<le> 1" by (cases ev) (auto split: sum.split)
  moreover have "c_enc c' = end_run enc (end_sends ev c) (c_enc c)"
    using end_step_enc [of enc ev c] assms(1) by (simp add: end_run_def)
  ultimately show ?thesis
    using end_step_streams [OF assms(1)] quiet_sends [OF assms(2)] unfolding conn_moves_def by blast
qed

lemma conn_talks_moves:
  assumes talks: "conn_talks enc ses k data c" and moves: "conn_moves enc c c'"
  shows "conn_talks enc ses (Suc k) data c'"
proof -
  obtain rnd evs where evs: "c_enc c = end_run enc evs (tunnel_writer ses rnd)" "length evs \<le> k"
    "list_all chatter (offered evs)" "filter is_data (offered evs) = data"
    using talks by (auto simp: conn_talks_def)
  obtain es where es: "c_enc c' = end_run enc es (c_enc c)" "length es \<le> 1" "quiet es \<or> es = [Shut]"
    using moves by (auto simp: conn_moves_def)
  from es(3) have "list_all chatter (offered es) \<and> filter is_data (offered es) = []"
    using quiet_offered [of es] by auto
  with evs es show ?thesis
    unfolding conn_talks_def
    by (intro exI [of _ rnd] exI [of _ "evs @ es"]) (simp add: end_run_def coal_run_append offered_append)
qed

lemma conn_talks_new: "conn_talks enc ses k [] (server_connection ses rnd now)"
  unfolding conn_talks_def
  by (intro exI [of _ rnd] exI [of _ "[]"]) (simp add: server_connection_def new_conn_def end_run_def)

section \<open>A packet of the bridge\<close>

definition lasts_for :: "('c \<Rightarrow> 'c \<Rightarrow> bool) \<Rightarrow> ('c \<Rightarrow> nat) \<Rightarrow> nat \<Rightarrow> 'c session \<Rightarrow> bool" where
  "lasts_for R left n ses \<longleftrightarrow> (\<exists>s t r. ses = new_session (Some s) t \<and> R s r \<and> Suc n < left s)"

lemma lasts_for_Suc: "lasts_for R left (Suc n) ses \<Longrightarrow> lasts_for R left n ses"
  by (fastforce simp: lasts_for_def)

lemma chatter_small: "list_all chatter fs \<Longrightarrow> list_all small_frame fs"
  by (simp add: list_all_iff chatter_def)

lemma write_frame_shut: "cc_closed w \<Longrightarrow> snd (write_frame (coal_write wr) w f) \<noteq> None"
  by (simp add: write_frame_def coal_write_def)

text \<open>A write of the bridge that comes back without error has said its packet, and one that fails nothing.\<close>

lemma conn_talks_write:
  assumes law: "noise_law enc dec R" and lasts: "noise_lasts enc left" and key: "lasts_for R left n ses"
    and talks: "conn_talks enc ses n data c" and p: "packet_ok p" and opn: "\<not> s_closed (c_heap c ! a)"
    and wr: "conn_stream_write (end_writer enc) c a p = (c', m, e)"
  shows "conn_talks enc ses (Suc n) (if e = None then data @ [data_frame (s_id (c_heap c ! a)) p] else data) c'"
proof -
  let ?f = "data_frame (s_id (c_heap c ! a)) p"
  have e: "e = snd (write_frame (end_writer enc) (c_enc c) ?f)"
    using wr stream_write_answer [OF p opn, of "end_writer enc" "c_enc c"]
    by (auto simp: conn_stream_write_def split: prod.splits)
  have c': "c_enc c' = end_run enc [Put ?f] (c_enc c)"
    using wr stream_write_packet [OF p opn, of "end_writer enc" "c_enc c"]
    by (auto simp: conn_stream_write_def end_run_def split: prod.splits)
  obtain rnd evs where evs: "c_enc c = end_run enc evs (tunnel_writer ses rnd)" "length evs \<le> n"
    "list_all chatter (offered evs)" "filter is_data (offered evs) = data"
    using talks by (auto simp: conn_talks_def)
  have "e = None \<longleftrightarrow> Shut \<notin> set evs"
  proof (cases "Shut \<in> set evs")
    case True
    then have "cc_closed (c_enc c)" by (simp add: evs(1) end_run_def coal_run_closed)
    with True write_frame_shut show ?thesis unfolding e by auto
  next
    case False
    obtain s t r where s: "ses = new_session (Some s) t" "R s r" "Suc n < left s"
      using key by (auto simp: lasts_for_def)
    have "small_frame ?f" using chatter_data [OF p] by (simp add: chatter_def)
    from tunnel_accepts [OF law lasts s(2) chatter_small [OF evs(3)] this False, of t rnd] evs(1,2) s(1,3) False
    show ?thesis unfolding e by simp
  qed
  with evs c' chatter_data [OF p] show ?thesis
    unfolding conn_talks_def
    by (intro exI [of _ rnd] exI [of _ "evs @ [Put ?f]"]) (simp add: end_run_def coal_run_append offered_append)
qed

section \<open>Every connection says what its bridge took from the router\<close>

definition bridges_of :: "nat \<Rightarrow> (nat \<times> nat) list \<Rightarrow> nat list" where
  "bridges_of i ls = filter (\<lambda>b. fst (ls ! b) = i) [0..<length ls]"

definition bridge_data :: "nat \<Rightarrow> 'c gateway \<Rightarrow> nat \<Rightarrow> frame list" where
  "bridge_data i g b =
     map (data_frame (s_id (c_heap (gw_conns g ! i) ! snd (gw_links g ! b)))) (br_out (rt_bridges (gw_router g) ! b))"

definition session_data :: "nat \<Rightarrow> 'c gateway \<Rightarrow> frame list" where
  "session_data i g = concat (map (bridge_data i g) (bridges_of i (gw_links g)))"

abbreviation session_keys :: "'c gateway \<Rightarrow> nat \<Rightarrow> 'c session" where
  "session_keys g i \<equiv> ss_keys (sv_sessions (gw_server g) ! i)"

text \<open>Stated for the sessions with one bridge at most; the client programs open one stream per session.\<close>

definition gateway_talks ::
  "'c aead \<Rightarrow> ('c \<Rightarrow> 'c \<Rightarrow> bool) \<Rightarrow> ('c \<Rightarrow> nat) \<Rightarrow> nat \<Rightarrow> 'c gateway \<Rightarrow> bool" where
  "gateway_talks enc R left n g \<longleftrightarrow>
     (\<forall>i < length (gw_conns g).
        (\<forall>a < length (c_heap (gw_conns g ! i)). \<not> s_closed (c_heap (gw_conns g ! i) ! a)) \<and>
        (lasts_for R left n (session_keys g i) \<longrightarrow> length (bridges_of i (gw_links g)) \<le> 1 \<longrightarrow>
           conn_talks enc (session_keys g i) n (session_data i g) (gw_conns g ! i)))"

lemma gateway_talksD:
  assumes "gateway_talks enc R left n g" and "i < length (gw_conns g)"
  shows "a < length (c_heap (gw_conns g ! i)) \<Longrightarrow> \<not> s_closed (c_heap (gw_conns g ! i) ! a)"
    and "lasts_for R left (Suc n) (session_keys g i) \<Longrightarrow> length (bridges_of i (gw_links g)) \<le> 1 \<Longrightarrow>
      conn_talks enc (session_keys g i) n (session_data i g) (gw_conns g ! i)"
  using assms by (simp_all add: gateway_talks_def lasts_for_Suc)

lemma bridges_of_append:
  "bridges_of i (ls @ ms) = bridges_of i ls @ map ((+) (length ls)) (bridges_of i ms)"
proof -
  have "[0..<length ls + k] = [0..<length ls] @ map ((+) (length ls)) [0..<k]" for k
    by (induction k) simp_all
  then show ?thesis
    by (auto simp: bridges_of_def filter_map comp_def nth_append intro!: filter_cong arg_cong2 [where f = "(@)"])
qed

text \<open>
  A step of the server that hands no packet to a connection: the connections go on without DATA, new ones are
  new, and the bridges have written what they had.
\<close>

definition quiet_step :: "'c aead \<Rightarrow> 'c gateway \<Rightarrow> 'c gateway \<Rightarrow> bool" where
  "quiet_step enc g g' \<longleftrightarrow>
     length (gw_conns g) \<le> length (gw_conns g') \<and>
     (\<forall>i < length (gw_conns g'). if i < length (gw_conns g)
        then conn_moves enc (gw_conns g ! i) (gw_conns g' ! i) \<and> session_keys g' i = session_keys g i
        else \<exists>rnd now. gw_conns g' ! i = server_connection (session_keys g' i) rnd now) \<and>
     (\<exists>ls. gw_links g' = gw_links g @ ls \<and> (\<forall>l \<in> set ls. fst l < length (gw_conns g))) \<and>
     (\<forall>b < length (gw_links g'). br_out (rt_bridges (gw_router g') ! b) =
        (if b < length (gw_links g) then br_out (rt_bridges (gw_router g) ! b) else []))"

lemma quiet_stepD:
  assumes "quiet_step enc g g'"
  shows "i < length (gw_conns g) \<Longrightarrow> i < length (gw_conns g') \<and> conn_moves enc (gw_conns g ! i) (gw_conns g' ! i) \<and>
      same_streams (gw_conns g ! i) (gw_conns g' ! i) \<and> session_keys g' i = session_keys g i"
    and "i < length (gw_conns g') \<Longrightarrow> \<not> i < length (gw_conns g) \<Longrightarrow>
      \<exists>rnd now. gw_conns g' ! i = server_connection (session_keys g' i) rnd now"
    and "\<exists>ls. gw_links g' = gw_links g @ ls \<and> (\<forall>l \<in> set ls. fst l < length (gw_conns g))"
    and "b < length (gw_links g') \<Longrightarrow> br_out (rt_bridges (gw_router g') ! b) =
      (if b < length (gw_links g) then br_out (rt_bridges (gw_router g) ! b) else [])"
  using assms unfolding quiet_step_def conn_moves_def by (meson order_less_le_trans | blast)+

lemma bridges_of_less: "b \<in> set (bridges_of i ls) \<Longrightarrow> b < length ls \<and> fst (ls ! b) = i"
  by (auto simp: bridges_of_def)

lemma quiet_step_data:
  assumes ok: "gateway_ok False g" and step: "quiet_step enc g g'" and i: "i < length (gw_conns g)"
  shows "session_data i g' = session_data i g"
    and "length (bridges_of i (gw_links g)) \<le> length (bridges_of i (gw_links g'))"
proof -
  from quiet_stepD(3) [OF step] obtain ls where ls: "gw_links g' = gw_links g @ ls" by blast
  note out = quiet_stepD(4) [OF step]
  have str: "same_streams (gw_conns g ! i) (gw_conns g' ! i)" using quiet_stepD(1) [OF step i] by blast
  have old: "bridge_data i g' b = bridge_data i g b" if "b \<in> set (bridges_of i (gw_links g))" for b
  proof -
    note b = bridges_of_less [OF that]
    then have "link_ok (gw_conns g) (gw_links g ! b)" using gateway_okD(6) [OF ok] by simp
    then have "snd (gw_links g ! b) < length (c_heap (gw_conns g ! i))" using b by (simp add: link_ok_def)
    with b out [of b] same_streamsD(2) [OF str] show ?thesis by (simp add: bridge_data_def ls nth_append)
  qed
  have "bridge_data i g' b = []" if "b \<in> set (map ((+) (length (gw_links g))) (bridges_of i ls))" for b
    using that out [of b] bridges_of_less [of _ i ls] by (auto simp: bridge_data_def ls)
  then have "concat (map (bridge_data i g') (map ((+) (length (gw_links g))) (bridges_of i ls))) = []"
    by (simp add: concat_eq_Nil_conv)
  with old show "session_data i g' = session_data i g"
    by (simp add: session_data_def ls bridges_of_append cong: map_cong)
  show "length (bridges_of i (gw_links g)) \<le> length (bridges_of i (gw_links g'))"
    by (simp add: ls bridges_of_append)
qed

lemma gateway_talks_quiet:
  assumes ok: "gateway_ok False g" and talks: "gateway_talks enc R left n g" and step: "quiet_step enc g g'"
  shows "gateway_talks enc R left (Suc n) g'"
  unfolding gateway_talks_def
proof (intro allI impI conjI)
  fix i a
  assume i: "i < length (gw_conns g')" and a: "a < length (c_heap (gw_conns g' ! i))"
  show "\<not> s_closed (c_heap (gw_conns g' ! i) ! a)"
  proof (cases "i < length (gw_conns g)")
    case True
    then have "same_streams (gw_conns g ! i) (gw_conns g' ! i)" using quiet_stepD(1) [OF step] by blast
    from same_streamsD(2,3) [OF this] gateway_talksD(1) [OF talks True] a show ?thesis by (metis linorder_not_le)
  next
    case False
    with quiet_stepD(2) [OF step i] a show ?thesis by (auto simp: server_connection_def new_conn_def)
  qed
next
  fix i
  assume i: "i < length (gw_conns g')" and key: "lasts_for R left (Suc n) (session_keys g' i)"
    and one: "length (bridges_of i (gw_links g')) \<le> 1"
  show "conn_talks enc (session_keys g' i) (Suc n) (session_data i g') (gw_conns g' ! i)"
  proof (cases "i < length (gw_conns g)")
    case True
    with quiet_stepD(1) [OF step] have "conn_moves enc (gw_conns g ! i) (gw_conns g' ! i)"
      "session_keys g' i = session_keys g i" by blast+
    with conn_talks_moves [OF gateway_talksD(2) [OF talks True]] quiet_step_data [OF ok step True] key one
    show ?thesis by simp
  next
    case False
    have less: "fst l < length (gw_conns g)" if "l \<in> set (gw_links g')" for l
    proof -
      from quiet_stepD(3) [OF step] obtain ls where "gw_links g' = gw_links g @ ls"
        "\<forall>l \<in> set ls. fst l < length (gw_conns g)" by blast
      with that gateway_okD(6) [OF ok, of l] show ?thesis by (auto simp: link_ok_def)
    qed
    have "fst (gw_links g' ! b) \<noteq> i" if "b < length (gw_links g')" for b
      using less [OF nth_mem [OF that]] False by blast
    then have "bridges_of i (gw_links g') = []" by (simp add: bridges_of_def filter_empty_conv)
    then have "session_data i g' = []" by (simp add: session_data_def)
    with quiet_stepD(2) [OF step i False] conn_talks_new [of enc "session_keys g' i" "Suc n"] show ?thesis by metis
  qed
qed

section \<open>The steps\<close>

text \<open>What the network, the clients, the random numbers and the device may be: of a size the sealing takes.\<close>

fun gw_modest :: "gateway_event \<Rightarrow> bool" where
  "gw_modest (Gw_end i ev) = modest_end ev"
| "gw_modest (Gw_device res) = (case res of Inl e \<Rightarrow> True | Inr p \<Rightarrow> length p \<le> 60132)"
| "gw_modest ev = True"

lemma br_out_update: "br_out (f (rt_bridges r ! i)) = br_out (rt_bridges r ! i) \<Longrightarrow>
    br_out (rt_bridges (update_bridge i f r) ! b) = br_out (rt_bridges r ! b)"
  by (simp add: update_bridge_def nth_update_same)

lemma br_out_quiet [simp]:
  "br_out (rt_bridges (route_lookup res r) ! b) = br_out (rt_bridges r ! b)"
  "br_out (rt_bridges (route_send r) ! b) = br_out (rt_bridges r ! b)"
  "br_out (rt_bridges (bridge_inbound i res err r) ! b) = br_out (rt_bridges r ! b)"
  "br_out (rt_bridges (bridge_return i r) ! b) = br_out (rt_bridges r ! b)"
  by (auto simp: route_lookup_def route_send_def bridge_inbound_def bridge_return_def unregister_def
      update_bridge_def nth_update_same [of br_out] Let_def split: option.split sum.split list.split)

lemma br_out_open:
  "bridge_open res err r = (r', e) \<Longrightarrow> b < length (rt_bridges r') \<Longrightarrow>
   br_out (rt_bridges r' ! b) = (if b < length (rt_bridges r) then br_out (rt_bridges r ! b) else [])"
  by (auto simp: bridge_open_def register_def nth_append less_Suc_eq Let_def split: sum.splits if_splits)

lemma keys_same [simp]:
  "ss_keys (sv_sessions (mux_ends i sv) ! j) = ss_keys (sv_sessions sv ! j)"
  "ss_keys (sv_sessions (cleanup_session i sv) ! j) = ss_keys (sv_sessions sv ! j)"
  by (auto simp: mux_ends_def cleanup_session_def nth_update_same [of ss_keys] Let_def)

lemma quiet_stepI:
  assumes "length (gw_conns g') = length (gw_conns g)"
    and "\<And>i. conn_moves enc (gw_conns g ! i) (gw_conns g' ! i)" and "\<And>i. session_keys g' i = session_keys g i"
    and "gw_links g' = gw_links g @ ls" and "\<And>l. l \<in> set ls \<Longrightarrow> fst l < length (gw_conns g)"
    and "\<And>b. b < length (gw_links g') \<Longrightarrow> br_out (rt_bridges (gw_router g') ! b) =
      (if b < length (gw_links g) then br_out (rt_bridges (gw_router g) ! b) else [])"
  shows "quiet_step enc g g'"
  using assms unfolding quiet_step_def by auto

lemma quiet_step_same:
  "gw_conns g' = gw_conns g \<Longrightarrow> (\<And>i. session_keys g' i = session_keys g i) \<Longrightarrow> gw_links g' = gw_links g \<Longrightarrow>
   (\<And>b. br_out (rt_bridges (gw_router g') ! b) = br_out (rt_bridges (gw_router g) ! b)) \<Longrightarrow> quiet_step enc g g'"
  by (rule quiet_stepI [where ls = "[]"]) (simp_all add: conn_moves_refl)

lemma quiet_auth:
  assumes ok: "gateway_ok False g" and inv: "server_inv (gw_server g)"
  shows "quiet_step (gp_enc par) g (gw_auth par msg1 rnd now g)"
proof (cases "authenticate (gp_new par) (gp_read par) (gp_write par) (gp_peer par) (gp_keys par)
    (sv_allowed (gw_server g)) msg1")
  case (Inl e)
  then show ?thesis by (simp add: gw_auth_def on_auth_def quiet_step_same)
next
  case (Inr x)
  obtain k msg2 ses where x: "x = (k, msg2, ses)" by (cases x)
  let ?sv = "install_session k ses (gw_server g)"
  define cs where "cs = (case sv_active (gw_server g) k of None \<Rightarrow> gw_conns g
    | Some old \<Rightarrow> if ss_close_once (sv_sessions (gw_server g) ! old) then gw_conns g
        else (gw_conns g)[old := close_end (gp_enc par) (gw_conns g ! old)])"
  have len: "length (gw_conns g) = length (sv_sessions (gw_server g))" using gateway_okD(1) [OF ok] .
  have keys: "ss_keys (sv_sessions ?sv ! i) = (if i = length (gw_conns g) then ses else session_keys g i)"
    if "i \<le> length (gw_conns g)" for i
    using that len by (simp add: install_session_nth [OF inv] fresh_session_def close_session_def)
  have "sv_sessions ?sv ! length (gw_conns g) = fresh_session k ses"
    using len by (simp add: install_session_nth [OF inv])
  then have g': "gw_auth par msg1 rnd now g = g\<lparr>gw_server := ?sv, gw_conns := cs @ [server_connection ses rnd now]\<rparr>"
    using Inr x by (simp add: gw_auth_def on_auth_def fresh_session_def cs_def)
  have moves: "length cs = length (gw_conns g)" "conn_moves (gp_enc par) (gw_conns g ! i) (cs ! i)" for i
    by (simp_all add: cs_def conn_moves_refl conn_moves_update conn_moves_end split: option.split)
  have "\<exists>rnd now. (cs @ [server_connection ses rnd now]) ! length (gw_conns g) = server_connection ses rnd now"
    by (intro exI) (simp add: moves(1) nth_append)
  with moves keys gateway_okD(2) [OF ok] show ?thesis
    by (auto simp: quiet_step_def g' nth_append less_Suc_eq)
qed

lemma quiet_end:
  assumes "modest_end ev"
  shows "quiet_step enc g (gw_end enc i ev g)"
proof (cases "i < length (gw_conns g)")
  case True
  obtain c' gone where st: "end_step enc ev (gw_conns g ! i) = (c', gone)" by fastforce
  from conn_moves_step [OF st assms] show ?thesis
    using True st by (intro quiet_stepI [where ls = "[]"]) (simp_all add: gw_end_def conn_moves_update)
qed (simp add: gw_end_def quiet_step_same)

lemma gw_stream_read_moves:
  assumes "gw_stream_read l n g = Some (g1, res)"
  shows "length (gw_conns g1) = length (gw_conns g) \<and> conn_moves enc (gw_conns g ! j) (gw_conns g1 ! j)"
  using assms conn_moves_update [OF conn_moves_read]
  by (auto simp: gw_stream_read_def split: option.splits)

lemma quiet_open:
  assumes ok: "gateway_ok False g"
  shows "quiet_step enc g (gw_open k n err g)"
proof (cases "k < length (gw_callbacks g)")
  case True
  let ?l = "gw_callbacks g ! k"
  show ?thesis
  proof (cases "gw_stream_read ?l n g")
    case (Some x)
    obtain g1 res where x: "x = (g1, res)" by (cases x)
    note rd = Some [unfolded x]
    obtain r e where r: "bridge_open res err (gw_router g) = (r, e)" by fastforce
    have "fst ?l < length (gw_conns g)" using gateway_okD(6) [OF ok, of ?l] True by (simp add: link_ok_def)
    moreover have "br_out (rt_bridges r ! b) = (if b < length (gw_links g) then br_out (rt_bridges (gw_router g) ! b) else [])"
      if "b < length (gw_links g) + of_bool (e = None)" for b
      using br_out_open [OF r, of b] bridge_open_length [OF r] that gateway_okD(2) [OF ok] by simp
    ultimately show ?thesis
      using True rd r gw_stream_readD [OF rd] gw_stream_read_moves [OF rd]
      by (intro quiet_stepI [where ls = "if e = None then [?l] else []"]) (auto simp: gw_open_def split: if_splits)
  qed (simp add: gw_open_def quiet_step_same)
qed (simp add: gw_open_def quiet_step_same)

lemma quiet_inbound:
  "quiet_step enc g (gw_inbound b n err g)"
proof (cases "length (gw_links g) \<le> b \<or> \<not> br_reader (rt_bridges (gw_router g) ! b)")
  case False
  show ?thesis
  proof (cases "gw_stream_read (gw_links g ! b) n g")
    case (Some x)
    obtain g1 res where x: "x = (g1, res)" by (cases x)
    note rd = Some [unfolded x]
    from False rd gw_stream_readD [OF rd] gw_stream_read_moves [OF rd] show ?thesis
      by (intro quiet_stepI [where ls = "[]"]) (auto simp: gw_inbound_def)
  qed (simp add: gw_inbound_def quiet_step_same)
qed (auto simp: gw_inbound_def quiet_step_same)

lemma gateway_quiet_step:
  assumes "gateway_ok False g" and "server_inv (gw_server g)" and "gw_modest ev" and "\<forall>b. ev \<noteq> Gw_drain b"
  shows "quiet_step (gp_enc par) g (gateway_step par ev g)"
  using assms by (cases ev) (simp_all add: quiet_auth quiet_end quiet_open quiet_inbound quiet_step_same)

text \<open>A packet on its way from the router to a connection, or handed to one, is one that fits a frame.\<close>

definition queues_ok :: "router \<Rightarrow> bool" where
  "queues_ok r \<longleftrightarrow>
     (\<forall>b < length (rt_bridges r). list_all packet_ok (br_out (rt_bridges r ! b) @ br_queue (rt_bridges r ! b))) \<and>
     (\<forall>b p. rt_pending r = Some (b, p) \<longrightarrow> b < length (rt_bridges r) \<and> packet_ok p)"

lemma queues_ok_update:
  "queues_ok r \<Longrightarrow> (list_all packet_ok (br_out (rt_bridges r ! i) @ br_queue (rt_bridges r ! i)) \<Longrightarrow>
     list_all packet_ok (br_out (f (rt_bridges r ! i)) @ br_queue (f (rt_bridges r ! i)))) \<Longrightarrow>
   queues_ok (update_bridge i f r)"
  by (cases "i < length (rt_bridges r)") (auto simp: queues_ok_def update_bridge_def nth_list_update)

lemma queues_ok_unregister: "queues_ok r \<Longrightarrow> queues_ok (unregister key r)"
  by (auto simp: unregister_def Let_def split: option.split intro!: queues_ok_update) (auto simp: queues_ok_def)

lemma queues_ok_quiet:
  assumes "queues_ok r"
  shows "queues_ok (bridge_drain i e r)" "queues_ok (bridge_inbound i res err r)" "queues_ok (bridge_return i r)"
    "queues_ok (fst (bridge_open res err r))" "queues_ok (route_send r)"
proof -
  show "queues_ok (bridge_drain i e r)"
    using assms by (auto simp: bridge_drain_def Let_def split: list.split option.split intro!: queues_ok_update)
  show "queues_ok (bridge_inbound i res err r)"
    using assms
    by (auto simp: bridge_inbound_def Let_def split: sum.split option.split intro!: queues_ok_update)
      (auto simp: queues_ok_def)
  show "queues_ok (bridge_return i r)"
    using assms
    by (auto simp: bridge_return_def Let_def split: list.split intro!: queues_ok_update queues_ok_unregister)
  show "queues_ok (fst (bridge_open res err r))"
    using assms
    by (auto simp: bridge_open_def register_def queues_ok_def nth_append less_Suc_eq Let_def split: sum.split)
  have "queues_ok (r\<lparr>rt_pending := None\<rparr>)" "queues_ok (r\<lparr>rt_pending := None, rt_panic := True\<rparr>)"
    using assms by (simp_all add: queues_ok_def)
  with assms show "queues_ok (route_send r)"
    by (auto simp: route_send_def offer_def queues_ok_def [of r] split: option.split intro!: queues_ok_update)
qed

lemma queues_ok_lookup:
  assumes "queues_ok r" and inv: "router_inv rd r" and "\<And>p. res = Inr p \<Longrightarrow> length p \<le> 60132"
  shows "queues_ok (route_lookup res r)"
  using assms routes_okD [of r]
  by (auto simp: route_lookup_def queues_ok_def router_inv_def packet_ok_def split: sum.split option.split)

text \<open>What the device gave the server in a run, and what that makes of the router.\<close>

definition gw_reads :: "gateway_event list \<Rightarrow> bytes list" where
  "gw_reads evs = concat (map (\<lambda>ev. case ev of Gw_device (Inr p) \<Rightarrow> [p] | _ \<Rightarrow> []) evs)"

lemma gateway_router_keeps:
  assumes "\<forall>res. ev \<noteq> Gw_device res" and P: "P (gw_router g)"
    and "\<And>r. P r \<Longrightarrow> P (route_send r)" "\<And>r res err. P r \<Longrightarrow> P (fst (bridge_open res err r))"
    "\<And>r i e. P r \<Longrightarrow> P (bridge_drain i e r)" "\<And>r i res err. P r \<Longrightarrow> P (bridge_inbound i res err r)"
    "\<And>r i. P r \<Longrightarrow> P (bridge_return i r)"
  shows "P (gw_router (gateway_step par ev g))"
proof (cases ev)
  case (Gw_open k n err)
  have "P r" if "bridge_open res err (gw_router g) = (r, e)" for res r e
    using assms(4) [OF P, of res err] that by simp
  with Gw_open P show ?thesis
    by (auto simp: gw_open_def gw_stream_readD split: option.split prod.split)
qed (use assms in \<open>auto simp: gw_auth_def gw_end_def gw_inbound_def gw_drain_def gw_stream_readD Let_def
    split: option.split prod.split list.split sum.split bool.split\<close>)

definition traffic_ok :: "bytes list \<Rightarrow> router \<Rightarrow> bool" where
  "traffic_ok rd r \<longleftrightarrow> router_inv rd r \<and> queues_ok r"

lemma traffic_ok_step:
  assumes ok: "traffic_ok rd (gw_router g)" and ev: "gw_modest ev"
  shows "traffic_ok (rd @ gw_reads [ev]) (gw_router (gateway_step par ev g))"
proof (cases "\<exists>res. ev = Gw_device res")
  case True
  then obtain res where res: "ev = Gw_device res" by blast
  then have "gw_reads [ev] = tun_reads [Tun_read res]" by (simp add: gw_reads_def tun_reads_def)
  moreover have "length p \<le> 60132" if "res = Inr p" for p using res ev that by simp
  ultimately show ?thesis
    using res ok router_inv_lookup [of rd "gw_router g" res] queues_ok_lookup [of "gw_router g" rd res]
    by (simp add: traffic_ok_def)
next
  case False
  then have "gw_reads [ev] = []" by (cases ev) (auto simp: gw_reads_def)
  moreover have "traffic_ok rd (gw_router (gateway_step par ev g))"
    using False ok by (intro gateway_router_keeps [where P = "traffic_ok rd"]) (auto simp: traffic_ok_def queues_ok_quiet
        router_inv_send router_inv_open router_inv_drain router_inv_inbound router_inv_return)
  ultimately show ?thesis by simp
qed

text \<open>A bridge's write of the packet at the front of its channel.\<close>

lemma bridge_drain_out:
  assumes "b < length (rt_bridges r)" and "br_writer (rt_bridges r ! b)" and "br_queue (rt_bridges r ! b) = p # q"
  shows "br_out (rt_bridges (bridge_drain b e r) ! b') =
    br_out (rt_bridges r ! b') @ (if b' = b \<and> e = None then [p] else [])"
  using assms by (auto simp: bridge_drain_def update_bridge_def nth_list_update Let_def split: option.split)

lemma bridge_drain_empty:
  assumes "br_queue (rt_bridges r ! b) = []"
  shows "br_out (rt_bridges (bridge_drain b e r) ! b') = br_out (rt_bridges r ! b')"
  using assms by (auto simp: bridge_drain_def update_bridge_def nth_update_same [of br_out] Let_def)

lemma filter_upt_one: "b < n \<Longrightarrow> filter (\<lambda>b'. b' = b) [0..<n] = [b]"
  by (induction n) (auto simp: less_Suc_eq)

lemma bridges_of_one:
  assumes "b < length ls" and "length (bridges_of (fst (ls ! b)) ls) \<le> 1"
  shows "bridges_of (fst (ls ! b)) ls = [b]"
proof -
  have "b \<in> set (bridges_of (fst (ls ! b)) ls)" using assms(1) by (simp add: bridges_of_def)
  with assms(2) show ?thesis by (cases "bridges_of (fst (ls ! b)) ls") auto
qed

lemma gateway_talks_drain:
  assumes law: "noise_law (gp_enc par) dec R" and lasts: "noise_lasts (gp_enc par) left"
    and ok: "gateway_ok False g" and queues: "queues_ok (gw_router g)" and talks: "gateway_talks (gp_enc par) R left n g"
  shows "gateway_talks (gp_enc par) R left (Suc n) (gw_drain (gp_enc par) b g)"
proof (cases "b < length (gw_links g) \<and> br_writer (rt_bridges (gw_router g) ! b)")
  case False
  then have "gw_drain (gp_enc par) b g = g" by (auto simp: gw_drain_def)
  with gateway_talks_quiet [OF ok talks, of g] show ?thesis by (simp add: quiet_step_same)
next
  case True
  then have b: "b < length (gw_links g)" "b < length (rt_bridges (gw_router g))"
    "br_writer (rt_bridges (gw_router g) ! b)" using gateway_okD(2) [OF ok] by simp_all
  show ?thesis
  proof (cases "br_queue (rt_bridges (gw_router g) ! b)")
    case Nil
    with b gateway_talks_quiet [OF ok talks, of "gw_drain (gp_enc par) b g"] show ?thesis
      by (simp add: gw_drain_def quiet_step_same bridge_drain_empty)
  next
    case (Cons p q)
    obtain i a where l: "gw_links g ! b = (i, a)" by fastforce
    have "link_ok (gw_conns g) (i, a)" using gateway_okD(6) [OF ok, of "(i, a)"] b(1) l by (metis UnI2 nth_mem)
    then have i: "i < length (gw_conns g)" "a < length (c_heap (gw_conns g ! i))" by (simp_all add: link_ok_def)
    have p: "packet_ok p" using queues b(2) Cons by (fastforce simp: queues_ok_def)
    obtain c m e where wr: "conn_stream_write (end_writer (gp_enc par)) (gw_conns g ! i) a p = (c, m, e)"
      using prod_cases3 by blast
    define g' where "g' = gw_drain (gp_enc par) b g"
    have g': "gw_conns g' = (gw_conns g)[i := c]" "gw_links g' = gw_links g" "gw_server g' = gw_server g"
      "gw_router g' = bridge_drain b e (gw_router g)"
      using b Cons l wr by (simp_all add: g'_def gw_drain_def)
    have "c_heap c = c_heap (gw_conns g ! i)" using wr by (auto simp: conn_stream_write_def split: prod.splits)
    then have heap: "c_heap (gw_conns g' ! j) = c_heap (gw_conns g ! j)" for j
      by (simp add: g'(1) nth_update_same [of c_heap])
    have data: "bridge_data j g' b' = bridge_data j g b' @
        (if b' = b \<and> e = None then [data_frame (s_id (c_heap (gw_conns g ! j) ! a)) p] else [])" for j b'
      by (simp add: bridge_data_def heap g'(2,4) bridge_drain_out [OF b(2,3) Cons] l)
    have "conn_talks (gp_enc par) (session_keys g j) (Suc n) (session_data j g') (gw_conns g' ! j)"
      if j: "j < length (gw_conns g)" and key: "lasts_for R left (Suc n) (session_keys g j)"
        and one: "length (bridges_of j (gw_links g)) \<le> 1" for j
    proof (cases "j = i")
      case True
      have "bridges_of i (gw_links g) = [b]" using bridges_of_one [OF b(1)] one True l by simp
      with conn_talks_write [OF law lasts lasts_for_Suc [OF key] gateway_talksD(2) [OF talks j key one] p _ , of a c m e]
        gateway_talksD(1) [OF talks i] wr True i(1)
      show ?thesis by (cases e) (simp_all add: g'(1) data session_data_def g'(2))
    next
      case False
      then have "session_data j g' = session_data j g"
        using l bridges_of_less [of b j "gw_links g"]
        by (auto simp: session_data_def data g'(2) intro!: arg_cong [of _ _ concat] map_cong)
      with False conn_talks_moves [OF gateway_talksD(2) [OF talks j key one] conn_moves_refl] show ?thesis
        by (simp add: g'(1))
    qed
    with gateway_talksD(1) [OF talks] show ?thesis
      by (simp add: gateway_talks_def heap g'(2,3) flip: g'_def) (simp add: g'(1))
  qed
qed

lemma gateway_talks_step:
  assumes "noise_law (gp_enc par) dec R" and "noise_lasts (gp_enc par) left"
    and "gateway_ok False g" and "server_inv (gw_server g)" and "queues_ok (gw_router g)" and "gw_modest ev"
    and "gateway_talks (gp_enc par) R left n g"
  shows "gateway_talks (gp_enc par) R left (Suc n) (gateway_step par ev g)"
proof (cases "\<exists>b. ev = Gw_drain b")
  case True
  with gateway_talks_drain [OF assms(1-3,5,7)] show ?thesis by auto
next
  case False
  with gateway_quiet_step [OF assms(3,4,6)] gateway_talks_quiet [OF assms(3,7)] show ?thesis by blast
qed

section \<open>From the server's device to the client's\<close>

lemma gateway_plays_snoc:
  "gateway_plays par polite (evs @ [ev]) g = Some g' \<Longrightarrow>
   \<exists>h. gateway_plays par polite evs g = Some h \<and> g' = gateway_step par ev h"
  by (induction evs arbitrary: g) (auto split: if_splits)

lemma gateway_run_talks:
  assumes law: "noise_law (gp_enc par) dec R" and lasts: "noise_lasts (gp_enc par) left"
  shows "gateway_plays par False evs (new_gateway allowed) = Some g \<Longrightarrow> list_all gw_modest evs \<Longrightarrow>
    traffic_ok (gw_reads evs) (gw_router g) \<and> gateway_talks (gp_enc par) R left (length evs) g"
proof (induction evs arbitrary: g rule: rev_induct)
  case Nil
  then show ?case
    by (auto simp: new_gateway_def traffic_ok_def gw_reads_def queues_ok_def gateway_talks_def)
      (simp_all add: new_tun_router_def)
next
  case (snoc ev evs)
  from gateway_plays_snoc [OF snoc.prems(1)] obtain h where
    h: "gateway_plays par False evs (new_gateway allowed) = Some h" "g = gateway_step par ev h" by blast
  have reach: "gateway_reach par allowed False h" using gateway_reach_plays [OF gateway_reach.start h(1)] .
  from snoc.prems(2) have ev: "gw_modest ev" and evs: "list_all gw_modest evs" by simp_all
  note ih = snoc.IH [OF h(1) evs]
  have "traffic_ok (gw_reads (evs @ [ev])) (gw_router g)"
    using traffic_ok_step [OF conjunct1 [OF ih] ev] by (simp add: h(2) gw_reads_def)
  with gateway_talks_step [OF law lasts gateway_reach_ok [OF reach] gateway_server_inv [OF reach] _ ev] ih
  show ?case by (simp add: h(2) traffic_ok_def)
qed

text \<open>What the client's end of the session hears.\<close>

lemma session_comes_back:
  assumes law: "noise_law enc dec R" and lasts: "noise_lasts enc left" and step: "R s r"
    and talks: "conn_talks enc (new_session (Some s) t) k (map (data_frame 1) ps) c" and nonces: "k < left s"
    and wire: "pipe_pending net = wire_of enc c" "in_end net = EOF"
  shows "\<exists>r' conn. read_tunnel enc dec (new_session t' (Some r)) clock net
      (client_connection enc (new_session t' (Some r)) rnd' now') = Some (r', conn) \<and>
    stream_ok (c_heap conn ! 0) \<and> inbox (c_heap conn ! 0) = ps \<and>
    read_err (c_heap conn ! 0) = Some EOF"
proof -
  let ?c = "client_connection enc (new_session t' (Some r)) rnd' now'"
  from talks obtain rnd evs where evs: "c_enc c = end_run enc evs (tunnel_writer (new_session (Some s) t) rnd)"
    "length evs \<le> k" "list_all chatter (offered evs)" "filter is_data (offered evs) = map (data_frame 1) ps"
    by (auto simp: conn_talks_def)
  have small: "list_all (\<lambda>f. valid_frame f \<and> length (payload f) \<le> 60132) (offered evs)"
    using chatter_small [OF evs(3)] by (simp add: small_frame_def [abs_def])
  have "length evs < left s" using evs(2) nonces by simp
  from frames_arrive [OF law lasts step small this evs(1) [unfolded end_run_def] wire, where t' = t' and k = 0
      and wr = "end_writer enc" and clock = clock and c' = ?c]
  obtain r' fs where fs: "visible fs = visible (offered evs)"
    and run: "read_tunnel enc dec (new_session t' (Some r)) clock net ?c =
      Some (r', conn_close ((dispatch_all (end_writer enc) ?c fs clock 0)\<lparr>c_close_err := Some EOF\<rparr>))"
    by (auto simp: read_tunnel_def)
  note heard = conversation_heard [OF fs evs(3,4)]
  have c: "conn_ok ?c" "\<not> c_done ?c" "map_of (c_streams ?c) 1 = Some 0" "read_err (c_heap ?c ! 0) = None"
    "inbox (c_heap ?c ! 0) = []"
    by (simp_all add: client_connection_simps new_stream_def inbox_def)
  from stream_hears [OF c(1-4) heard(1) refl, where wr = "end_writer enc" and clock = clock and k = 0]
    stream_ends [OF _ _ _ _ disjI1 [OF refl], where c = "dispatch_all (end_writer enc) ?c fs clock 0" and sid = 1
      and a = 0 and e = "Some EOF"]
  show ?thesis using run by (simp add: heard(2) c(5))
qed

text \<open>
  C4: the whole server, from its device to the client's. In every run of the server, with any clients that come,
  rotate and go, whatever the network and the device do: take a session with one bridge, on stream 1, and the
  bytes its connection has put on the network when it is closed. However the network cuts them, the client's read
  loop ends, and its stream reader writes to the client's TUN device exactly the packets the bridge took out of the router,
  all of them, in order and each once; and these are packets the server read from its device for this bridge's
  address, in that order, none twice.
\<close>

theorem gateway_run_reaches_the_client:
  assumes law: "noise_law (gp_enc par) dec R" and lasts: "noise_lasts (gp_enc par) left"
    and run: "gateway_plays par False evs (new_gateway allowed) = Some g" and modest: "list_all gw_modest evs"
    and b: "b < length (gw_links g)" "gw_links g ! b = (i, a)"
    and one: "\<forall>b' < length (gw_links g). fst (gw_links g ! b') = i \<longrightarrow> b' = b"
    and sid: "s_id (c_heap (gw_conns g ! i) ! a) = 1"
    and key: "ss_keys (sv_sessions (gw_server g) ! i) = new_session (Some s) t" "R s r"
    and nonces: "Suc (length evs) < left s"
    and wire: "pipe_pending net = wire_of (gp_enc par) (gw_conns g ! i)" "in_end net = EOF"
    and buf: "\<forall>p \<in> set (br_out (rt_bridges (gw_router g) ! b)). length p \<le> n"
    and reader: "k \<in> set (cl_stream_readers c)"
  shows "\<exists>r' conn s' c'. read_tunnel (gp_enc par) dec (new_session t' (Some r)) clock net
      (client_connection (gp_enc par) (new_session t' (Some r)) rnd' now') = Some (r', conn) \<and>
    client_pump n (\<lambda>_. None) k (c_heap conn ! 0) c = Some (s', c') \<and>
    cl_tun c' = cl_tun c @ br_out (rt_bridges (gw_router g) ! b) \<and>
    subseq (br_out (rt_bridges (gw_router g) ! b))
      (filter (\<lambda>p. dst_ip_key p = br_key (rt_bridges (gw_router g) ! b)) (gw_reads evs))"
proof -
  let ?out = "br_out (rt_bridges (gw_router g) ! b)"
  note ok = gateway_reach_ok [OF gateway_reach_plays [OF gateway_reach.start run]]
  note run_ok = gateway_run_talks [OF law lasts run modest]
  have i: "i < length (gw_conns g)"
    using gateway_okD(6) [OF ok, of "(i, a)"] nth_mem [OF b(1)] b(2) by (simp add: link_ok_def)
  have "bridges_of i (gw_links g) = filter (\<lambda>b'. b' = b) [0..<length (gw_links g)]"
    unfolding bridges_of_def by (rule filter_cong [OF refl]) (metis one b(2) fst_conv atLeastLessThan_iff set_upt)
  also have "\<dots> = [b]" by (rule filter_upt_one [OF b(1)])
  finally have bs: "bridges_of i (gw_links g) = [b]" .
  have data: "session_data i g = map (data_frame 1) ?out" by (simp add: session_data_def bs bridge_data_def b(2) sid)
  have "lasts_for R left (length evs) (session_keys g i)" using key nonces by (auto simp: lasts_for_def)
  with run_ok i bs data key(1) have "conn_talks (gp_enc par) (new_session (Some s) t) (length evs) (map (data_frame 1) ?out)
      (gw_conns g ! i)" unfolding gateway_talks_def by auto
  from session_comes_back [OF law lasts key(2) this _ wire, where t' = t' and clock = clock and rnd' = rnd' and now' = now']
    nonces
  obtain r' conn where conn: "read_tunnel (gp_enc par) dec (new_session t' (Some r)) clock net
      (client_connection (gp_enc par) (new_session t' (Some r)) rnd' now') = Some (r', conn)"
    and str: "stream_ok (c_heap conn ! 0)" "inbox (c_heap conn ! 0) = ?out" "read_err (c_heap conn ! 0) = Some EOF"
    by auto
  have bridge: "session_ok (gw_reads evs) (in_flight (gw_router g) b) (rt_bridges (gw_router g) ! b)"
    using session_okI [of "gw_reads evs" "gw_router g" b] run_ok b(1) gateway_okD(2) [OF ok] by (simp add: traffic_ok_def)
  then have sub: "subseq ?out (filter (\<lambda>p. dst_ip_key p = br_key (rt_bridges (gw_router g) ! b)) (gw_reads evs))"
    unfolding session_ok_def by (blast dest: subseq_prefixD)
  have "\<forall>p \<in> set ?out. p \<noteq> []"
    using run_ok b(1) gateway_okD(2) [OF ok] by (simp add: traffic_ok_def queues_ok_def list_all_iff packet_ok_def)
  from client_pump_delivers [OF str buf this reader] conn sub show ?thesis by blast
qed

section \<open>A concrete run\<close>

text \<open>After \<open>one_bridge\<close>: the device has a packet for the client, it is routed and written, and the batch is flushed.\<close>

definition reply_run :: "gateway_event list" where
  "reply_run = client_arrives [9] 0 @
     [Gw_open 0 1600 None, Gw_device (Inr reply_packet), Gw_send, Gw_drain 0, Gw_end 0 (End_timer False)]"

definition replied :: "nat gateway" where
  "replied = the (gateway_plays demo_params False reply_run (new_gateway []))"

lemma gateway_plays_polite:
  "gateway_plays par True evs g = Some g' \<Longrightarrow> gateway_plays par False evs g = Some g'"
  by (induction evs arbitrary: g) (auto split: if_splits)

lemma replied_run:
  "gateway_plays demo_params False reply_run (new_gateway []) = Some replied"
  "br_out (rt_bridges (gw_router replied) ! 0) = [reply_packet]" "br_key (rt_bridges (gw_router replied) ! 0) = [10, 7, 0, 2]"
  "gw_links replied = [(0, 0)]" "s_id (c_heap (gw_conns replied ! 0) ! 0) = 1"
  "ss_keys (sv_sessions (gw_server replied) ! 0) = new_session (Some 0) (Some 0)"
proof -
  have "gateway_plays demo_params False (client_arrives [9] 0 @ [Gw_open 0 1600 None]) (new_gateway []) = Some one_bridge"
    using gateway_plays_append [OF gateway_plays_polite [OF one_client_arrives], of "[Gw_open 0 1600 None]"]
    by (simp add: one_bridge_def one_client_def new_tun_router_def)
  from gateway_plays_append [OF this, of "[Gw_device (Inr reply_packet), Gw_send, Gw_drain 0, Gw_end 0 (End_timer False)]"]
  have run: "gateway_plays demo_params False reply_run (new_gateway []) =
      gateway_plays demo_params False [Gw_device (Inr reply_packet), Gw_send, Gw_drain 0, Gw_end 0 (End_timer False)] one_bridge"
    by (simp add: reply_run_def)
  obtain c m e where wr: "conn_stream_write (end_writer tag_enc) (gw_conns one_bridge ! 0) 0 reply_packet = (c, m, e)"
    using prod_cases3 by blast
  have conn: "c_heap (gw_conns one_bridge ! 0) = [new_stream 1]"
    "c_enc (gw_conns one_bridge ! 0) = tunnel_writer (new_session (Some 0) (Some 0)) (sconst 3)"
    by (simp_all add: one_bridge_eq one_client_def server_connection_def new_conn_def)
  have p: "packet_ok reply_packet" by (simp add: packet_ok_def reply_packet_def ip4_def)
  have "snd (write_frame (end_writer tag_enc) (tunnel_writer (new_session (Some 0) (Some 0)) (sconst 3))
      (data_frame 1 reply_packet)) = None"
    by (simp add: write_frame_def data_frame_def coal_write_def tunnel_writer_eq encode_frame_def
        Let_def max_payload_def header_size_def reply_packet_def ip4_def)
  with stream_write_answer [OF p, of "new_stream 1" "end_writer tag_enc"
      "tunnel_writer (new_session (Some 0) (Some 0)) (sconst 3)"] wr
  have e: "e = None" and heap: "c_heap c = [new_stream 1]"
    by (auto simp: conn_stream_write_def conn new_stream_def split: prod.splits)
  have "\<exists>g. gateway_plays demo_params False reply_run (new_gateway []) = Some g \<and>
      br_out (rt_bridges (gw_router g) ! 0) = [reply_packet] \<and> br_key (rt_bridges (gw_router g) ! 0) = [10, 7, 0, 2] \<and>
      gw_links g = [(0, 0)] \<and> s_id (c_heap (gw_conns g ! 0) ! 0) = 1 \<and>
      ss_keys (sv_sessions (gw_server g) ! 0) = new_session (Some 0) (Some 0)"
    unfolding run using wr [unfolded e] heap
    by (simp add: one_bridge_eq one_client_def gateway_eval router_eval reply_packet_def ping_packet_simps fresh_session_def gw_drain_def)
  then show "gateway_plays demo_params False reply_run (new_gateway []) = Some replied"
    "br_out (rt_bridges (gw_router replied) ! 0) = [reply_packet]" "br_key (rt_bridges (gw_router replied) ! 0) = [10, 7, 0, 2]"
    "gw_links replied = [(0, 0)]" "s_id (c_heap (gw_conns replied ! 0) ! 0) = 1"
    "ss_keys (sv_sessions (gw_server replied) ! 0) = new_session (Some 0) (Some 0)"
    by (auto simp: replied_def)
qed

lemma gateway_run_reaches_the_client_witness:
  "\<exists>net r' conn s' c'. read_tunnel tag_enc tag_dec (new_session (Some 100) (Some 0)) (\<lambda>_. 0) net
      (client_connection tag_enc (new_session (Some 100) (Some 0)) (sconst 5) 0) = Some (r', conn) \<and>
    client_pump 1600 (\<lambda>_. None) 0 (c_heap conn ! 0) (client_start False) = Some (s', c') \<and>
    cl_tun c' = [reply_packet]"
proof -
  define W where "W = fst (coal_close (fc_write tag_enc pipe_write) (fc_close (\<lambda>w. (pipe_close w, None)))
    (c_enc (gw_conns replied ! 0)))"
  have wire: "pipe_pending (pipe_join (fc_wr (cc_inner W))) = wire_of (gp_enc demo_params) (gw_conns replied ! 0)"
    "in_end (pipe_join (fc_wr (cc_inner W))) = EOF"
    by (simp_all add: wire_of_def W_def demo_params_def)
  have modest: "list_all gw_modest reply_run" "Suc (length reply_run) < 40 + (0 :: nat) * 0"
    by (simp_all add: reply_run_def client_arrives_def reply_packet_def ip4_def control_frame_def data_frame_def
        frame_type_defs)
  have par: "noise_law (gp_enc demo_params) tag_dec (=)" "noise_lasts (gp_enc demo_params) (\<lambda>k. 40 + (0 :: nat) * k)"
    using tag_law tag_lasts_long by (simp_all add: demo_params_def)
  have more: "0 < length (gw_links replied)" "gw_links replied ! 0 = (0, 0)"
    "\<forall>b' < length (gw_links replied). fst (gw_links replied ! b') = 0 \<longrightarrow> b' = 0"
    "\<forall>p \<in> set (br_out (rt_bridges (gw_router replied) ! 0)). length p \<le> 1600"
    "0 \<in> set (cl_stream_readers (client_start False))"
    by (simp_all add: replied_run reply_packet_def ip4_def client_start_def)
  from gateway_run_reaches_the_client [OF par replied_run(1) modest(1) more(1-3) replied_run(5,6) refl modest(2) wire
      more(4,5), where t' = "Some 100" and rnd' = "sconst 5" and now' = 0 and clock = "\<lambda>_. 0"]
  show ?thesis by (fastforce simp: replied_run demo_params_def client_start_def)
qed

end
