(* ===== verification/Handshake.thy ===== *)
theory Handshake
  imports Server "HOL-Library.Sublist"
begin

text \<open>
  The HTTP exchange that sets a tunnel up and carries it: the client's \<^verbatim>\<open>Handshake\<close>
  (\<^verbatim>\<open>internal/camouflage/h2_client.go\<close>), the second half of the server's \<^verbatim>\<open>TunnelHandler\<close> after the
  authentication, and \<^verbatim>\<open>bridge\<close>, which relays between the HTTP/2 stream and the server's pipes
  (\<^verbatim>\<open>internal/camouflage/h2_server.go\<close>). The HTTP/2 library is the function from a request to
  its response.
\<close>

section \<open>The server's answer\<close>

record 'w response =
  rs_status :: nat
  rs_content_type :: string
  rs_body :: 'w

text \<open>What follows the answer: the relay, or the end of the request with the tunnel closed or nil.\<close>

datatype 't aftermath = Relay_to 't | Tunnel_closed 't | No_tunnel

definition answer_tunnel ::
  "'w writer \<Rightarrow> 'w \<Rightarrow> bytes \<Rightarrow> 't option \<Rightarrow> 'w response \<times> 't aftermath" where
  "answer_tunnel wr w resp tun =
     (case write_length_prefixed wr w resp of
        (w', Some e) \<Rightarrow>
          (\<lparr>rs_status = 200, rs_content_type = ''application/octet-stream'', rs_body = w'\<rparr>,
           (case tun of Some t \<Rightarrow> Tunnel_closed t | None \<Rightarrow> No_tunnel))
      | (w', None) \<Rightarrow>
          (\<lparr>rs_status = 200, rs_content_type = ''application/octet-stream'', rs_body = w'\<rparr>,
           (case tun of Some t \<Rightarrow> Relay_to t | None \<Rightarrow> No_tunnel)))"

section \<open>The relay\<close>

text \<open>
  \<open>rl_body\<close> and \<open>rl_resp\<close> are the two halves of the HTTP/2 stream, \<open>rl_tun_in\<close> and \<open>rl_tun_out\<close> those of
  the tunnel (\<^verbatim>\<open>pipeReadWriter\<close>). \<open>rl_down\<close> and \<open>rl_up\<close> say which of the two goroutines runs,
  \<open>rl_done\<close> counts the tokens in the channel \<^verbatim>\<open>done\<close>.
\<close>

record relay =
  rl_body :: pipe_in
  rl_resp :: pipe_out
  rl_tun_in :: pipe_in
  rl_tun_out :: pipe_out
  rl_down :: bool
  rl_up :: bool
  rl_done :: nat
  rl_returned :: bool

definition relay_start :: "pipe_in \<Rightarrow> pipe_out \<Rightarrow> pipe_in \<Rightarrow> pipe_out \<Rightarrow> relay" where
  "relay_start body resp tun_in tun_out =
     \<lparr>rl_body = body, rl_resp = resp, rl_tun_in = tun_in, rl_tun_out = tun_out, rl_down = True,
      rl_up = True, rl_done = 0, rl_returned = False\<rparr>"

text \<open>
  One iteration of a copy loop: a piece read and written; the flag says whether the loop goes on.
\<close>

definition copy_piece :: "pipe_in \<Rightarrow> pipe_out \<Rightarrow> pipe_in \<times> pipe_out \<times> bool" where
  "copy_piece r w =
     (case pipe_read r copy_buffer of
        None \<Rightarrow> (r, w, True)
      | Some (r', d, e) \<Rightarrow>
          (case (if d = [] then (w, 0, None) else pipe_write w d) of
             (w', n, Some we) \<Rightarrow> (r', w', False)
           | (w', n, None) \<Rightarrow> (r', w', e = None)))"

definition relay_down :: "relay \<Rightarrow> relay" where
  "relay_down s =
     (if \<not> rl_down s then s
      else case copy_piece (rl_tun_in s) (rl_resp s) of
        (r, w, alive) \<Rightarrow>
          s\<lparr>rl_tun_in := r, rl_resp := w, rl_down := alive,
            rl_done := (if alive then rl_done s else Suc (rl_done s))\<rparr>)"

definition relay_up :: "relay \<Rightarrow> relay" where
  "relay_up s =
     (if \<not> rl_up s then s
      else case copy_piece (rl_body s) (rl_tun_out s) of
        (r, w, alive) \<Rightarrow>
          s\<lparr>rl_body := r, rl_tun_out := w, rl_up := alive,
            rl_done := (if alive then rl_done s else Suc (rl_done s))\<rparr>)"

text \<open>
  \<^verbatim>\<open><-done\<close> and the deferred \<^verbatim>\<open>tunnel.Close\<close>: a closed read end fails at once, a closed write
  end takes nothing more.
\<close>

definition relay_return :: "relay \<Rightarrow> relay" where
  "relay_return s =
     (if rl_returned s \<or> rl_done s = 0 then s
      else s\<lparr>rl_done := rl_done s - 1, rl_returned := True,
             rl_tun_in := \<lparr>in_chunks = [], in_end = ClosedPipe\<rparr>,
             rl_tun_out := pipe_close (rl_tun_out s)\<rparr>)"

text \<open>The steps; either peer may also go away, after which writes to it fail.\<close>

datatype relay_event = Copy_down | Copy_up | Return | Client_gone | Mux_gone

fun relay_step :: "relay_event \<Rightarrow> relay \<Rightarrow> relay" where
  "relay_step Copy_down s = relay_down s"
| "relay_step Copy_up s = relay_up s"
| "relay_step Return s = relay_return s"
| "relay_step Client_gone s = s\<lparr>rl_resp := pipe_close (rl_resp s)\<rparr>"
| "relay_step Mux_gone s = s\<lparr>rl_tun_out := pipe_close (rl_tun_out s)\<rparr>"

fun relay_run :: "relay_event list \<Rightarrow> relay \<Rightarrow> relay" where
  "relay_run [] s = s"
| "relay_run (ev # evs) s = relay_run evs (relay_step ev s)"

section \<open>The client's side\<close>

record h2_client_config =
  hc_server_url :: string
  hc_host :: string
  hc_user_agent :: string

definition user_agent :: "h2_client_config \<Rightarrow> string" where
  "user_agent c =
     (if hc_user_agent c \<noteq> '''' then hc_user_agent c
      else ''Mozilla/5.0 (Windows NT 10.0; Win64; x64) AppleWebKit/537.36 (KHTML, like Gecko) Chrome/133.0.0.0 Safari/537.36'')"

definition server_url :: "string \<Rightarrow> h2_client_config \<Rightarrow> string" where
  "server_url tunnel_path c =
     (if hc_server_url c \<noteq> '''' then hc_server_url c
      else ''https://'' @ hc_host c @ tunnel_path)"

record http_request =
  rq_method :: string
  rq_url :: string
  rq_headers :: "(string \<times> string) list"
  rq_body :: pipe_out

definition browser_headers :: "h2_client_config \<Rightarrow> (string \<times> string) list" where
  "browser_headers c =
     [(''User-Agent'', user_agent c), (''Accept'', ''*/*''), (''Accept-Language'', ''en-US,en;q=0.9''),
      (''Accept-Encoding'', ''gzip, deflate, br, zstd''), (''Content-Type'', ''application/octet-stream''),
      (''Cache-Control'', ''no-cache''), (''Pragma'', ''no-cache''), (''Sec-Fetch-Dest'', ''empty''),
      (''Sec-Fetch-Mode'', ''cors''), (''Sec-Fetch-Site'', ''same-origin''),
      (''Sec-Ch-Ua'', [CHR 0x22] @ ''Not(A:Brand'' @ [CHR 0x22] @ '';v='' @ [CHR 0x22] @ ''99'' @ [CHR 0x22] @
         '', '' @ [CHR 0x22] @ ''Google Chrome'' @ [CHR 0x22] @ '';v='' @ [CHR 0x22] @ ''133'' @ [CHR 0x22] @
         '', '' @ [CHR 0x22] @ ''Chromium'' @ [CHR 0x22] @ '';v='' @ [CHR 0x22] @ ''133'' @ [CHR 0x22]),
      (''Sec-Ch-Ua-Mobile'', ''?0''),
      (''Sec-Ch-Ua-Platform'', [CHR 0x22] @ ''Windows'' @ [CHR 0x22]),
      (''Origin'', ''https://'' @ hc_host c), (''Referer'', ''https://'' @ hc_host c @ ''/'')]"

text \<open>
  The goroutine that writes the envelope of \<open>msg1\<close>; it ignores the errors of its writes and
  truncates the length to 16 bits.
\<close>

definition envelope_body :: "pipe_out \<Rightarrow> bytes \<Rightarrow> pipe_out" where
  "envelope_body pw msg1 =
     fst (pipe_write (fst (pipe_write pw (put_be16 (word_of_nat (length msg1))))) msg1)"

definition tunnel_request :: "string \<Rightarrow> h2_client_config \<Rightarrow> bytes \<Rightarrow> http_request" where
  "tunnel_request tunnel_path c msg1 =
     \<lparr>rq_method = tunnel_method, rq_url = server_url tunnel_path c, rq_headers = browser_headers c,
      rq_body = envelope_body \<lparr>out_chunks = [], out_closed = False\<rparr> msg1\<rparr>"

record 'r tunnel_conn =
  tc_body :: 'r
  tc_writer :: pipe_out

text \<open>
  \<open>build_err\<close> is the answer of \<^verbatim>\<open>http.NewRequestWithContext\<close>, \<open>exchange\<close> the HTTP client: the status and
  the body of the response, or its error. On every error the request body is closed.
\<close>

definition handshake ::
  "'r reader \<Rightarrow> go_error option \<Rightarrow> (http_request \<Rightarrow> go_error + nat \<times> 'r) \<Rightarrow> string \<Rightarrow>
   h2_client_config \<Rightarrow> bytes \<Rightarrow> (pipe_out \<times> (go_error + bytes \<times> 'r tunnel_conn)) option" where
  "handshake rd build_err exchange tunnel_path c msg1 =
     (let req = tunnel_request tunnel_path c msg1; pw = rq_body req
      in case build_err of
           Some e \<Rightarrow> Some (pipe_close pw, Inl (Wrapf ''camouflage: build request: %w'' e))
         | None \<Rightarrow>
             (case exchange req of
                Inl e \<Rightarrow> Some (pipe_close pw, Inl (Wrapf ''camouflage: tunnel request: %w'' e))
              | Inr (status, body) \<Rightarrow>
                  if status \<noteq> 200
                  then Some (pipe_close pw, Inl (Errorf ''camouflage: server returned %d'' [int status]))
                  else
                    (case read_length_prefixed rd body of
                       None \<Rightarrow> None
                     | Some (body', Inl e) \<Rightarrow>
                         Some (pipe_close pw, Inl (Wrapf ''camouflage: read msg2: %w'' e))
                     | Some (body', Inr msg2) \<Rightarrow>
                         Some (pw, Inr (msg2, \<lparr>tc_body = body', tc_writer = pw\<rparr>)))))"

definition tunnel_read :: "'r reader \<Rightarrow> 'r tunnel_conn reader" where
  "tunnel_read rd tc n =
     (case rd (tc_body tc) n of
        None \<Rightarrow> None
      | Some (b, d, e) \<Rightarrow> Some (tc\<lparr>tc_body := b\<rparr>, d, e))"

definition tunnel_write :: "'r tunnel_conn writer" where
  "tunnel_write tc p = (case pipe_write (tc_writer tc) p of (w, n, e) \<Rightarrow> (tc\<lparr>tc_writer := w\<rparr>, n, e))"

definition tunnel_close ::
  "('r \<Rightarrow> 'r \<times> go_error option) \<Rightarrow> 'r tunnel_conn \<Rightarrow> 'r tunnel_conn \<times> go_error option" where
  "tunnel_close cls tc =
     (case cls (tc_body tc) of
        (b, e) \<Rightarrow> (tc\<lparr>tc_writer := pipe_close (tc_writer tc), tc_body := b\<rparr>, e))"


text \<open>
  \<^verbatim>\<open>newH2Transport\<close>: an HTTP/2 transport whose TLS dialler ignores network, address and configuration
  and hands out the connection there already is. \<^verbatim>\<open>SimpleRequest\<close> sends one request over it; \<open>build\<close> is
  \<^verbatim>\<open>http.NewRequestWithContext\<close>, \<open>send\<close> the HTTP client over a transport. A nil body reader stands for an
  empty body.
\<close>

record 'c h2_transport =
  ht_allow_http :: bool
  ht_dial_tls :: "string \<Rightarrow> string \<Rightarrow> go_error + 'c"

definition new_h2_transport :: "'c \<Rightarrow> go_error + 'c h2_transport" where
  "new_h2_transport conn = Inr \<lparr>ht_allow_http = False, ht_dial_tls = (\<lambda>network addr. Inr conn)\<rparr>"

definition simple_request ::
  "(string \<Rightarrow> string \<Rightarrow> bytes option \<Rightarrow> go_error + 'q) \<Rightarrow> ('c h2_transport \<Rightarrow> 'q \<Rightarrow> go_error + 'p) \<Rightarrow>
   'c \<Rightarrow> string \<Rightarrow> string \<Rightarrow> bytes \<Rightarrow> go_error + 'p" where
  "simple_request build send conn method url body =
     (case new_h2_transport conn of
        Inl e \<Rightarrow> Inl e
      | Inr tr \<Rightarrow>
          (case build method url (if 0 < length body then Some body else None) of
             Inl e \<Rightarrow> Inl e
           | Inr req \<Rightarrow> send tr req))"

section \<open>The HTTP/2 server\<close>

text \<open>
  \<^verbatim>\<open>NewServer\<close> and the \<^verbatim>\<open>http.Server\<close> that serves: \<open>h2c\<close> is \<^verbatim>\<open>h2c.NewHandler\<close>, \<open>configure\<close> is
  \<^verbatim>\<open>http2.ConfigureServer\<close>, which changes the server it is given. \<open>hs_h2\<close> are a server's HTTP/2 settings,
  \<open>None\<close> the package's own.
\<close>

record h2_settings =
  h2_max_concurrent_streams :: nat
  h2_max_read_frame_size :: nat

record 'h http_server =
  hs_handler :: 'h
  hs_h2 :: "h2_settings option"

record 'h h2_server_config =
  hv_handler :: 'h
  hv_allow_h2c :: bool

definition camouflage_settings :: h2_settings where
  "camouflage_settings = \<lparr>h2_max_concurrent_streams = 128, h2_max_read_frame_size = 2 ^ 14\<rparr>"

text \<open>The result is the handler, and the server that was configured on the way, if any.\<close>

definition new_h2_server ::
  "('h \<Rightarrow> h2_settings \<Rightarrow> 'h) \<Rightarrow> (h2_settings \<Rightarrow> 'h http_server \<Rightarrow> 'h http_server) \<Rightarrow>
   'h h2_server_config \<Rightarrow> 'h \<times> 'h http_server option" where
  "new_h2_server h2c configure cfg =
     (if hv_allow_h2c cfg then (h2c (hv_handler cfg) camouflage_settings, None)
      else
        (hv_handler cfg,
         Some (configure camouflage_settings \<lparr>hs_handler = hv_handler cfg, hs_h2 = None\<rparr>)))"

definition camouflage_serve :: "('h http_server \<Rightarrow> 'l \<Rightarrow> go_error option) \<Rightarrow> 'l \<Rightarrow> 'h \<Rightarrow> go_error option" where
  "camouflage_serve serve ln handler = serve \<lparr>hs_handler = handler, hs_h2 = None\<rparr> ln"

text \<open>The server \<^verbatim>\<open>main\<close> of \<^verbatim>\<open>cmd/ghost-server\<close> serves with.\<close>

definition main_http_server ::
  "('h \<Rightarrow> h2_settings \<Rightarrow> 'h) \<Rightarrow> (h2_settings \<Rightarrow> 'h http_server \<Rightarrow> 'h http_server) \<Rightarrow> 'h \<Rightarrow> 'h http_server" where
  "main_http_server h2c configure router =
     \<lparr>hs_handler = fst (new_h2_server h2c configure \<lparr>hv_handler = router, hv_allow_h2c = False\<rparr>),
      hs_h2 = None\<rparr>"

text \<open>
  Whatever configuring does, the settings end on a server that is thrown away: the one that serves has
  the plain router and no settings.
\<close>

lemma settings_never_served:
  "main_http_server h2c configure router = \<lparr>hs_handler = router, hs_h2 = None\<rparr>"
  "snd (new_h2_server h2c (\<lambda>h2 s. s\<lparr>hs_h2 := Some h2\<rparr>) \<lparr>hv_handler = router, hv_allow_h2c = False\<rparr>) =
     Some \<lparr>hs_handler = router, hs_h2 = Some camouflage_settings\<rparr>"
  by (simp_all add: main_http_server_def new_h2_server_def)

section \<open>The relay forwards in order and closes the tunnel\<close>

text \<open>One direction, from what it started with: \<open>whole\<close> is all that the source holds.\<close>

definition relayed :: "bytes \<Rightarrow> bool \<Rightarrow> pipe_in \<Rightarrow> pipe_out \<Rightarrow> bool" where
  "relayed whole running r w \<longleftrightarrow>
     prefix (pipe_sent w) whole \<and> (running \<longrightarrow> pipe_sent w @ pipe_pending r = whole)"

definition relay_inv :: "relay \<Rightarrow> relay \<Rightarrow> bool" where
  "relay_inv s0 s \<longleftrightarrow>
     relayed (pipe_sent (rl_resp s0) @ pipe_pending (rl_tun_in s0)) (rl_down s \<and> \<not> rl_returned s)
       (rl_tun_in s) (rl_resp s) \<and>
     relayed (pipe_sent (rl_tun_out s0) @ pipe_pending (rl_body s0)) (rl_up s)
       (rl_body s) (rl_tun_out s) \<and>
     (\<not> rl_returned s \<and> \<not> rl_down s \<and> \<not> out_closed (rl_resp s) \<longrightarrow>
        pipe_sent (rl_resp s) = pipe_sent (rl_resp s0) @ pipe_pending (rl_tun_in s0)) \<and>
     (\<not> rl_up s \<and> \<not> out_closed (rl_tun_out s) \<longrightarrow>
        pipe_sent (rl_tun_out s) = pipe_sent (rl_tun_out s0) @ pipe_pending (rl_body s0)) \<and>
     rl_done s + of_bool (rl_returned s) + of_bool (rl_down s) + of_bool (rl_up s) = 2 \<and>
     (rl_returned s \<longrightarrow>
        rl_tun_in s = \<lparr>in_chunks = [], in_end = ClosedPipe\<rparr> \<and> out_closed (rl_tun_out s))"

lemma copy_piece_relayed:
  assumes "copy_piece r w = (r', w', alive)" and "pipe_sent w @ pipe_pending r = whole"
  shows "relayed whole alive r' w' \<and> out_closed w' = out_closed w \<and>
    (\<not> alive \<and> \<not> out_closed w' \<longrightarrow> pipe_sent w' = whole)"
proof (cases "pipe_read r copy_buffer")
  case None
  then show ?thesis using assms by (auto simp: copy_piece_def relayed_def)
next
  case (Some a)
  then obtain r1 d e where rd: "pipe_read r copy_buffer = Some (r1, d, e)" by (cases a) auto
  have "pipe_pending r = d @ pipe_pending r1 \<and> (e \<noteq> None \<longrightarrow> pipe_pending r1 = [])"
  proof (cases e)
    case None
    with pipe.read_ok [of copy_buffer r r1 d] rd show ?thesis by (simp add: copy_buffer_def)
  next
    case (Some er)
    with pipe.read_err [of copy_buffer r r1 d er] rd show ?thesis
      by (auto simp: copy_buffer_def pipe_read_def pipe_pending_def split: list.splits if_splits)
  qed
  with rd assms show ?thesis
    by (cases e)
      (auto simp: copy_piece_def relayed_def pipe_write_def pipe_sent_def split: if_splits)
qed

lemma pipe_close_simps [simp]: "out_closed (pipe_close w)" "pipe_sent (pipe_close w) = pipe_sent w"
  by (simp_all add: pipe_close_def pipe_sent_def)

lemma relayed_close [simp]: "relayed t b r (pipe_close w) = relayed t b r w"
  by (simp add: relayed_def)

lemma relayed_stop: "relayed t b r w \<Longrightarrow> relayed t False r' w"
  by (simp add: relayed_def)

lemma copy_piece_closed:
  "copy_piece \<lparr>in_chunks = [], in_end = e\<rparr> w = (\<lparr>in_chunks = [], in_end = e\<rparr>, w, False)"
  by (simp add: copy_piece_def pipe_read_def)

lemma relay_inv_down:
  assumes "relay_inv s0 s"
  shows "relay_inv s0 (relay_down s)"
proof (cases "rl_down s \<and> \<not> rl_returned s")
  case True
  obtain r w alive where cp: "copy_piece (rl_tun_in s) (rl_resp s) = (r, w, alive)"
    by (metis prod_cases3)
  from True assms copy_piece_relayed [OF cp refl] have
    "relayed (pipe_sent (rl_resp s0) @ pipe_pending (rl_tun_in s0)) alive r w"
    "\<not> alive \<and> \<not> out_closed w \<longrightarrow>
      pipe_sent w = pipe_sent (rl_resp s0) @ pipe_pending (rl_tun_in s0)"
    by (simp_all add: relay_inv_def relayed_def)
  with assms True cp show ?thesis by (auto simp: relay_inv_def relay_down_def)
next
  case False
  then consider "\<not> rl_down s" | "rl_down s" "rl_returned s" by blast
  then show ?thesis
  proof cases
    case 2
    with assms show ?thesis by (auto simp: relay_inv_def relay_down_def copy_piece_closed)
  qed (use assms in \<open>simp add: relay_down_def\<close>)
qed

lemma relay_inv_up:
  assumes "relay_inv s0 s"
  shows "relay_inv s0 (relay_up s)"
proof (cases "rl_up s")
  case True
  obtain r w alive where cp: "copy_piece (rl_body s) (rl_tun_out s) = (r, w, alive)"
    by (metis prod_cases3)
  from True assms copy_piece_relayed [OF cp refl] have
    "relayed (pipe_sent (rl_tun_out s0) @ pipe_pending (rl_body s0)) alive r w"
    "out_closed w = out_closed (rl_tun_out s)"
    "\<not> alive \<and> \<not> out_closed w \<longrightarrow>
      pipe_sent w = pipe_sent (rl_tun_out s0) @ pipe_pending (rl_body s0)"
    by (simp_all add: relay_inv_def relayed_def)
  with assms True cp show ?thesis by (auto simp: relay_inv_def relay_up_def)
qed (use assms in \<open>simp add: relay_up_def\<close>)

lemma relay_inv_return:
  assumes "relay_inv s0 s"
  shows "relay_inv s0 (relay_return s)"
proof (cases "rl_returned s \<or> rl_done s = 0")
  case True
  with assms show ?thesis by (simp add: relay_return_def)
next
  case False
  with assms show ?thesis
    by (auto simp: relay_inv_def relay_return_def relayed_def)
qed

lemma relay_inv_gone:
  "relay_inv s0 s \<Longrightarrow> relay_inv s0 (s\<lparr>rl_resp := pipe_close (rl_resp s)\<rparr>)"
  "relay_inv s0 s \<Longrightarrow> relay_inv s0 (s\<lparr>rl_tun_out := pipe_close (rl_tun_out s)\<rparr>)"
  by (simp_all add: relay_inv_def)

lemma relay_inv_step: "relay_inv s0 s \<Longrightarrow> relay_inv s0 (relay_step ev s)"
  by (cases ev) (simp_all add: relay_inv_down relay_inv_up relay_inv_return relay_inv_gone)

lemma relay_inv_run: "relay_inv s0 s \<Longrightarrow> relay_inv s0 (relay_run evs s)"
  by (induction evs arbitrary: s) (simp_all add: relay_inv_step del: relay_step.simps)

lemma relay_inv_start: "relay_inv (relay_start b w ti to) (relay_start b w ti to)"
  by (simp add: relay_inv_def relay_start_def relayed_def)


text \<open>
  C17: the relay. Whatever the order of the two copy loops, the end of either peer and the return:
  what the client receives is a prefix of what the tunnel holds for it, and the tunnel receives a
  prefix of the request body, no byte lost in the middle, doubled or reordered; a loop that
  stopped while its sink was open has forwarded everything; the channel \<^verbatim>\<open>done\<close> never holds more
  than two tokens, so no goroutine blocks on it; and once \<^verbatim>\<open>bridge\<close> has returned the tunnel is closed
  and the loop that reads from it stops at its next step.
\<close>

theorem relay_is_ordered_and_closes:
  assumes "s = relay_run evs (relay_start body resp tun_in tun_out)"
  shows "prefix (pipe_sent (rl_resp s)) (pipe_sent resp @ pipe_pending tun_in) \<and>
    prefix (pipe_sent (rl_tun_out s)) (pipe_sent tun_out @ pipe_pending body) \<and>
    (\<not> rl_up s \<and> \<not> out_closed (rl_tun_out s) \<longrightarrow>
       pipe_sent (rl_tun_out s) = pipe_sent tun_out @ pipe_pending body) \<and>
    (\<not> rl_down s \<and> \<not> out_closed (rl_resp s) \<and> \<not> rl_returned s \<longrightarrow>
       pipe_sent (rl_resp s) = pipe_sent resp @ pipe_pending tun_in) \<and>
    rl_done s \<le> 2 \<and>
    (rl_returned s \<longrightarrow>
       out_closed (rl_tun_out s) \<and> \<not> (rl_down s \<and> rl_up s) \<and> \<not> rl_down (relay_down s))"
proof -
  have inv: "relay_inv (relay_start body resp tun_in tun_out) s"
    using relay_inv_run [OF relay_inv_start] assms by simp
  then have "\<not> rl_down (relay_down s)" if "rl_returned s"
    using that by (auto simp: relay_inv_def relay_down_def copy_piece_closed)
  with inv show ?thesis by (auto simp: relay_inv_def relayed_def relay_start_def)
qed

lemma relay_is_ordered_and_closes_witness:
  "let s = relay_run [Copy_down, Copy_up, Copy_up, Return]
      (relay_start \<lparr>in_chunks = [[1, 2]], in_end = EOF\<rparr> \<lparr>out_chunks = [], out_closed = False\<rparr>
         \<lparr>in_chunks = [[7], [8]], in_end = EOF\<rparr> \<lparr>out_chunks = [], out_closed = False\<rparr>)
   in prefix (pipe_sent (rl_resp s)) [7, 8] \<and> \<not> rl_down (relay_down s)"
proof -
  let ?s = "relay_run [Copy_down, Copy_up, Copy_up, Return]
      (relay_start \<lparr>in_chunks = [[1, 2]], in_end = EOF\<rparr> \<lparr>out_chunks = [], out_closed = False\<rparr>
         \<lparr>in_chunks = [[7], [8]], in_end = EOF\<rparr> \<lparr>out_chunks = [], out_closed = False\<rparr>)"
  have "rl_returned ?s"
    by (simp add: relay_start_def relay_down_def relay_up_def relay_return_def copy_piece_def
        pipe_read_def pipe_write_def copy_buffer_def)
  with relay_is_ordered_and_closes [OF refl, of "[Copy_down, Copy_up, Copy_up, Return]"
      "\<lparr>in_chunks = [[1, 2]], in_end = EOF\<rparr>" "\<lparr>out_chunks = [], out_closed = False\<rparr>"
      "\<lparr>in_chunks = [[7], [8]], in_end = EOF\<rparr>" "\<lparr>out_chunks = [], out_closed = False\<rparr>"]
  show ?thesis unfolding Let_def by (simp add: pipe_sent_def pipe_pending_def)
qed


section \<open>The exchange as a whole\<close>

lemma envelope_body_sent:
  "pipe_sent (rq_body (tunnel_request path c msg1)) = put_be16 (word_of_nat (length msg1)) @ msg1"
  by (simp add: tunnel_request_def envelope_body_def pipe_write_def pipe_sent_def)

lemma envelope_of_request:
  assumes "msg1 \<noteq> []" and "length msg1 \<le> 4096"
  shows "envelope (pipe_sent (rq_body (tunnel_request path c msg1)) @ later) = Some (msg1, later)"
proof -
  have "unat (word_of_nat (length msg1) :: 16 word) = length msg1" using assms(2) by simp
  with assms show ?thesis by (simp add: envelope_body_sent envelope_def max_handshake_buffer_def Let_def)
qed

lemma answer_tunnel_pipe:
  assumes "length msg2 \<le> 65535"
  shows "answer_tunnel pipe_write \<lparr>out_chunks = [], out_closed = False\<rparr> msg2 (Some t) =
    (\<lparr>rs_status = 200, rs_content_type = ''application/octet-stream'',
      rs_body = \<lparr>out_chunks = [put_be16 (word_of_nat (length msg2)), msg2], out_closed = False\<rparr>\<rparr>,
     Relay_to t)"
  using assms by (simp add: answer_tunnel_def write_length_prefixed_def pipe_write_def)

text \<open>The server's half: it accepts the request of a client it authenticates, and puts its session in the table.\<close>

lemma server_accepts:
  fixes body :: pipe_in
  assumes resp: "new_responder new_hs kp = Inr hs" "responder_read rd hs msg1 = (hs1, Inr p)"
      "responder_write wr hs1 [] = (hs2, Inr (msg2, server))"
    and allowed: "sv_allowed sv = [] \<or> encode_key (peer_static hs1) \<in> set (sv_allowed sv)"
    and msg1: "msg1 \<noteq> []" "length msg1 \<le> 4096"
    and body: "pipe_pending body = pipe_sent (rq_body (tunnel_request path c msg1)) @ later"
  shows "(\<exists>b. serve_http path (\<lambda>m. snd (on_auth new_hs rd wr peer_static kp m sv)) pipe_read
        (rq_method (tunnel_request path c msg1)) path body =
          Some (Tunnel msg2 (Some (length (sv_sessions sv))) b) \<and> pipe_pending b = later \<and> in_end b = in_end body) \<and>
    ss_keys (sv_sessions (fst (on_auth new_hs rd wr peer_static kp msg1 sv)) ! length (sv_sessions sv)) = server"
proof -
  have auth: "authenticate new_hs rd wr peer_static kp (sv_allowed sv) msg1 =
      Inr (encode_key (peer_static hs1), msg2, server)"
    using resp allowed by (auto simp: authenticate_def Let_def)
  have accepted: "accepted_handshake (\<lambda>m. snd (on_auth new_hs rd wr peer_static kp m sv))
      (pipe_pending body) = Some (msg2, Some (length (sv_sessions sv)), later)"
    using auth msg1 by (simp add: accepted_handshake_def body envelope_of_request on_auth_def)
  from pipe.tunnel_handler_spec [of "\<lambda>m. snd (on_auth new_hs rd wr peer_static kp m sv)" body]
  have "\<exists>b. serve_http path (\<lambda>m. snd (on_auth new_hs rd wr peer_static kp m sv)) pipe_read
      (rq_method (tunnel_request path c msg1)) path body =
        Some (Tunnel msg2 (Some (length (sv_sessions sv))) b) \<and> pipe_pending b = later \<and> in_end b = in_end body"
    unfolding accepted by (auto simp: serve_http_def to_tunnel_def tunnel_request_def)
  moreover have "ss_keys (sv_sessions (fst (on_auth new_hs rd wr peer_static kp msg1 sv)) !
      length (sv_sessions sv)) = server"
    using auth by (auto simp: on_auth_def install_session_def fresh_session_def Let_def nth_append
        split: option.splits)
  ultimately show ?thesis ..
qed

text \<open>
  C14: setting up a tunnel. The client's request for a handshake message, answered by the server's
  handler and authentication, ends with both sides in the tunnel: the server hands the client's
  later bytes to the relay of the session it just put in its table, the client's \<^verbatim>\<open>Handshake\<close> returns
  the reply the responder wrote with the response positioned on the tunnel data, and the session
  the client's initiator derives from that reply is paired with the server's in both directions.
  The transport may cut request and response bodies in any way.
\<close>

theorem tunnel_established:
  fixes body :: pipe_in and answer :: pipe_in
  assumes law: "handshake_law wr rd peers R" and peers: "peers i hs1"
    and resp: "new_responder new_hs kp = Inr hs" "responder_read rd hs msg1 = (hs1, Inr p)"
      "responder_write wr hs1 [] = (hs2, Inr (msg2, server))"
    and allowed: "sv_allowed sv = [] \<or> encode_key (peer_static hs1) \<in> set (sv_allowed sv)"
    and init: "initiator_read rd i msg2 = (i', Inr (q, client))"
    and lens: "msg1 \<noteq> []" "length msg1 \<le> 4096" "msg2 \<noteq> []" "length msg2 \<le> 65535"
    and body: "pipe_pending body = pipe_sent (rq_body (tunnel_request path c msg1)) @ later"
    and answer: "pipe_pending answer = pipe_sent (rs_body (fst (answer_tunnel pipe_write
      \<lparr>out_chunks = [], out_closed = False\<rparr> msg2 (Some (length (sv_sessions sv)))))) @ tunnel_data"
  shows "(\<exists>b. serve_http path (\<lambda>m. snd (on_auth new_hs rd wr peer_static kp m sv)) pipe_read
        (rq_method (tunnel_request path c msg1)) path body =
          Some (Tunnel msg2 (Some (length (sv_sessions sv))) b) \<and> pipe_pending b = later) \<and>
    (\<exists>pw tc. handshake pipe_read None (\<lambda>_. Inr (200, answer)) path c msg1 =
        Some (pw, Inr (msg2, tc)) \<and> pipe_pending (tc_body tc) = tunnel_data) \<and>
    ss_keys (sv_sessions (fst (on_auth new_hs rd wr peer_static kp msg1 sv)) !
        length (sv_sessions sv)) = server \<and>
      in_step R (Some client) (Some server) \<and> in_step R (Some server) (Some client)"
proof -
  have "pipe_pending answer = put_be16 (word_of_nat (length msg2)) @ msg2 @ tunnel_data"
    using answer lens by (simp add: answer_tunnel_pipe pipe_sent_def)
  from pipe.read_length_prefixed_message [OF this lens(3,4)]
  have read: "\<exists>pw tc. handshake pipe_read None (\<lambda>_. Inr (200, answer)) path c msg1 =
      Some (pw, Inr (msg2, tc)) \<and> pipe_pending (tc_body tc) = tunnel_data"
    by (auto simp: handshake_def Let_def)
  with server_accepts [where peer_static = peer_static, OF resp allowed lens(1,2) body] handshake_pairs [OF law peers resp(3) init]
  show ?thesis by blast
qed


lemma tunnel_established_witness:
  "\<exists>pw tc. handshake pipe_read None
      (\<lambda>_. Inr (200, \<lparr>in_chunks = [[0], [1, 7, 5], [6]], in_end = EOF\<rparr>)) ''/t''
      \<lparr>hc_server_url = '''', hc_host = ''h'', hc_user_agent = ''''\<rparr> [9] = Some (pw, Inr ([7], tc)) \<and>
    pipe_pending (tc_body tc) = [5, 6]"
proof -
  let ?kp = "\<lparr>dh_private = replicate 32 0, dh_public = replicate 32 0\<rparr>"
  let ?c = "\<lparr>hc_server_url = '''', hc_host = ''h'', hc_user_agent = ''''\<rparr>"
  let ?sv = "new_server [] :: nat server"
  let ?body = "\<lparr>in_chunks = [[0, 1], [9, 3]], in_end = EOF\<rparr>"
  let ?answer = "\<lparr>in_chunks = [[0], [1, 7, 5], [6]], in_end = EOF\<rparr>"
  have r: "new_responder (\<lambda>_. Inr ()) ?kp = Inr ()" "responder_read toy_read () [9] = ((), Inr [])"
    "responder_write toy_write () [] = ((), Inr ([7], new_session (Some 100) (Some 0)))"
    by (simp_all add: new_responder_def key_size_def responder_read_def responder_write_def
        toy_read_def toy_write_def)
  have i: "initiator_read toy_read () [7] = ((), Inr ([], new_session (Some 0) (Some 100)))"
    by (simp add: initiator_read_def toy_read_def)
  have allowed: "sv_allowed ?sv = [] \<or> encode_key ((\<lambda>_. []) ()) \<in> set (sv_allowed ?sv)"
    by (simp add: new_server_def)
  have body: "pipe_pending ?body = pipe_sent (rq_body (tunnel_request ''/t'' ?c [9])) @ [3]"
    by (simp add: envelope_body_sent pipe_pending_def put_be16_def)
  have answer: "pipe_pending ?answer = pipe_sent (rs_body (fst (answer_tunnel pipe_write
      \<lparr>out_chunks = [], out_closed = False\<rparr> [7] (Some (length (sv_sessions ?sv)))))) @ [5, 6]"
    by (simp add: answer_tunnel_pipe pipe_pending_def pipe_sent_def put_be16_def)
  show ?thesis
    using tunnel_established [where peer_static = "\<lambda>_. []", OF toy_handshake_law TrueI r allowed i
        _ _ _ _ body answer] by simp
qed

end
