(* ===== verification/Config.thy ===== *)
theory Config
  imports Prelude "HOL-Library.Signed_Division"
begin

text \<open>
  Configuration: \<^verbatim>\<open>internal/config/config.go\<close>, the mapping of NetworkManager's dictionaries to a
  client configuration in \<^verbatim>\<open>nm-plugin/config.go\<close>, and the rotation interval computed from it in
  \<^verbatim>\<open>cmd/ghost-client/main.go\<close>. Strings are lists of bytes seen as characters; the separators
  are ASCII, so splitting by rune and by byte agree. Reading a file and the YAML package are
  parameters.
\<close>

section \<open>Server and client configuration\<close>

record tun_config =
  tun_name :: string
  tun_address :: string
  tun_mtu :: int
  tun_dns :: "string list"

record server_config =
  sc_listen :: string
  sc_cert_file :: string
  sc_key_file :: string
  sc_private_key :: string
  sc_allowed_clients :: "string list"
  sc_fallback_target :: string
  sc_tunnel_path :: string
  sc_profile_path :: string
  sc_tun :: tun_config

record client_config =
  cf_server_addr :: string
  cf_sni :: string
  cf_front_host :: string
  cf_private_key :: string
  cf_server_public_key :: string
  cf_fingerprint :: string
  cf_user_agent :: string
  cf_tunnel_path :: string
  cf_profile_path :: string
  cf_conn_lifetime_sec :: int
  cf_tun :: tun_config

text \<open>The scan of the address from its last byte: \<open>i\<close> bytes are still to be looked at.\<close>

fun strip_port :: "string \<Rightarrow> nat \<Rightarrow> string" where
  "strip_port addr 0 = addr"
| "strip_port addr (Suc i) = (if addr ! i = CHR '':'' then take i addr else strip_port addr i)"

definition front_host_or_sni :: "client_config \<Rightarrow> string" where
  "front_host_or_sni c =
     (if cf_front_host c \<noteq> '''' then cf_front_host c
      else if cf_sni c \<noteq> '''' then cf_sni c
      else strip_port (cf_server_addr c) (length (cf_server_addr c)))"

definition conn_lifetime :: "client_config \<Rightarrow> int" where
  "conn_lifetime c =
     (if cf_conn_lifetime_sec c < 0 then 0
      else if cf_conn_lifetime_sec c = 0 then 90
      else cf_conn_lifetime_sec c)"

definition tun_defaults :: "tun_config \<Rightarrow> tun_config" where
  "tun_defaults t =
     (let t1 = (if tun_name t = '''' then t\<lparr>tun_name := ''ghost0''\<rparr> else t)
      in if tun_mtu t1 = 0 then t1\<lparr>tun_mtu := 1400\<rparr> else t1)"

definition server_validate :: "server_config \<Rightarrow> go_error option" where
  "server_validate c =
     (if sc_listen c = '''' then Some (Errorf ''config: server.listen is required'' [])
      else if sc_private_key c = '''' then Some (Errorf ''config: server.private_key is required'' [])
      else if sc_fallback_target c = ''''
      then Some (Errorf ''config: server.fallback_target is required'' [])
      else if tun_address (sc_tun c) = ''''
      then Some (Errorf ''config: server.tun.address is required'' [])
      else None)"

definition client_validate :: "client_config \<Rightarrow> go_error option" where
  "client_validate c =
     (if cf_server_addr c = '''' then Some (Errorf ''config: client.server_addr is required'' [])
      else if cf_private_key c = '''' then Some (Errorf ''config: client.private_key is required'' [])
      else if cf_server_public_key c = ''''
      then Some (Errorf ''config: client.server_public_key is required'' [])
      else if tun_address (cf_tun c) = ''''
      then Some (Errorf ''config: client.tun.address is required'' [])
      else None)"

definition load_server ::
  "(string \<Rightarrow> go_error + 'd) \<Rightarrow> ('d \<Rightarrow> go_error + server_config) \<Rightarrow> string \<Rightarrow>
   go_error + server_config" where
  "load_server read_file unmarshal path =
     (case read_file path of
        Inl e \<Rightarrow> Inl (Wrapf ''config: read %s: %w'' e)
      | Inr data \<Rightarrow>
          (case unmarshal data of
             Inl e \<Rightarrow> Inl (Wrapf ''config: parse %s: %w'' e)
           | Inr cfg \<Rightarrow>
               let cfg' = cfg\<lparr>sc_tun := tun_defaults (sc_tun cfg)\<rparr>
               in (case server_validate cfg' of Some e \<Rightarrow> Inl e | None \<Rightarrow> Inr cfg')))"

definition load_client ::
  "(string \<Rightarrow> go_error + 'd) \<Rightarrow> ('d \<Rightarrow> go_error + client_config) \<Rightarrow> string \<Rightarrow>
   go_error + client_config" where
  "load_client read_file unmarshal path =
     (case read_file path of
        Inl e \<Rightarrow> Inl (Wrapf ''config: read %s: %w'' e)
      | Inr data \<Rightarrow>
          (case unmarshal data of
             Inl e \<Rightarrow> Inl (Wrapf ''config: parse %s: %w'' e)
           | Inr cfg \<Rightarrow>
               let cfg' = cfg\<lparr>cf_tun := tun_defaults (cf_tun cfg)\<rparr>
               in (case client_validate cfg' of Some e \<Rightarrow> Inl e | None \<Rightarrow> Inr cfg')))"

section \<open>Rotation interval\<close>

text \<open>
  \<^verbatim>\<open>base*7/10 + Int63n(base*6/10)\<close> with \<^verbatim>\<open>base = lifetime * time.Second\<close>, all \<^verbatim>\<open>int64\<close>:
  multiplication wraps, division truncates, and \<^verbatim>\<open>Int63n\<close> panics (\<open>None\<close>) unless its
  argument is positive. \<open>rnd\<close> is the number drawn.
\<close>

definition wrap64 :: "int \<Rightarrow> int" where
  "wrap64 x = (x + 2 ^ 63) mod 2 ^ 64 - 2 ^ 63"

definition int63n :: "nat \<Rightarrow> int \<Rightarrow> int option" where
  "int63n rnd n = (if n \<le> 0 then None else Some (int rnd mod n))"

definition rotation_wait :: "client_config \<Rightarrow> nat \<Rightarrow> int option" where
  "rotation_wait c rnd =
     (let base = wrap64 (conn_lifetime c * 1000000000)
      in map_option (\<lambda>jitter. wrap64 (wrap64 (base * 7) sdiv 10 + jitter))
           (int63n rnd (wrap64 (base * 6) sdiv 10)))"

lemma wrap64_small: "- (2 ^ 63) \<le> x \<Longrightarrow> x < 2 ^ 63 \<Longrightarrow> wrap64 x = x"
  by (simp add: wrap64_def)

section \<open>NetworkManager dictionaries\<close>

definition is_blank :: "char \<Rightarrow> bool" where
  "is_blank ch \<longleftrightarrow> ch = CHR '' '' \<or> ch = CHR 0x09"

fun trim_left :: "string \<Rightarrow> string" where
  "trim_left [] = []"
| "trim_left (ch # s) = (if \<not> is_blank ch then ch # s else trim_left s)"

fun trim_right_from :: "string \<Rightarrow> nat \<Rightarrow> string" where
  "trim_right_from s 0 = []"
| "trim_right_from s (Suc i) = (if \<not> is_blank (s ! i) then take (Suc i) s else trim_right_from s i)"

definition trim_right :: "string \<Rightarrow> string" where
  "trim_right s = trim_right_from s (length s)"

definition trim_space :: "string \<Rightarrow> string" where
  "trim_space s = trim_left (trim_right s)"

text \<open>\<open>cur\<close> is \<^verbatim>\<open>s[start:i]\<close>, the part being scanned.\<close>

fun split_scan :: "char \<Rightarrow> string \<Rightarrow> string \<Rightarrow> string list" where
  "split_scan sep cur [] = [cur]"
| "split_scan sep cur (ch # s) =
     (if ch = sep then cur # split_scan sep [] s else split_scan sep (cur @ [ch]) s)"

definition split_on :: "string \<Rightarrow> char \<Rightarrow> string list" where
  "split_on s sep = split_scan sep [] s"

definition split_comma :: "string \<Rightarrow> string list" where
  "split_comma s = filter (\<lambda>t. t \<noteq> '''') (map trim_space (split_on s (CHR '','')))"

text \<open>\<^verbatim>\<open>strconv.Atoi\<close>: an optional sign, at least one decimal digit, a value that fits \<^verbatim>\<open>int64\<close>.\<close>

definition digit_val :: "char \<Rightarrow> int" where
  "digit_val ch = of_char ch - 48"

definition is_digit :: "char \<Rightarrow> bool" where
  "is_digit ch \<longleftrightarrow> 0 \<le> digit_val ch \<and> digit_val ch \<le> 9"

definition digits_val :: "string \<Rightarrow> int" where
  "digits_val s = fold (\<lambda>ch n. n * 10 + digit_val ch) s 0"

definition atoi :: "string \<Rightarrow> int option" where
  "atoi s =
     (let (neg, ds) =
        (case s of
           [] \<Rightarrow> (False, [])
         | ch # t \<Rightarrow>
             if ch = CHR ''-'' then (True, t) else if ch = CHR ''+'' then (False, t) else (False, s))
      in if ds = [] \<or> \<not> list_all is_digit ds then None
         else
           let n = (if neg then - digits_val ds else digits_val ds)
           in if - (2 ^ 63) \<le> n \<and> n < 2 ^ 63 then Some n else None)"

type_synonym dict = "string \<Rightarrow> string option"

text \<open>A missing key of a Go map of strings reads as the empty string.\<close>

definition dict_get :: "dict \<Rightarrow> string \<Rightarrow> string" where
  "dict_get d key = (case d key of None \<Rightarrow> '''' | Some v \<Rightarrow> v)"

definition build_client_config :: "dict \<Rightarrow> dict \<Rightarrow> go_error + client_config" where
  "build_client_config data secrets =
     (let get = dict_get data;
          fp = get ''fingerprint'';
          name = get ''tun-name'';
          private = dict_get secrets ''private-key''
      in if get ''server-addr'' = '''' then Inl (Errorf ''server-addr is required'' [])
         else if get ''server-public-key'' = '''' then Inl (Errorf ''server-public-key is required'' [])
         else if private = '''' then Inl (Errorf ''private-key secret is required'' [])
         else if get ''tun-addr'' = '''' then Inl (Errorf ''tun-addr is required'' [])
         else
           Inr \<lparr>cf_server_addr = get ''server-addr'', cf_sni = get ''sni'',
                cf_front_host = get ''front-host'', cf_private_key = private,
                cf_server_public_key = get ''server-public-key'',
                cf_fingerprint = (if fp = '''' then ''chrome'' else fp),
                cf_user_agent = get ''user-agent'', cf_tunnel_path = get ''tunnel-path'',
                cf_profile_path = get ''profile-path'',
                cf_conn_lifetime_sec =
                  (case atoi (get ''conn-lifetime-sec'') of None \<Rightarrow> 0 | Some n \<Rightarrow> n),
                cf_tun =
                  \<lparr>tun_name = (if name = '''' then ''ghost0'' else name),
                   tun_address = get ''tun-addr'',
                   tun_mtu = (case atoi (get ''tun-mtu'') of None \<Rightarrow> 1400 | Some n \<Rightarrow> n),
                   tun_dns = split_comma (get ''dns'')\<rparr>\<rparr>)"

lemma atoi_empty [simp]: "atoi [] = None"
  by (simp add: atoi_def)

lemma split_comma_empty [simp]: "split_comma [] = []"
  by (simp add: split_comma_def split_on_def trim_space_def trim_right_def)

section \<open>Lemmas on the string helpers\<close>

lemma strip_port_no_colon:
  "CHR '':'' \<notin> set (take i addr) \<Longrightarrow> i \<le> length addr \<Longrightarrow> strip_port addr i = addr"
  by (induction i) (auto simp: take_Suc_conv_app_nth)

lemma strip_port_skip:
  "CHR '':'' \<notin> set p \<Longrightarrow> k \<le> length p \<Longrightarrow>
   strip_port (h @ CHR '':'' # p) (Suc (length h + k)) = h"
proof (induction k)
  case (Suc k)
  have "(h @ CHR '':'' # p) ! Suc (length h + k) = p ! k" by (simp add: nth_append)
  moreover have "p ! k \<noteq> CHR '':''" using Suc.prems by (metis Suc_le_eq nth_mem)
  ultimately show ?case using Suc by simp
qed simp

lemma strip_port_host: "CHR '':'' \<notin> set p \<Longrightarrow> strip_port (h @ CHR '':'' # p) (length (h @ CHR '':'' # p)) = h"
  using strip_port_skip [of p "length p" h] by simp

lemma trim_left_app: "trim_left s = dropWhile is_blank s"
  by (induction s) simp_all

lemma trim_right_from_prefix: "\<exists>rest. take i s = trim_right_from s i @ rest \<and> list_all is_blank rest"
proof (induction i)
  case (Suc i)
  then obtain rest where r: "take i s = trim_right_from s i @ rest" "list_all is_blank rest" by blast
  show ?case
  proof (cases "i < length s \<and> is_blank (s ! i)")
    case True
    with r show ?thesis
      by (intro exI [of _ "rest @ [s ! i]"]) (simp add: take_Suc_conv_app_nth)
  next
    case False
    with r show ?thesis by (cases "is_blank (s ! i)") (auto simp: not_less)
  qed
qed simp

lemma trim_right_from_last:
  "i \<le> length s \<Longrightarrow> trim_right_from s i = [] \<or> \<not> is_blank (last (trim_right_from s i))"
  by (induction i) (auto simp: take_Suc_conv_app_nth)

lemma trim_right_clean:
  assumes "s = [] \<or> \<not> is_blank (last s)"
  shows "trim_right s = s"
proof (cases s rule: rev_cases)
  case (snoc t ch)
  with assms show ?thesis by (simp add: trim_right_def)
qed (simp add: trim_right_def)

definition clean :: "string \<Rightarrow> bool" where
  "clean s \<longleftrightarrow> s \<noteq> [] \<and> \<not> is_blank (hd s) \<and> \<not> is_blank (last s)"

lemma trim_clean: "clean s \<Longrightarrow> trim_space s = s"
  by (cases s) (auto simp: clean_def trim_space_def trim_right_clean)

lemma last_dropWhile: "dropWhile P xs \<noteq> [] \<Longrightarrow> last (dropWhile P xs) = last xs"
  by (induction xs) (auto split: if_splits)

lemma trim_space_result: "trim_space s = [] \<or> clean (trim_space s)"
proof (cases "trim_left (trim_right s) = []")
  case False
  let ?t = "trim_right s"
  have t: "?t = [] \<or> \<not> is_blank (last ?t)"
    using trim_right_from_last [of "length s" s] by (simp add: trim_right_def)
  have "?t \<noteq> []" using False by auto
  moreover have "last (dropWhile is_blank ?t) = last ?t"
    using False by (simp add: trim_left_app last_dropWhile)
  ultimately show ?thesis
    using t False hd_dropWhile [of is_blank ?t] by (simp add: clean_def trim_space_def trim_left_app)
qed (simp add: trim_space_def)

lemma set_trim_space: "set (trim_space s) \<subseteq> set s"
proof -
  obtain rest where "s = trim_right s @ rest"
    using trim_right_from_prefix [of "length s" s] by (auto simp: trim_right_def)
  then have "set (trim_right s) \<subseteq> set s" by (metis Un_upper1 set_append)
  then show ?thesis
    using set_dropWhileD [of _ is_blank "trim_right s"] by (auto simp: trim_space_def trim_left_app)
qed

lemma split_scan_parts:
  "sep \<notin> set cur \<Longrightarrow> part \<in> set (split_scan sep cur s) \<Longrightarrow> sep \<notin> set part"
  by (induction sep cur s rule: split_scan.induct) (auto split: if_splits)

lemma split_scan_nonempty: "split_scan sep cur s \<noteq> []"
  by (induction sep cur s rule: split_scan.induct) auto

fun join_with :: "char \<Rightarrow> string list \<Rightarrow> string" where
  "join_with sep [] = []"
| "join_with sep [p] = p"
| "join_with sep (p # ps) = p @ sep # join_with sep ps"

lemma join_split_scan: "join_with sep (split_scan sep cur s) = cur @ s"
proof (induction sep cur s rule: split_scan.induct)
  case (2 sep cur ch s)
  then show ?case
    by (cases "split_scan sep [] s") (auto simp: split_scan_nonempty)
qed simp

lemma split_scan_part:
  "sep \<notin> set p \<Longrightarrow> split_scan sep cur (p @ sep # s) = (cur @ p) # split_scan sep [] s"
  by (induction p arbitrary: cur) auto

lemma split_scan_last: "sep \<notin> set p \<Longrightarrow> split_scan sep cur p = [cur @ p]"
  by (induction p arbitrary: cur) auto

lemma split_join:
  "ps \<noteq> [] \<Longrightarrow> \<forall>p \<in> set ps. sep \<notin> set p \<Longrightarrow> split_on (join_with sep ps) sep = ps"
proof (induction sep ps rule: join_with.induct)
  case (2 sep p)
  then show ?case by (simp add: split_on_def split_scan_last)
next
  case (3 sep p q ps)
  then show ?case by (simp add: split_on_def split_scan_part)
qed simp

section \<open>Properties\<close>

text \<open>
  what the NetworkManager plugin writes, the client accepts. \<^verbatim>\<open>buildClientConfig\<close> succeeds
  exactly when the four required keys are there; and then, when the YAML package gives back what
  it was given, \<^verbatim>\<open>LoadClient\<close> on the file the plugin wrote returns that configuration, an MTU of zero
  replaced by 1400, and never an error.
\<close>

theorem plugin_config_loads:
  assumes yaml: "\<And>c. unmarshal (marshal c) = Inr c"
  shows "case build_client_config data secrets of
      Inl e \<Rightarrow> dict_get data ''server-addr'' = '''' \<or> dict_get data ''server-public-key'' = '''' \<or>
        dict_get secrets ''private-key'' = '''' \<or> dict_get data ''tun-addr'' = ''''
    | Inr cfg \<Rightarrow>
        dict_get data ''server-addr'' \<noteq> '''' \<and> dict_get data ''server-public-key'' \<noteq> '''' \<and>
        dict_get secrets ''private-key'' \<noteq> '''' \<and> dict_get data ''tun-addr'' \<noteq> '''' \<and>
        load_client (\<lambda>_. Inr (marshal cfg)) unmarshal path =
          Inr (cfg\<lparr>cf_tun := (cf_tun cfg)\<lparr>tun_mtu :=
            (if tun_mtu (cf_tun cfg) = 0 then 1400 else tun_mtu (cf_tun cfg))\<rparr>\<rparr>)"
  by (simp add: build_client_config_def load_client_def client_validate_def tun_defaults_def yaml
      Let_def)

lemma plugin_config_loads_witness:
  "\<exists>cfg. build_client_config [''server-addr'' \<mapsto> ''h:443'', ''server-public-key'' \<mapsto> ''K'',
        ''tun-addr'' \<mapsto> ''10.7.0.2/24'', ''tun-mtu'' \<mapsto> ''0'', ''dns'' \<mapsto> ''1.1.1.1, 8.8.8.8'']
      [''private-key'' \<mapsto> ''P''] = Inr cfg \<and>
    tun_dns (cf_tun cfg) = [''1.1.1.1'', ''8.8.8.8''] \<and>
    load_client (\<lambda>_. Inr cfg) Inr ''/tmp/x'' = Inr (cfg\<lparr>cf_tun := (cf_tun cfg)\<lparr>tun_mtu := 1400\<rparr>\<rparr>)"
proof -
  let ?d = "[''server-addr'' \<mapsto> ''h:443'', ''server-public-key'' \<mapsto> ''K'',
        ''tun-addr'' \<mapsto> ''10.7.0.2/24'', ''tun-mtu'' \<mapsto> ''0'', ''dns'' \<mapsto> ''1.1.1.1, 8.8.8.8'']"
  have dns: "split_comma ''1.1.1.1, 8.8.8.8'' = [''1.1.1.1'', ''8.8.8.8'']" by code_simp
  have mtu: "atoi ''0'' = Some 0" by code_simp
  from plugin_config_loads [of Inr id ?d "[''private-key'' \<mapsto> ''P'']" "''/tmp/x''"] dns mtu
  show ?thesis
    by (auto simp: build_client_config_def dict_get_def Let_def split: sum.splits if_splits)
qed

text \<open>
  a loaded client configuration is usable: whatever the file held, after \<^verbatim>\<open>LoadClient\<close> the
  server address, both keys and the tunnel address are present, the device has a name and an MTU,
  and the rest of the file is untouched.
\<close>

theorem loaded_config_complete:
  assumes "load_client read_file unmarshal path = Inr c"
  shows "cf_server_addr c \<noteq> '''' \<and> cf_private_key c \<noteq> '''' \<and> cf_server_public_key c \<noteq> '''' \<and>
    tun_address (cf_tun c) \<noteq> '''' \<and> tun_name (cf_tun c) \<noteq> '''' \<and> tun_mtu (cf_tun c) \<noteq> 0 \<and>
    (\<exists>data c0. read_file path = Inr data \<and> unmarshal data = Inr c0 \<and>
      c = c0\<lparr>cf_tun := cf_tun c\<rparr> \<and> tun_address (cf_tun c) = tun_address (cf_tun c0) \<and>
      tun_dns (cf_tun c) = tun_dns (cf_tun c0))"
  using assms
  by (auto simp: load_client_def client_validate_def tun_defaults_def Let_def
      split: sum.splits option.splits if_splits)

lemma loaded_config_complete_witness:
  "tun_mtu (tun_defaults \<lparr>tun_name = '''', tun_address = ''10.7.0.2/24'', tun_mtu = 0, tun_dns = []\<rparr>) \<noteq> 0"
proof -
  let ?t = "\<lparr>tun_name = '''', tun_address = ''10.7.0.2/24'', tun_mtu = 0, tun_dns = []\<rparr>"
  let ?c = "\<lparr>cf_server_addr = ''h'', cf_sni = '''', cf_front_host = '''', cf_private_key = ''P'',
    cf_server_public_key = ''K'', cf_fingerprint = '''', cf_user_agent = '''', cf_tunnel_path = '''',
    cf_profile_path = '''', cf_conn_lifetime_sec = 0, cf_tun = ?t\<rparr>"
  have "load_client (\<lambda>_. Inr ?c) Inr '''' = Inr (?c\<lparr>cf_tun := tun_defaults ?t\<rparr>)"
    by (simp add: load_client_def client_validate_def tun_defaults_def)
  from loaded_config_complete [OF this] show ?thesis by simp
qed

text \<open>
  the splitter of the DNS list. The parts put back together with the separator are the
  string, no part contains the separator, every entry kept is non-empty and trimmed; and a list
  of trimmed entries without commas, joined by commas, comes back as it was.
\<close>

theorem split_comma_correct:
  assumes "\<forall>p \<in> set ps. clean p \<and> CHR '','' \<notin> set p" and "ps \<noteq> []"
  shows "split_comma (join_with (CHR '','') ps) = ps \<and>
    join_with sep (split_on s sep) = s \<and> (\<forall>p \<in> set (split_on s sep). sep \<notin> set p) \<and>
    (\<forall>p \<in> set (split_comma s). clean p \<and> CHR '','' \<notin> set p)"
proof -
  have "map trim_space ps = ps" using assms(1) trim_clean by (auto intro: map_idI)
  moreover have "filter (\<lambda>t. t \<noteq> []) ps = ps" using assms(1) by (auto simp: clean_def)
  moreover have "split_on (join_with (CHR '','') ps) (CHR '','') = ps"
    using split_join [OF assms(2)] assms(1) by blast
  moreover have "clean p \<and> CHR '','' \<notin> set p" if "p \<in> set (split_comma s)" for p
  proof -
    from that obtain q where q: "q \<in> set (split_on s (CHR '',''))" "p = trim_space q" "p \<noteq> []"
      by (auto simp: split_comma_def)
    with split_scan_parts [of "CHR '',''" "[]" q s] trim_space_result [of q] set_trim_space [of q]
    show ?thesis by (auto simp: split_on_def)
  qed
  ultimately show ?thesis
    using split_scan_parts [of sep "[]" _ s]
    by (simp add: split_comma_def split_on_def join_split_scan)
qed

lemma split_comma_correct_witness:
  "split_comma ''1.1.1.1,8.8.8.8'' = [''1.1.1.1'', ''8.8.8.8'']"
  using split_comma_correct [of "[''1.1.1.1'', ''8.8.8.8'']"]
  by (simp add: clean_def is_blank_def)

text \<open>
  the rotation interval. For a lifetime between one second and 10^9 seconds the wait before
  the next rotation is computed without overflow or panic and lies between 70% and 130% of the
  lifetime, whatever number is drawn.
\<close>

theorem rotation_wait_range:
  assumes "1 \<le> conn_lifetime c" and "conn_lifetime c \<le> 10 ^ 9"
  shows "\<exists>wait. rotation_wait c rnd = Some wait \<and>
    700000000 * conn_lifetime c \<le> wait \<and> wait < 1300000000 * conn_lifetime c"
proof -
  define L where "L = conn_lifetime c"
  have L: "1 \<le> L" "L \<le> 1000000000" using assms by (simp_all add: L_def)
  have two63: "(2 :: int) ^ 63 = 9223372036854775808" by simp
  have w: "wrap64 (L * 1000000000) = L * 1000000000"
    "wrap64 (L * 1000000000 * 7) = L * 7000000000" "wrap64 (L * 1000000000 * 6) = L * 6000000000"
    using L by (simp_all add: wrap64_small)
  have d: "(L * 7000000000) sdiv 10 = L * 700000000" "(L * 6000000000) sdiv 10 = L * 600000000"
    using L by (simp_all add: signed_divide_int_def sgn_if)
  have j: "0 \<le> int rnd mod (L * 600000000)" "int rnd mod (L * 600000000) < L * 600000000"
    using L by (simp_all add: pos_mod_bound)
  then have "wrap64 (L * 700000000 + int rnd mod (L * 600000000)) =
      L * 700000000 + int rnd mod (L * 600000000)"
    using L two63 by (intro wrap64_small) linarith+
  with w d L have "rotation_wait c rnd = Some (L * 700000000 + int rnd mod (L * 600000000))"
    by (simp add: rotation_wait_def int63n_def flip: L_def)
  moreover have "700000000 * L \<le> L * 700000000 + int rnd mod (L * 600000000)"
    and "L * 700000000 + int rnd mod (L * 600000000) < 1300000000 * L"
    using j by linarith+
  ultimately show ?thesis unfolding L_def by blast
qed

lemma rotation_wait_range_witness:
  "\<exists>wait. rotation_wait \<lparr>cf_server_addr = [], cf_sni = [], cf_front_host = [], cf_private_key = [],
      cf_server_public_key = [], cf_fingerprint = [], cf_user_agent = [], cf_tunnel_path = [],
      cf_profile_path = [], cf_conn_lifetime_sec = 0,
      cf_tun = \<lparr>tun_name = [], tun_address = [], tun_mtu = 0, tun_dns = []\<rparr>\<rparr> 12345 = Some wait \<and>
    63000000000 \<le> wait \<and> wait < 117000000000"
  using rotation_wait_range [of "\<lparr>cf_server_addr = [], cf_sni = [], cf_front_host = [],
      cf_private_key = [], cf_server_public_key = [], cf_fingerprint = [], cf_user_agent = [],
      cf_tunnel_path = [], cf_profile_path = [], cf_conn_lifetime_sec = 0,
      cf_tun = \<lparr>tun_name = [], tun_address = [], tun_mtu = 0, tun_dns = []\<rparr>\<rparr>" 12345]
  by (simp add: conn_lifetime_def)

section \<open>What the configuration gets wrong\<close>

text \<open>The comment says that 0 disables rotation; 0 means 90 seconds, and a negative value disables it.\<close>

lemma zero_lifetime_rotates:
  "cf_conn_lifetime_sec c = 0 \<Longrightarrow> conn_lifetime c = 90"
  "cf_conn_lifetime_sec c < 0 \<Longrightarrow> conn_lifetime c = 0"
  by (simp_all add: conn_lifetime_def)

text \<open>
  Two thousand million seconds, a way to say "never", overflows: the argument of
  \<^verbatim>\<open>Int63n\<close> is negative and the client panics.
\<close>

lemma huge_lifetime_panics:
  "cf_conn_lifetime_sec c = 2000000000 \<Longrightarrow> rotation_wait c rnd = None"
  by (simp add: rotation_wait_def conn_lifetime_def int63n_def wrap64_def signed_divide_int_def
      sgn_if)

text \<open>The front host of an address \<^verbatim>\<open>host:port\<close>, and of an address without a port.\<close>

lemma front_host_of_address:
  assumes "cf_front_host c = ''''" and "cf_sni c = ''''" and "CHR '':'' \<notin> set port"
  shows "cf_server_addr c = host @ CHR '':'' # port \<Longrightarrow> front_host_or_sni c = host"
    and "cf_server_addr c = port \<Longrightarrow> front_host_or_sni c = port"
  using assms strip_port_host [of port host] strip_port_no_colon [of "length port" port]
  by (simp_all add: front_host_or_sni_def)

end
