(* ===== verification/Net_Address.thy ===== *)
theory Net_Address
  imports Config
begin

text \<open>
  The textual addresses \<^verbatim>\<open>nm-plugin/plugin.go\<close> works with: \<^verbatim>\<open>net.ParseIP\<close> of the standard library
  (dotted IPv4, and IPv6 with ellipsis, embedded IPv4 and zones, which \<^verbatim>\<open>ParseIP\<close> refuses),
  \<^verbatim>\<open>To4\<close>, the dotted form of \<^verbatim>\<open>IP.String\<close>, the little-endian 32-bit reading NetworkManager wants,
  \<^verbatim>\<open>strings.Cut\<close>, and on top of them \<^verbatim>\<open>deriveGateway\<close> and \<^verbatim>\<open>parseDNS\<close>.
\<close>

section \<open>The standard library's parsers\<close>

text \<open>
  \<^verbatim>\<open>parseIPv4Fields\<close>: \<open>fs\<close> are the fields finished, \<open>val\<close> and \<open>len\<close> the value and the number of digits
  of the current one. An empty field is refused where the source looks at the neighbours of a dot.
\<close>

fun scan_ip4 :: "bytes \<Rightarrow> int \<Rightarrow> nat \<Rightarrow> string \<Rightarrow> bytes option" where
  "scan_ip4 fs val len [] =
     (if len = 0 \<or> length fs < 3 then None else Some (fs @ [word_of_int val]))"
| "scan_ip4 fs val len (ch # s) =
     (if is_digit ch then
        if len = 1 \<and> val = 0 then None
        else
          let v = val * 10 + digit_val ch
          in if 255 < v then None else scan_ip4 fs v (Suc len) s
      else if ch = CHR ''.'' then
        if len = 0 \<or> s = [] then None
        else if length fs = 3 then None
        else scan_ip4 (fs @ [word_of_int val]) 0 0 s
      else None)"

definition parse_ip4 :: "string \<Rightarrow> bytes option" where
  "parse_ip4 s = scan_ip4 [] 0 0 s"

definition hex_val :: "char \<Rightarrow> int option" where
  "hex_val ch =
     (let n = (of_char ch :: int)
      in if 48 \<le> n \<and> n \<le> 57 then Some (n - 48)
         else if 97 \<le> n \<and> n \<le> 102 then Some (n - 87)
         else if 65 \<le> n \<and> n \<le> 70 then Some (n - 55)
         else None)"

text \<open>The hexadecimal digits at the front, at most four: their value, their number, the rest.\<close>

fun scan_hex :: "int \<Rightarrow> nat \<Rightarrow> string \<Rightarrow> (int \<times> nat \<times> string) option" where
  "scan_hex acc off [] = Some (acc, off, [])"
| "scan_hex acc off (ch # s) =
     (case hex_val ch of
        None \<Rightarrow> Some (acc, off, ch # s)
      | Some d \<Rightarrow> if 3 < off then None else scan_hex (acc * 16 + d) (Suc off) s)"

text \<open>
  The loop of \<^verbatim>\<open>parseIPv6\<close>: \<open>ip\<close> are the bytes written, \<open>ell\<close> the place of the ellipsis. The fuel is
  the number of groups left, eight at the start.
\<close>

fun scan_ip6 :: "nat \<Rightarrow> bytes \<Rightarrow> nat option \<Rightarrow> string \<Rightarrow> (bytes \<times> nat option \<times> string) option" where
  "scan_ip6 0 ip ell s = Some (ip, ell, s)"
| "scan_ip6 (Suc k) ip ell s =
     (case scan_hex 0 0 s of
        None \<Rightarrow> None
      | Some (acc, off, rest) \<Rightarrow>
          if off = 0 then None
          else
            (case rest of
               ch # t \<Rightarrow>
                 if ch = CHR ''.'' then
                   if ell = None \<and> length ip \<noteq> 12 \<or> 12 < length ip then None
                   else (case parse_ip4 s of None \<Rightarrow> None | Some b \<Rightarrow> Some (ip @ b, ell, []))
                 else if ch \<noteq> CHR '':'' \<or> t = [] then None
                 else
                   let ip' = ip @ put_be16 (word_of_int acc)
                   in if hd t = CHR '':'' then
                        if ell \<noteq> None then None
                        else if tl t = [] then Some (ip', Some (length ip'), [])
                        else scan_ip6 k ip' (Some (length ip')) (tl t)
                      else scan_ip6 k ip' ell t
             | [] \<Rightarrow> Some (ip @ put_be16 (word_of_int acc), ell, [])))"

definition parse_ip6 :: "string \<Rightarrow> bytes option" where
  "parse_ip6 s =
     (if CHR ''%'' \<in> set s then None
      else if s = ''::'' then Some (replicate 16 0)
      else
        let (ell, t) = (if take 2 s = ''::'' then (Some 0, drop 2 s) else (None, s))
        in (case scan_ip6 8 [] ell t of
              None \<Rightarrow> None
            | Some (ip, ell', rest) \<Rightarrow>
                if rest \<noteq> [] then None
                else if length ip < 16 then
                  (case ell' of
                     None \<Rightarrow> None
                   | Some i \<Rightarrow> Some (take i ip @ replicate (16 - length ip) 0 @ drop i ip))
                else if ell' \<noteq> None then None
                else Some ip))"

text \<open>The first dot or colon decides; the result has sixteen bytes, IPv4 in its mapped form.\<close>

definition ip4_mapped :: "bytes \<Rightarrow> bytes" where
  "ip4_mapped b = replicate 10 0 @ [0xff, 0xff] @ b"

fun parse_ip_from :: "string \<Rightarrow> string \<Rightarrow> bytes option" where
  "parse_ip_from whole [] = None"
| "parse_ip_from whole (ch # s) =
     (if ch = CHR ''.'' then map_option ip4_mapped (parse_ip4 whole)
      else if ch = CHR '':'' then parse_ip6 whole
      else if ch = CHR ''%'' then None
      else parse_ip_from whole s)"

definition parse_ip :: "string \<Rightarrow> bytes option" where
  "parse_ip s = parse_ip_from s s"

definition to4 :: "bytes option \<Rightarrow> bytes option" where
  "to4 ip =
     (case ip of
        None \<Rightarrow> None
      | Some b \<Rightarrow>
          if length b = 4 then Some b
          else if length b = 16 \<and> take 12 b = replicate 10 0 @ [0xff, 0xff] then Some (drop 12 b)
          else None)"

definition ip4_of :: "string \<Rightarrow> bytes option" where
  "ip4_of s = to4 (parse_ip s)"

definition digit_char :: "nat \<Rightarrow> char" where
  "digit_char n = char_of (48 + n)"

definition show_octet :: "byte \<Rightarrow> string" where
  "show_octet b =
     (let n = unat b
      in if n < 10 then [digit_char n]
         else if n < 100 then [digit_char (n div 10), digit_char (n mod 10)]
         else [digit_char (n div 100), digit_char (n div 10 mod 10), digit_char (n mod 10)])"

definition show_ip4 :: "bytes \<Rightarrow> string" where
  "show_ip4 b =
     show_octet (b ! 0) @ ''.'' @ show_octet (b ! 1) @ ''.'' @ show_octet (b ! 2) @ ''.'' @
     show_octet (b ! 3)"

text \<open>\<^verbatim>\<open>binary.LittleEndian.Uint32\<close> indexes four bytes: on a shorter slice, a nil one too, it panics.\<close>

definition le32 :: "bytes \<Rightarrow> 32 word option" where
  "le32 b =
     (if length b < 4 then None
      else Some (ucast (b ! 0) OR push_bit 8 (ucast (b ! 1)) OR push_bit 16 (ucast (b ! 2))
        OR push_bit 24 (ucast (b ! 3))))"

text \<open>\<^verbatim>\<open>strings.Cut\<close> at a one-character separator: before and after, everything and nothing without it.\<close>

fun cut :: "string \<Rightarrow> char \<Rightarrow> string \<times> string" where
  "cut [] sep = ([], [])"
| "cut (ch # s) sep =
     (if ch = sep then ([], s) else (case cut s sep of (before, after) \<Rightarrow> (ch # before, after)))"

text \<open>\<^verbatim>\<open>strings.TrimSpace\<close> on ASCII text.\<close>

definition is_space :: "char \<Rightarrow> bool" where
  "is_space ch \<longleftrightarrow> ch \<in> {CHR '' '', CHR 0x09, CHR 0x0A, CHR 0x0B, CHR 0x0C, CHR 0x0D}"

definition strings_trim :: "string \<Rightarrow> string" where
  "strings_trim s = rev (dropWhile is_space (rev (dropWhile is_space s)))"

section \<open>The plugin's helpers\<close>

definition derive_gateway :: "string \<Rightarrow> string" where
  "derive_gateway addr =
     (case ip4_of addr of
        None \<Rightarrow> addr
      | Some ip \<Rightarrow> show_ip4 (ip[3 := (if ip ! 3 = 1 then 2 else 1)]))"

definition parse_dns :: "string list \<Rightarrow> 32 word list" where
  "parse_dns addrs =
     concat (map (\<lambda>a. case ip4_of (strings_trim a) of
        None \<Rightarrow> []
      | Some ip \<Rightarrow> (case le32 ip of None \<Rightarrow> [] | Some w \<Rightarrow> [w])) addrs)"

section \<open>Round trip of dotted addresses\<close>

lemma digit_char_simps [simp]:
  "n < 10 \<Longrightarrow> is_digit (digit_char n)" "n < 10 \<Longrightarrow> digit_val (digit_char n) = int n"
proof -
  assume "n < 10"
  then have "of_char (digit_char n) = (48 + n :: nat)"
    by (simp add: digit_char_def)
  then have "(of_char (digit_char n) :: int) = 48 + int n"
    by (metis of_nat_add of_nat_numeral of_nat_of_char)
  with \<open>n < 10\<close> show "is_digit (digit_char n)" "digit_val (digit_char n) = int n"
    by (simp_all add: is_digit_def digit_val_def)
qed


lemma separators_no_digits [simp]:
  "\<not> is_digit (CHR ''.'')" "\<not> is_digit (CHR '':'')" "\<not> is_digit (CHR ''%'')"
  by (simp_all add: is_digit_def digit_val_def)

lemma octet_digits:
  fixes n :: nat
  shows "n = 10 * (n div 10) + n mod 10" and "n = 100 * (n div 100) + 10 * (n div 10 mod 10) + n mod 10"
    and "n < 100 \<Longrightarrow> n div 10 < 10" and "n < 256 \<Longrightarrow> n div 100 < 10"
proof -
  show ten: "n = 10 * (n div 10) + n mod 10" by simp
  have "n div 10 = 10 * (n div 10 div 10) + n div 10 mod 10" by simp
  moreover have "n div 10 div 10 = n div 100" by (simp flip: div_mult2_eq)
  ultimately show "n = 100 * (n div 100) + 10 * (n div 10 mod 10) + n mod 10"
    using ten by linarith
qed (simp_all add: less_mult_imp_div_less)

lemma show_octet_digits: "list_all is_digit (show_octet b)"
  using octet_digits(3,4) [of "unat b"] unsigned_less [of b, where ?'a = nat]
  by (simp add: show_octet_def Let_def)

lemma show_octet_nonempty [simp]: "show_octet b \<noteq> []"
  by (simp add: show_octet_def Let_def)

lemma scan_two:
  assumes "0 < h" "h < 10" "l < 10"
  shows "scan_ip4 fs 0 0 (digit_char h # digit_char l # t) = scan_ip4 fs (10 * int h + int l) 2 t"
  using assms by (simp add: Let_def numeral_2_eq_2 mult.commute)

lemma scan_three:
  assumes "0 < h" "h < 10" "m < 10" "l < 10" "100 * h + 10 * m + l < 256"
  shows "scan_ip4 fs 0 0 (digit_char h # digit_char m # digit_char l # t) =
    scan_ip4 fs (100 * int h + 10 * int m + int l) 3 t"
proof -
  have "(int h * 10 + int m) * 10 + int l = 100 * int h + 10 * int m + int l" by simp
  moreover have "100 * int h + 10 * int m + int l < 256" using assms(5) by linarith
  ultimately show ?thesis using assms by (simp add: Let_def numeral_3_eq_3) (simp add: mult.commute)
qed

lemma scan_octet: "\<exists>k > 0. scan_ip4 fs 0 0 (show_octet b @ t) = scan_ip4 fs (uint b) k t"
proof -
  define n where "n = unat b"
  have n: "n < 256" and u: "uint b = int n"
    using unsigned_less [of b, where ?'a = nat] by (simp_all add: n_def)
  note ds = octet_digits [of n]
  consider "n < 10" | "10 \<le> n" "n < 100" | "100 \<le> n" by linarith
  then show ?thesis
  proof cases
    case 1
    then have "scan_ip4 fs 0 0 (show_octet b @ t) = scan_ip4 fs (uint b) 1 t"
      by (simp add: show_octet_def u Let_def flip: n_def)
    then show ?thesis by (metis zero_less_one)
  next
    case 2
    then have "0 < n div 10" by (simp add: div_greater_zero_iff)
    moreover have "10 * int (n div 10) + int (n mod 10) = int n" using ds(1) by linarith
    ultimately have "scan_ip4 fs 0 0 (show_octet b @ t) = scan_ip4 fs (uint b) 2 t"
      using 2 ds(3) scan_two [of "n div 10" "n mod 10" fs t]
      by (simp add: show_octet_def u Let_def del: scan_ip4.simps of_nat_mod of_nat_div flip: n_def)
    then show ?thesis by (metis zero_less_numeral)
  next
    case 3
    then have "0 < n div 100" by (simp add: div_greater_zero_iff)
    moreover have "100 * int (n div 100) + 10 * int (n div 10 mod 10) + int (n mod 10) = int n"
      using ds(2) by linarith
    moreover have "100 * (n div 100) + 10 * (n div 10 mod 10) + n mod 10 < 256"
      using ds(2) n by linarith
    ultimately have "scan_ip4 fs 0 0 (show_octet b @ t) = scan_ip4 fs (uint b) 3 t"
      using 3 ds(4) n scan_three [of "n div 100" "n div 10 mod 10" "n mod 10" fs t]
      by (simp add: show_octet_def u Let_def del: scan_ip4.simps of_nat_mod of_nat_div flip: n_def)
    then show ?thesis by (metis zero_less_numeral)
  qed
qed

lemma scan_octet_dot:
  assumes "length fs < 3" and "t \<noteq> []"
  shows "scan_ip4 fs 0 0 (show_octet b @ CHR ''.'' # t) = scan_ip4 (fs @ [b]) 0 0 t"
  using scan_octet [of fs b "CHR ''.'' # t"] assms by auto

lemma scan_octet_end:
  assumes "length fs = 3"
  shows "scan_ip4 fs 0 0 (show_octet b) = Some (fs @ [b])"
  using scan_octet [of fs b "[]"] assms by auto

lemma parse_show_ip4: "parse_ip4 (show_ip4 [a, b, c, d]) = Some [a, b, c, d]"
  by (simp add: parse_ip4_def show_ip4_def scan_octet_dot scan_octet_end)

lemma parse_ip_from_digits:
  "list_all is_digit xs \<Longrightarrow> parse_ip_from w (xs @ ys) = parse_ip_from w ys"
proof (induction xs)
  case (Cons ch xs)
  then have "ch \<noteq> CHR ''.''" "ch \<noteq> CHR '':''" "ch \<noteq> CHR ''%''" by auto
  with Cons show ?case by simp
qed simp

lemma ip4_of_show: "ip4_of (show_ip4 [a, b, c, d]) = Some [a, b, c, d]"
proof -
  have "parse_ip (show_ip4 [a, b, c, d]) = map_option ip4_mapped (parse_ip4 (show_ip4 [a, b, c, d]))"
    by (simp add: parse_ip_def show_ip4_def parse_ip_from_digits [OF show_octet_digits])
  then show ?thesis by (simp add: ip4_of_def to4_def ip4_mapped_def parse_show_ip4 eval_nat_numeral)
qed

lemma to4_length: "to4 ip = Some b \<Longrightarrow> length b = 4"
  by (auto simp: to4_def split: option.splits if_splits)

lemma ip4_of_length: "ip4_of s = Some b \<Longrightarrow> length b = 4"
  by (auto simp: ip4_of_def dest: to4_length)

lemma four_bytes: "length b = 4 \<longleftrightarrow> (\<exists>p q r s. b = [p, q, r, s])"
  by (auto simp: eval_nat_numeral length_Suc_conv)

text \<open>
  addresses of the tunnel. The dotted form of every IPv4 address is read back as that address;
  and for a client address, \<^verbatim>\<open>deriveGateway\<close> gives the text of an address in the same /24 network
  whose last byte is 1 or 2 and which is not the client's own; the 32-bit value sent to
  NetworkManager is the address in network byte order read as a little-endian integer, so its
  bytes come back in order.
\<close>

theorem gateway_in_subnet:
  assumes "ip4_of addr = Some ip"
  shows "ip4_of (show_ip4 ip) = Some ip \<and>
    (\<exists>gw w. ip4_of (derive_gateway addr) = Some gw \<and> take 3 gw = take 3 ip \<and> gw \<noteq> ip \<and>
       gw ! 3 \<in> {1, 2} \<and> le32 gw = Some w \<and> rev (put_be32 w) = gw)"
proof -
  from ip4_of_length [OF assms] obtain p q r s where ip: "ip = [p, q, r, s]" by (auto simp: four_bytes)
  let ?gw = "[p, q, r, if s = 1 then 2 else 1]"
  have le: "\<exists>w. le32 [p, q, r, l] = Some w \<and> rev (put_be32 w) = [p, q, r, l]" for l
  proof -
    have "le32 [p, q, r, l] = Some (get_be32 [l, r, q, p])"
      by (simp add: le32_def get_be32_def ac_simps)
    moreover have "rev (put_be32 (get_be32 [l, r, q, p])) = [p, q, r, l]"
      by (simp add: put_get_be32_quad)
    ultimately show ?thesis by blast
  qed
  have "derive_gateway addr = show_ip4 ?gw"
    using assms ip by (simp add: derive_gateway_def eval_nat_numeral)
  then have "ip4_of (derive_gateway addr) = Some ?gw" by (simp only: ip4_of_show)
  moreover have "?gw \<noteq> ip" "?gw ! 3 \<in> {1, 2}" "take 3 ?gw = take 3 ip"
    by (auto simp: ip)
  ultimately show ?thesis
    using ip4_of_show [of p q r s] le [of "if s = 1 then 2 else 1"] unfolding ip by blast
qed

lemma gateway_in_subnet_witness:
  "\<exists>gw. ip4_of (derive_gateway ''10.7.0.1'') = Some gw \<and> gw ! 3 \<in> {1, 2} \<and> gw \<noteq> [10, 7, 0, 1]"
proof -
  have "ip4_of ''10.7.0.1'' = Some [10, 7, 0, 1]" by code_simp
  from gateway_in_subnet [OF this] show ?thesis by blast
qed

text \<open>Samples of the IPv6 side of the parser.\<close>

lemma parse_ip_samples:
  "ip4_of ''::ffff:10.7.0.1'' = Some [10, 7, 0, 1]" "ip4_of ''::ffff:a07:1'' = Some [10, 7, 0, 1]"
  "ip4_of ''fe80::1'' = None" "parse_ip ''1::2'' \<noteq> None" "parse_ip ''fe80::1%eth0'' = None"
  "ip4_of ''10.7.0.01'' = None" "ip4_of ''10.7.0'' = None" "ip4_of ''10.7.0.256'' = None"
  "parse_ip ''1:2:3:4:5:6:7:8'' \<noteq> None" "parse_ip ''1:2:3:4:5:6:7:8::'' = None"
  by code_simp+

end
