(* ===== verification/NM_Plugin.thy ===== *)
theory NM_Plugin
  imports Net_Address
begin

text \<open>
  The NetworkManager plugin, \<^verbatim>\<open>nm-plugin/plugin.go\<close>: the D-Bus calls \<^verbatim>\<open>Connect\<close>, \<^verbatim>\<open>Disconnect\<close> and
  \<^verbatim>\<open>NeedSecrets\<close>, the watcher goroutine of each connection (\<^verbatim>\<open>watchTunAndReport\<close>) and the goroutine
  of \<^verbatim>\<open>Disconnect\<close> that waits for the process. What a step holds the mutex for is one step;
  everything interleaves. Temporary configuration files, processes, watchers and waiting
  goroutines are numbered. The file system, the process start and the D-Bus values are answers
  of the environment. A panic ends the process.
\<close>

section \<open>State\<close>

datatype vpn_state = State_unknown | State_init | State_shutdown | State_starting | State_started | State_stopping | State_stopped

definition state_code :: "vpn_state \<Rightarrow> 32 word" where
  "state_code s =
     (case s of State_unknown \<Rightarrow> 1 | State_init \<Rightarrow> 2 | State_shutdown \<Rightarrow> 3 | State_starting \<Rightarrow> 4 | State_started \<Rightarrow> 5
      | State_stopping \<Rightarrow> 6 | State_stopped \<Rightarrow> 7)"

definition state_str :: "vpn_state \<Rightarrow> string" where
  "state_str s =
     (case s of State_init \<Rightarrow> ''init'' | State_starting \<Rightarrow> ''starting'' | State_started \<Rightarrow> ''started''
      | State_stopping \<Rightarrow> ''stopping'' | State_stopped \<Rightarrow> ''stopped'' | State_shutdown \<Rightarrow> ''shutdown''
      | State_unknown \<Rightarrow> ''unknown(1)'')"

text \<open>The dictionaries of the two configuration signals; an absent key is \<open>None\<close> or the empty list.\<close>

record config_dict =
  cd_tundev :: string
  cd_banner :: string
  cd_has_ip4 :: bool
  cd_has_ip6 :: bool
  cd_gateway :: "32 word option"

record ip4_dict =
  id_address :: "32 word"
  id_prefix :: "32 word"
  id_internal_gateway :: "32 word"
  id_tundev :: string
  id_never_default :: bool
  id_dns :: "32 word list"

datatype vpn_signal =
  State_changed vpn_state | Config_signal config_dict | Ip4_config ip4_dict | Failure_signal

text \<open>Where a watcher is: polling for the device, before its first check, in the pause before its
  final check, between that check and the report, before the started state, in \<^verbatim>\<open>cmd.Wait\<close>, or gone.\<close>

datatype watch_phase = Polling | Device_up | Settling | Checked | Reported | In_wait | Gone

record watcher =
  wt_proc :: nat
  wt_tun :: string
  wt_addr :: string
  wt_dns :: "string list"
  wt_server :: string
  wt_cancelled :: bool
  wt_phase :: watch_phase

record plugin =
  pl_state :: vpn_state
  pl_proc :: "nat option"
  pl_cfg_tmp :: "nat option"
  pl_cancel_watch :: "nat option"
  pl_files :: "nat list"
  pl_next_file :: nat
  pl_alive :: "bool list"
  pl_watchers :: "watcher list"
  pl_reapers :: "nat list"
  pl_signals :: "vpn_signal list"
  pl_panic :: bool

definition new_plugin :: plugin where
  "new_plugin =
     \<lparr>pl_state = State_init, pl_proc = None, pl_cfg_tmp = None, pl_cancel_watch = None,
      pl_files = [], pl_next_file = 0, pl_alive = [], pl_watchers = [], pl_reapers = [],
      pl_signals = [], pl_panic = False\<rparr>"

section \<open>Operations\<close>

definition emit_state :: "vpn_state \<Rightarrow> plugin \<Rightarrow> plugin" where
  "emit_state s p = p\<lparr>pl_state := s, pl_signals := pl_signals p @ [State_changed s]\<rparr>"

definition emit_signal :: "vpn_signal \<Rightarrow> plugin \<Rightarrow> plugin" where
  "emit_signal sg p = p\<lparr>pl_signals := pl_signals p @ [sg]\<rparr>"

definition remove_file :: "nat \<Rightarrow> plugin \<Rightarrow> plugin" where
  "remove_file f p = p\<lparr>pl_files := removeAll f (pl_files p)\<rparr>"

definition cleanup :: "plugin \<Rightarrow> plugin" where
  "cleanup p =
     (let p1 = (case pl_cfg_tmp p of None \<Rightarrow> p | Some f \<Rightarrow> (remove_file f p)\<lparr>pl_cfg_tmp := None\<rparr>)
      in p1\<lparr>pl_proc := None\<rparr>)"

definition dbus_err :: "string \<Rightarrow> go_error" where
  "dbus_err msg = Errorf msg []"

text \<open>
  \<^verbatim>\<open>Connect\<close>. The connection dictionary is \<open>vpn\<close> (\<open>None\<close>: no such section; else its data, which may
  be malformed, and its secrets, empty when malformed); \<open>temp_err\<close>, \<open>write_err\<close> and \<open>start_err\<close> are the
  answers to creating and writing the file and to starting the process.
\<close>

definition connect ::
  "((go_error + dict) \<times> dict) option \<Rightarrow> go_error option \<Rightarrow> go_error option \<Rightarrow> go_error option \<Rightarrow>
   plugin \<Rightarrow> plugin \<times> go_error option" where
  "connect vpn temp_err write_err start_err p =
     (if pl_state p = State_started \<or> pl_state p = State_starting
      then (p, Some (dbus_err ''already connected''))
      else
        case vpn of
          None \<Rightarrow> (p, Some (dbus_err ''no 'vpn' section in connection''))
        | Some (Inl e, secrets) \<Rightarrow> (p, Some (Wrapf ''vpn.data: '' e))
        | Some (Inr data, secrets) \<Rightarrow>
            (case build_client_config data secrets of
               Inl e \<Rightarrow> (p, Some e)
             | Inr cfg \<Rightarrow>
                 (case temp_err of
                    Some e \<Rightarrow> (p, Some (Wrapf ''temp config: '' e))
                  | None \<Rightarrow>
                      let f = pl_next_file p;
                          p1 = p\<lparr>pl_next_file := Suc f, pl_files := pl_files p @ [f]\<rparr>
                      in (case write_err of
                            Some e \<Rightarrow> (remove_file f p1, Some (Wrapf ''write config: '' e))
                          | None \<Rightarrow>
                              let p2 = p1\<lparr>pl_cfg_tmp := Some f\<rparr>
                              in (case start_err of
                                    Some e \<Rightarrow>
                                      ((remove_file f p2)\<lparr>pl_cfg_tmp := None\<rparr>,
                                       Some (Wrapf ''start ghost-client: '' e))
                                  | None \<Rightarrow>
                                      let q = length (pl_alive p2);
                                          p3 = emit_state State_starting
                                                 (p2\<lparr>pl_proc := Some q, pl_alive := pl_alive p2 @ [True]\<rparr>);
                                          w = length (pl_watchers p3);
                                          tun = (if tun_name (cf_tun cfg) = '''' then ''ghost0''
                                                 else tun_name (cf_tun cfg))
                                      in (p3\<lparr>pl_cancel_watch := Some w,
                                             pl_watchers := pl_watchers p3 @
                                               [\<lparr>wt_proc = q, wt_tun = tun,
                                                 wt_addr = tun_address (cf_tun cfg),
                                                 wt_dns = tun_dns (cf_tun cfg),
                                                 wt_server = cf_server_addr cfg,
                                                 wt_cancelled = False, wt_phase = Polling\<rparr>]\<rparr>,
                                          None))))))"

definition need_secrets :: "dict \<Rightarrow> string" where
  "need_secrets secrets =
     (if dict_get secrets ''private-key'' = '''' then ''private-key'' else '''')"

text \<open>
  The values a D-Bus variant can hold, as far as \<^verbatim>\<open>extractStringMap\<close> tells them apart. A missing key of a
  section reads as the zero variant, whose value is nil.
\<close>

datatype dbus_value =
    Str string
  | Str_map "(string \<times> string) list"
  | Variant_map "(string \<times> dbus_value) list"
  | Other_value

type_synonym dbus_section = "string \<Rightarrow> dbus_value option"

definition extract_string_map :: "dbus_value option \<Rightarrow> go_error + dict" where
  "extract_string_map v =
     (case v of
        Some (Str_map m) \<Rightarrow> Inr (map_of m)
      | Some (Variant_map m) \<Rightarrow> Inr (\<lambda>k. case map_of m k of Some (Str s) \<Rightarrow> Some s | _ \<Rightarrow> None)
      | _ \<Rightarrow> Inl (Errorf ''unexpected type %T'' []))"

text \<open>The dictionaries of a section, empty in place of an error where the code drops it.\<close>

definition section_secrets :: "dbus_section \<Rightarrow> dict" where
  "section_secrets sec =
     (case extract_string_map (sec ''secrets'') of Inl e \<Rightarrow> (\<lambda>_. None) | Inr d \<Rightarrow> d)"

definition connection_vpn ::
  "(string \<Rightarrow> dbus_section option) \<Rightarrow> ((go_error + dict) \<times> dict) option" where
  "connection_vpn conn =
     map_option (\<lambda>sec. (extract_string_map (sec ''data''), section_secrets sec)) (conn ''vpn'')"

definition dbus_connect ::
  "(string \<Rightarrow> dbus_section option) \<Rightarrow> go_error option \<Rightarrow> go_error option \<Rightarrow> go_error option \<Rightarrow>
   plugin \<Rightarrow> plugin \<times> go_error option" where
  "dbus_connect conn temp_err write_err start_err p =
     connect (connection_vpn conn) temp_err write_err start_err p"

definition dbus_need_secrets :: "(string \<Rightarrow> dbus_section option) \<Rightarrow> string" where
  "dbus_need_secrets conn =
     need_secrets (case conn ''vpn'' of None \<Rightarrow> (\<lambda>_. None) | Some sec \<Rightarrow> section_secrets sec)"

text \<open>The property interface: one readable property, none writable.\<close>

definition vpn_iface :: string where
  "vpn_iface = ''org.freedesktop.NetworkManager.VPN.Plugin''"

definition props_get :: "string \<Rightarrow> string \<Rightarrow> plugin \<Rightarrow> go_error + 32 word" where
  "props_get iface prop p =
     (if iface = vpn_iface \<and> prop = ''State'' then Inr (state_code (pl_state p))
      else Inl (Errorf ''unknown property %s.%s'' []))"

definition props_get_all :: "string \<Rightarrow> plugin \<Rightarrow> (string \<times> 32 word) list" where
  "props_get_all iface p = [(''State'', state_code (pl_state p))]"

definition props_set :: "string \<Rightarrow> string \<Rightarrow> go_error" where
  "props_set iface prop = Errorf ''read-only'' []"

text \<open>
  \<^verbatim>\<open>findGhostClient\<close>: the program beside the running one, if its path is known, else the first of
  three places, else a name for the search path. \<open>exists\<close> is \<^verbatim>\<open>os.Stat\<close>.
\<close>

definition find_ghost_client :: "string option \<Rightarrow> (string \<Rightarrow> bool) \<Rightarrow> string" where
  "find_ghost_client beside exists =
     (case beside of
        Some p \<Rightarrow>
          if exists p then p
          else (case find exists [''/usr/lib/NetworkManager/ghost-client'',
                  ''/usr/local/bin/ghost-client'', ''/usr/bin/ghost-client''] of
                  Some q \<Rightarrow> q | None \<Rightarrow> ''ghost-client'')
      | None \<Rightarrow>
          (case find exists [''/usr/lib/NetworkManager/ghost-client'',
             ''/usr/local/bin/ghost-client'', ''/usr/bin/ghost-client''] of
             Some q \<Rightarrow> q | None \<Rightarrow> ''ghost-client''))"

text \<open>
  \<^verbatim>\<open>Run\<close> up to the wait for ever (\<open>None\<close>): the bus connection, the name (\<open>Inr\<close> tells whether we are the
  primary owner) and the two exports.
\<close>

definition plugin_serve ::
  "go_error option \<Rightarrow> go_error + bool \<Rightarrow> go_error option \<Rightarrow> go_error option \<Rightarrow> go_error option" where
  "plugin_serve bus_err name_reply export_vpn export_props =
     (case bus_err of
        Some e \<Rightarrow> Some (Wrapf ''system bus: %w'' e)
      | None \<Rightarrow>
          (case name_reply of
             Inl e \<Rightarrow> Some (Wrapf ''request name: %w'' e)
           | Inr False \<Rightarrow> Some (Errorf ''bus name %q already taken'' [])
           | Inr True \<Rightarrow>
               (case export_vpn of
                  Some e \<Rightarrow> Some (Wrapf ''export vpn interface: %w'' e)
                | None \<Rightarrow> map_option (Wrapf ''export properties interface: %w'') export_props)))"

text \<open>
  \<^verbatim>\<open>main\<close> of \<^verbatim>\<open>cmd/nm-ghost-service\<close>: the log level it sets and its exit status, \<open>None\<close> for a service that
  runs for ever. \<^verbatim>\<open>New\<close> never fails; it gives \<open>new_plugin\<close>.
\<close>

definition service_main ::
  "string \<Rightarrow> bool \<Rightarrow> go_error option \<Rightarrow> go_error + bool \<Rightarrow> go_error option \<Rightarrow> go_error option \<Rightarrow>
   log_level option \<times> int option" where
  "service_main level show_version bus_err name_reply export_vpn export_props =
     (if show_version then (None, Some 0)
      else
        (Some (parse_log_level level),
         (case plugin_serve bus_err name_reply export_vpn export_props of
            Some e \<Rightarrow> Some 1
          | None \<Rightarrow> None)))"

text \<open>The service stays up exactly when it owns its name on the bus and both objects are exported.\<close>

lemma service_runs:
  "snd (service_main level False bus_err name_reply e1 e2) = None \<longleftrightarrow>
     bus_err = None \<and> name_reply = Inr True \<and> e1 = None \<and> e2 = None"
  by (auto simp: service_main_def plugin_serve_def split: option.split sum.split bool.split)

text \<open>A connection that lacks its private key is reported by \<^verbatim>\<open>NeedSecrets\<close> and refused by \<^verbatim>\<open>Connect\<close>.\<close>

lemma missing_key_is_asked_for:
  assumes "dbus_need_secrets conn = ''private-key''"
  shows "snd (dbus_connect conn te we se p) \<noteq> None \<and> pl_files (fst (dbus_connect conn te we se p)) = pl_files p"
  using assms
  by (auto simp: dbus_connect_def dbus_need_secrets_def connection_vpn_def need_secrets_def connect_def
      build_client_config_def Let_def split: option.splits sum.splits if_splits)

definition update_watcher :: "nat \<Rightarrow> (watcher \<Rightarrow> watcher) \<Rightarrow> plugin \<Rightarrow> plugin" where
  "update_watcher w f p = p\<lparr>pl_watchers := (pl_watchers p)[w := f (pl_watchers p ! w)]\<rparr>"

definition disconnect :: "plugin \<Rightarrow> plugin" where
  "disconnect p =
     (let p1 = (case pl_cancel_watch p of
            None \<Rightarrow> p
          | Some w \<Rightarrow> (update_watcher w (\<lambda>x. x\<lparr>wt_cancelled := True\<rparr>) p)\<lparr>pl_cancel_watch := None\<rparr>);
          p2 = emit_state State_stopping p1
      in case pl_proc p2 of
           Some q \<Rightarrow> p2\<lparr>pl_reapers := pl_reapers p2 @ [q]\<rparr>
         | None \<Rightarrow> emit_state State_stopped (cleanup p2))"

text \<open>The goroutine of \<^verbatim>\<open>Disconnect\<close> once its process \<open>q\<close> has exited.\<close>

definition reap :: "nat \<Rightarrow> plugin \<Rightarrow> plugin" where
  "reap q p =
     (if q \<in> set (pl_reapers p) \<and> \<not> pl_alive p ! q
      then emit_state State_stopped (cleanup (p\<lparr>pl_reapers := remove1 q (pl_reapers p)\<rparr>))
      else p)"

definition process_exits :: "nat \<Rightarrow> plugin \<Rightarrow> plugin" where
  "process_exits q p = p\<lparr>pl_alive := (pl_alive p)[q := False]\<rparr>"

definition in_phase :: "watch_phase \<Rightarrow> nat \<Rightarrow> plugin \<Rightarrow> bool" where
  "in_phase ph w p \<longleftrightarrow> w < length (pl_watchers p) \<and> wt_phase (pl_watchers p ! w) = ph"

definition set_phase :: "watch_phase \<Rightarrow> nat \<Rightarrow> plugin \<Rightarrow> plugin" where
  "set_phase ph w p = update_watcher w (\<lambda>x. x\<lparr>wt_phase := ph\<rparr>) p"

text \<open>One turn of the polling loop, the deadline, and the steps after the device was found. When the
  context is cancelled and the timer has fired too, \<^verbatim>\<open>select\<close> takes either case: \<open>tick\<close> says which.\<close>

definition watch_poll :: "bool \<Rightarrow> bool \<Rightarrow> nat \<Rightarrow> plugin \<Rightarrow> plugin" where
  "watch_poll tick found w p =
     (if \<not> in_phase Polling w p then p
      else if wt_cancelled (pl_watchers p ! w) \<and> \<not> tick then set_phase Gone w p
      else if tick \<and> found then set_phase Device_up w p
      else p)"

definition watch_deadline :: "nat \<Rightarrow> plugin \<Rightarrow> plugin" where
  "watch_deadline w p =
     (if \<not> in_phase Polling w p then p
      else set_phase Gone w (emit_signal Failure_signal (emit_state State_stopped (cleanup p))))"

definition watch_check :: "nat \<Rightarrow> plugin \<Rightarrow> plugin" where
  "watch_check w p =
     (if \<not> in_phase Device_up w p \<and> \<not> in_phase Settling w p then p
      else if wt_cancelled (pl_watchers p ! w) then set_phase Gone w p
      else if in_phase Device_up w p then set_phase Settling w p
      else set_phase Checked w p)"

text \<open>
  The configuration signals. \<^verbatim>\<open>Uint32\<close> of the nil slice that \<^verbatim>\<open>To4\<close> returns for a tunnel address
  that is not IPv4 panics.
\<close>

definition u32_of :: "string \<Rightarrow> 32 word option" where
  "u32_of s = Option.bind (ip4_of s) le32"

definition report_prefix :: "string \<Rightarrow> 32 word" where
  "report_prefix s = (case atoi s of None \<Rightarrow> 24 | Some n \<Rightarrow> word_of_int n)"

definition config_dict_of :: "watcher \<Rightarrow> config_dict" where
  "config_dict_of x =
     \<lparr>cd_tundev = wt_tun x, cd_banner = ''GHOST VPN'', cd_has_ip4 = True, cd_has_ip6 = False,
      cd_gateway = u32_of (fst (cut (wt_server x) (CHR '':'')))\<rparr>"

definition watch_report :: "nat \<Rightarrow> plugin \<Rightarrow> plugin" where
  "watch_report w p =
     (if \<not> in_phase Checked w p then p
      else
        let x = pl_watchers p ! w;
            (addr_str, prefix_str) = cut (wt_addr x) (CHR ''/'');
            prefix = report_prefix prefix_str
        in (case u32_of addr_str of
              None \<Rightarrow> p\<lparr>pl_panic := True\<rparr>
            | Some addr \<Rightarrow>
                (case u32_of (derive_gateway addr_str) of
                   None \<Rightarrow> p\<lparr>pl_panic := True\<rparr>
                 | Some gw \<Rightarrow>
                     set_phase Reported w
                       (emit_signal
                         (Ip4_config \<lparr>id_address = addr, id_prefix = prefix,
                           id_internal_gateway = gw, id_tundev = wt_tun x, id_never_default = False,
                           id_dns = parse_dns (wt_dns x)\<rparr>)
                         (emit_signal (Config_signal (config_dict_of x)) p)))))"

definition watch_started :: "nat \<Rightarrow> plugin \<Rightarrow> plugin" where
  "watch_started w p =
     (if \<not> in_phase Reported w p then p else set_phase In_wait w (emit_state State_started p))"

definition watch_exit :: "nat \<Rightarrow> plugin \<Rightarrow> plugin" where
  "watch_exit w p =
     (if \<not> in_phase In_wait w p \<or> pl_alive p ! wt_proc (pl_watchers p ! w) then p
      else if pl_state p = State_started
      then set_phase Gone w (emit_state State_stopped (cleanup p))
      else set_phase Gone w p)"

datatype plugin_event =
    Connect_call "((go_error + dict) \<times> dict) option" "go_error option" "go_error option" "go_error option"
  | Disconnect_call
  | Reap nat
  | Process_exits nat
  | Watch_poll bool bool nat
  | Watch_deadline nat
  | Watch_check nat
  | Watch_report nat
  | Watch_started nat
  | Watch_exit nat

fun plugin_step :: "plugin_event \<Rightarrow> plugin \<Rightarrow> plugin" where
  "plugin_step (Connect_call vpn te we se) p = fst (connect vpn te we se p)"
| "plugin_step Disconnect_call p = disconnect p"
| "plugin_step (Reap q) p = reap q p"
| "plugin_step (Process_exits q) p = process_exits q p"
| "plugin_step (Watch_poll tick found w) p = watch_poll tick found w p"
| "plugin_step (Watch_deadline w) p = watch_deadline w p"
| "plugin_step (Watch_check w) p = watch_check w p"
| "plugin_step (Watch_report w) p = watch_report w p"
| "plugin_step (Watch_started w) p = watch_started w p"
| "plugin_step (Watch_exit w) p = watch_exit w p"

fun plugin_run :: "plugin_event list \<Rightarrow> plugin \<Rightarrow> plugin" where
  "plugin_run [] p = p"
| "plugin_run (ev # evs) p = (if pl_panic p then p else plugin_run evs (plugin_step ev p))"

section \<open>The temporary configuration file\<close>

text \<open>
  The file holds the client's private key. Nothing but the current connection's file is on
  disk, and there is none when the plugin is idle.
\<close>

definition busy :: "vpn_state \<Rightarrow> bool" where
  "busy s \<longleftrightarrow> s = State_starting \<or> s = State_started \<or> s = State_stopping"

definition plugin_inv :: "plugin \<Rightarrow> bool" where
  "plugin_inv p \<longleftrightarrow>
     (\<not> busy (pl_state p) \<longrightarrow> pl_cfg_tmp p = None \<and> pl_proc p = None) \<and>
     pl_files p = (case pl_cfg_tmp p of None \<Rightarrow> [] | Some f \<Rightarrow> [f])"

text \<open>The fields the invariant looks at, after each of the helpers.\<close>

lemma cleanup_fields [simp]:
  "pl_cfg_tmp (cleanup p) = None" "pl_proc (cleanup p) = None" "pl_state (cleanup p) = pl_state p"
  "pl_alive (cleanup p) = pl_alive p" "pl_watchers (cleanup p) = pl_watchers p"
  "pl_reapers (cleanup p) = pl_reapers p" "pl_signals (cleanup p) = pl_signals p"
  by (simp_all add: cleanup_def remove_file_def Let_def split: option.splits)

lemma cleanup_files: "plugin_inv p \<Longrightarrow> pl_files (cleanup p) = []"
  by (auto simp: plugin_inv_def cleanup_def remove_file_def Let_def split: option.splits)

lemma emit_fields [simp]:
  "pl_cfg_tmp (emit_state s p) = pl_cfg_tmp p" "pl_proc (emit_state s p) = pl_proc p"
  "pl_state (emit_state s p) = s" "pl_files (emit_state s p) = pl_files p"
  "pl_watchers (emit_state s p) = pl_watchers p" "pl_alive (emit_state s p) = pl_alive p"
  "pl_reapers (emit_state s p) = pl_reapers p"
  by (simp_all add: emit_state_def)

lemma signal_fields [simp]:
  "pl_cfg_tmp (emit_signal s p) = pl_cfg_tmp p" "pl_proc (emit_signal s p) = pl_proc p"
  "pl_state (emit_signal s p) = pl_state p" "pl_files (emit_signal s p) = pl_files p"
  "pl_watchers (emit_signal s p) = pl_watchers p" "pl_alive (emit_signal s p) = pl_alive p"
  by (simp_all add: emit_signal_def)

lemma update_watcher_fields [simp]:
  "pl_cfg_tmp (update_watcher w f p) = pl_cfg_tmp p" "pl_proc (update_watcher w f p) = pl_proc p"
  "pl_state (update_watcher w f p) = pl_state p" "pl_files (update_watcher w f p) = pl_files p"
  "pl_alive (update_watcher w f p) = pl_alive p" "pl_reapers (update_watcher w f p) = pl_reapers p"
  by (simp_all add: update_watcher_def)

lemma busy_simps [simp]:
  "busy State_starting" "busy State_started" "busy State_stopping" "\<not> busy State_stopped"
  "\<not> busy State_init"
  by (simp_all add: busy_def)

lemma plugin_inv_stopped:
  "plugin_inv p \<Longrightarrow> plugin_inv (emit_state State_stopped (cleanup p))"
  by (simp add: plugin_inv_def [of "emit_state s q" for s q] cleanup_files)

lemma plugin_inv_same:
  "plugin_inv p \<Longrightarrow> pl_state q = pl_state p \<Longrightarrow> pl_cfg_tmp q = pl_cfg_tmp p \<Longrightarrow>
   pl_proc q = pl_proc p \<Longrightarrow> pl_files q = pl_files p \<Longrightarrow> plugin_inv q"
  by (simp add: plugin_inv_def)

lemma plugin_inv_set_phase [simp]: "plugin_inv (set_phase ph w p) = plugin_inv p"
  by (simp add: plugin_inv_def set_phase_def)

lemma plugin_inv_connect:
  assumes "plugin_inv p" and "pl_state p \<noteq> State_stopping"
  shows "plugin_inv (fst (connect vpn te we se p))"
proof (cases "busy (pl_state p)")
  case True
  with assms show ?thesis by (auto simp: busy_def connect_def)
next
  case False
  with assms have "pl_cfg_tmp p = None" "pl_files p = []" by (simp_all add: plugin_inv_def)
  with assms False show ?thesis
    by (auto simp: connect_def plugin_inv_def remove_file_def Let_def
        split: option.splits prod.splits sum.splits)
qed

lemma plugin_inv_disconnect:
  assumes "plugin_inv p"
  shows "plugin_inv (disconnect p)"
proof -
  define p1 where "p1 = (case pl_cancel_watch p of None \<Rightarrow> p
    | Some w \<Rightarrow> (update_watcher w (\<lambda>x. x\<lparr>wt_cancelled := True\<rparr>) p)\<lparr>pl_cancel_watch := None\<rparr>)"
  have "plugin_inv p1"
    using assms by (auto simp: p1_def plugin_inv_def split: option.splits)
  then have p2: "plugin_inv (emit_state State_stopping p1)" by (simp add: plugin_inv_def)
  show ?thesis
  proof (cases "pl_proc p1")
    case None
    then show ?thesis
      using plugin_inv_stopped [OF p2] by (simp add: disconnect_def Let_def flip: p1_def)
  next
    case (Some q)
    then show ?thesis
      using p2 by (simp add: disconnect_def Let_def plugin_inv_def flip: p1_def)
  qed
qed

lemma plugin_inv_step:
  assumes "plugin_inv p" and "\<And>vpn te we se. ev = Connect_call vpn te we se \<Longrightarrow> pl_state p \<noteq> State_stopping"
  shows "plugin_inv (plugin_step ev p)"
proof (cases ev)
  case (Connect_call vpn te we se)
  with assms plugin_inv_connect show ?thesis by simp
next
  case Disconnect_call
  with assms plugin_inv_disconnect show ?thesis by simp
next
  case (Reap q)
  have "plugin_inv (p\<lparr>pl_reapers := remove1 q (pl_reapers p)\<rparr>)"
    using assms(1) by (simp add: plugin_inv_def)
  from plugin_inv_stopped [OF this] assms(1) Reap show ?thesis by (simp add: reap_def)
next
  case (Process_exits q)
  with assms show ?thesis by (simp add: process_exits_def plugin_inv_def)
next
  case (Watch_poll tick found w)
  with assms show ?thesis by (simp add: watch_poll_def)
next
  case (Watch_deadline w)
  have "plugin_inv (emit_signal Failure_signal (emit_state State_stopped (cleanup p)))"
    by (rule plugin_inv_same [OF plugin_inv_stopped [OF assms(1)]]) simp_all
  with assms Watch_deadline show ?thesis by (simp add: watch_deadline_def)
next
  case (Watch_check w)
  with assms show ?thesis by (simp add: watch_check_def)
next
  case (Watch_report w)
  have "plugin_inv (emit_signal s (emit_signal t p))" "plugin_inv (p\<lparr>pl_panic := True\<rparr>)" for s t
    by (rule plugin_inv_same [OF assms(1)]; simp)+
  with assms Watch_report show ?thesis
    by (simp add: watch_report_def Let_def split: prod.splits option.splits)
next
  case (Watch_started w)
  have "plugin_inv (emit_state State_started p)" using assms(1) by (simp add: plugin_inv_def)
  with assms Watch_started show ?thesis by (simp add: watch_started_def)
next
  case (Watch_exit w)
  with assms plugin_inv_stopped [OF assms(1)] show ?thesis by (simp add: watch_exit_def)
qed

text \<open>Runs in which NetworkManager does not connect while a disconnect is under way.\<close>

fun orderly :: "plugin_event list \<Rightarrow> plugin \<Rightarrow> bool" where
  "orderly [] p = True"
| "orderly (ev # evs) p =
     ((case ev of Connect_call _ _ _ _ \<Rightarrow> pl_state p \<noteq> State_stopping | _ \<Rightarrow> True) \<and>
      orderly evs (plugin_step ev p))"

lemma plugin_inv_run: "plugin_inv p \<Longrightarrow> orderly evs p \<Longrightarrow> plugin_inv (plugin_run evs p)"
proof (induction evs arbitrary: p)
  case (Cons ev evs)
  have "plugin_inv (plugin_step ev p)"
    using Cons.prems by (intro plugin_inv_step) (auto split: plugin_event.splits)
  with Cons show ?case by (simp del: plugin_step.simps)
qed simp

lemma plugin_inv_new [simp]: "plugin_inv new_plugin"
  by (simp add: plugin_inv_def new_plugin_def)

section \<open>Properties\<close>

text \<open>
  C23: the private key is not left on disk. In every run in which NetworkManager does not connect
  during a disconnect, whatever fails and however the goroutines interleave, the only temporary
  file is the current connection's, and when the plugin is idle (never connected, or stopped
  after a failure, a disconnect, a timeout or an exit of the client) there is none and no process is
  recorded.
\<close>

theorem key_file_never_left_behind:
  assumes "orderly evs new_plugin" and "p = plugin_run evs new_plugin"
  shows "pl_files p = (case pl_cfg_tmp p of None \<Rightarrow> [] | Some f \<Rightarrow> [f]) \<and>
    (pl_state p \<in> {State_init, State_stopped} \<longrightarrow> pl_files p = [] \<and> pl_proc p = None)"
  using plugin_inv_run [OF plugin_inv_new assms(1)] assms(2) by (auto simp: plugin_inv_def)

definition demo_vpn :: "((go_error + dict) \<times> dict) option" where
  "demo_vpn = Some (Inr [''server-addr'' \<mapsto> ''h:443'', ''server-public-key'' \<mapsto> ''K'',
      ''tun-addr'' \<mapsto> ''10.7.0.2/24''], [''private-key'' \<mapsto> ''P''])"

definition demo_connect :: plugin_event where
  "demo_connect = Connect_call demo_vpn None None None"

lemma demo_connect_step:
  "\<not> (pl_state p = State_started \<or> pl_state p = State_starting) \<Longrightarrow>
   plugin_step demo_connect p =
     p\<lparr>pl_next_file := Suc (pl_next_file p), pl_files := pl_files p @ [pl_next_file p],
       pl_cfg_tmp := Some (pl_next_file p), pl_proc := Some (length (pl_alive p)),
       pl_alive := pl_alive p @ [True], pl_state := State_starting,
       pl_signals := pl_signals p @ [State_changed State_starting],
       pl_cancel_watch := Some (length (pl_watchers p)),
       pl_watchers := pl_watchers p @ [\<lparr>wt_proc = length (pl_alive p), wt_tun = ''ghost0'',
         wt_addr = ''10.7.0.2/24'', wt_dns = [], wt_server = ''h:443'', wt_cancelled = False,
         wt_phase = Polling\<rparr>]\<rparr>"
  by (simp add: demo_connect_def demo_vpn_def connect_def build_client_config_def dict_get_def
      emit_state_def Let_def)

lemmas plugin_eval =
  demo_connect_step new_plugin_def disconnect_def reap_def process_exits_def watch_poll_def
  watch_deadline_def watch_check_def watch_report_def watch_started_def watch_exit_def in_phase_def
  set_phase_def update_watcher_def emit_state_def emit_signal_def cleanup_def remove_file_def Let_def

lemma key_file_never_left_behind_witness:
  "pl_files (plugin_run [demo_connect, Watch_poll True True 0, Disconnect_call, Process_exits 0, Reap 0]
     new_plugin) = []"
proof -
  let ?evs = "[demo_connect, Watch_poll True True 0, Disconnect_call, Process_exits 0, Reap 0]"
  have "orderly ?evs new_plugin"
    by (simp add: plugin_eval) (simp add: demo_connect_def)
  moreover have "pl_state (plugin_run ?evs new_plugin) = State_stopped"
    by (simp add: plugin_eval)
  ultimately show ?thesis
    using key_file_never_left_behind [OF _ refl, of ?evs] by blast
qed

text \<open>
  \<^verbatim>\<open>Connect\<close> on every branch. While connected or connecting it is refused and nothing changes;
  a malformed request, an incomplete configuration, or a failure to create or write the file or
  to start the client gives that error, and then state, process, signals and files are as before;
  otherwise exactly one file is added, a process and its watcher start, and the state is
  "starting".
\<close>

theorem connect_verdict:
  assumes "plugin_inv p" and "pl_state p \<noteq> State_stopping"
  shows "case connect vpn temp_err write_err start_err p of
      (p', Some e) \<Rightarrow>
        pl_state p' = pl_state p \<and> pl_files p' = pl_files p \<and> pl_cfg_tmp p' = pl_cfg_tmp p \<and>
        pl_proc p' = pl_proc p \<and> pl_signals p' = pl_signals p \<and> pl_watchers p' = pl_watchers p
    | (p', None) \<Rightarrow>
        \<not> busy (pl_state p) \<and> pl_state p' = State_starting \<and>
        (\<exists>data secrets cfg. vpn = Some (Inr data, secrets) \<and>
           build_client_config data secrets = Inr cfg \<and>
           pl_files p' = [pl_next_file p] \<and> pl_cfg_tmp p' = Some (pl_next_file p) \<and>
           pl_proc p' = Some (length (pl_alive p)) \<and>
           pl_watchers p' = pl_watchers p @ [\<lparr>wt_proc = length (pl_alive p),
             wt_tun = tun_name (cf_tun cfg), wt_addr = tun_address (cf_tun cfg),
             wt_dns = tun_dns (cf_tun cfg), wt_server = cf_server_addr cfg,
             wt_cancelled = False, wt_phase = Polling\<rparr>])"
proof (cases "busy (pl_state p)")
  case True
  with assms show ?thesis by (auto simp: busy_def connect_def)
next
  case False
  with assms have "pl_cfg_tmp p = None" "pl_files p = []" by (simp_all add: plugin_inv_def)
  moreover have "tun_name (cf_tun cfg) \<noteq> ''''" if "build_client_config data secrets = Inr cfg"
    for data secrets cfg
    using that by (auto simp: build_client_config_def Let_def split: if_splits)
  ultimately show ?thesis
    using False
    by (auto simp: connect_def remove_file_def busy_def emit_state_def Let_def
        split: option.splits prod.splits sum.splits)
qed

lemma connect_verdict_witness:
  "case connect demo_vpn None None (Some EOF) new_plugin of
     (p', Some e) \<Rightarrow> pl_files p' = [] \<and> pl_state p' = State_init | (p', None) \<Rightarrow> False"
  using connect_verdict [OF plugin_inv_new, of demo_vpn None None "Some EOF"]
  by (simp add: connect_def demo_vpn_def build_client_config_def dict_get_def new_plugin_def
      remove_file_def Let_def)

section \<open>A watcher only moves forward\<close>

text \<open>The phases in the order of the code; \<open>Gone\<close> is the last.\<close>

definition phase_rank :: "watch_phase \<Rightarrow> nat" where
  "phase_rank ph =
     (case ph of Polling \<Rightarrow> 0 | Device_up \<Rightarrow> 1 | Settling \<Rightarrow> 2 | Checked \<Rightarrow> 3 | Reported \<Rightarrow> 4
      | In_wait \<Rightarrow> 5 | Gone \<Rightarrow> 6)"

instantiation watch_phase :: linorder
begin

definition less_eq_watch_phase :: "watch_phase \<Rightarrow> watch_phase \<Rightarrow> bool" where
  "less_eq_watch_phase a b \<longleftrightarrow> phase_rank a \<le> phase_rank b"

definition less_watch_phase :: "watch_phase \<Rightarrow> watch_phase \<Rightarrow> bool" where
  "less_watch_phase a b \<longleftrightarrow> phase_rank a < phase_rank b"

instance
proof
  fix a b :: watch_phase
  show "a = b" if "a \<le> b" "b \<le> a"
    using that by (cases a; cases b) (simp_all add: less_eq_watch_phase_def phase_rank_def)
qed (auto simp: less_eq_watch_phase_def less_watch_phase_def)

end

lemmas phase_order = less_eq_watch_phase_def less_watch_phase_def phase_rank_def

definition phase_of :: "nat \<Rightarrow> plugin \<Rightarrow> watch_phase" where
  "phase_of w p = wt_phase (pl_watchers p ! w)"

lemma phase_of_set: "w < length (pl_watchers p) \<Longrightarrow> phase_of v (set_phase ph w p) = (if v = w then ph else phase_of v p)"
  by (simp add: phase_of_def set_phase_def update_watcher_def)

lemma phase_same [simp]:
  "phase_of w (cleanup p) = phase_of w p" "phase_of w (emit_state st p) = phase_of w p"
  "phase_of w (emit_signal sg p) = phase_of w p" "phase_of w (p\<lparr>pl_panic := b\<rparr>) = phase_of w p"
  "phase_of w (p\<lparr>pl_reapers := rs\<rparr>) = phase_of w p" "phase_of w (p\<lparr>pl_alive := al\<rparr>) = phase_of w p"
  by (simp_all add: phase_of_def)

lemma phase_set_forward:
  "w < length (pl_watchers p) \<Longrightarrow> (w = v \<Longrightarrow> phase_of w p \<le> ph) \<Longrightarrow> pl_watchers q = pl_watchers p \<Longrightarrow>
   phase_of w p \<le> phase_of w (set_phase ph v q)"
  by (cases "v = w") (simp_all add: phase_of_def set_phase_def update_watcher_def)

lemma phase_steps [simp]:
  "ph \<le> Gone" "Polling \<le> ph" "Device_up \<le> Settling" "Settling \<le> Checked" "Device_up \<le> Checked"
  "Checked \<le> Reported" "Reported \<le> In_wait"
  by (cases ph; simp add: phase_order)+

lemma in_phase_iff: "in_phase ph w p \<longleftrightarrow> w < length (pl_watchers p) \<and> phase_of w p = ph"
  by (simp add: in_phase_def phase_of_def)

theorem watcher_moves_forward:
  assumes w: "w < length (pl_watchers p)"
  shows "phase_of w p \<le> phase_of w (plugin_step ev p)"
proof (cases ev)
  case (Connect_call vpn te we se)
  have "\<exists>ws. pl_watchers (fst (connect vpn te we se p)) = pl_watchers p @ ws"
    by (auto simp: connect_def remove_file_def Let_def split: option.splits prod.splits sum.splits)
  with w Connect_call show ?thesis by (auto simp: phase_of_def nth_append)
next
  case Disconnect_call
  have "phase_of w (case pl_cancel_watch p of None \<Rightarrow> p
      | Some v \<Rightarrow> (update_watcher v (\<lambda>x. x\<lparr>wt_cancelled := True\<rparr>) p)\<lparr>pl_cancel_watch := None\<rparr>) =
      phase_of w p"
    using w by (cases "the (pl_cancel_watch p) = w") (auto simp: phase_of_def update_watcher_def split: option.splits)
  with Disconnect_call show ?thesis
    by (auto simp: disconnect_def Let_def phase_of_def split: option.splits)
next
  case (Watch_report v)
  with w show ?thesis
    by (auto simp: watch_report_def Let_def in_phase_iff
        split: prod.splits option.splits intro!: phase_set_forward)
qed (use w in \<open>auto simp: reap_def process_exits_def watch_poll_def watch_deadline_def
    watch_check_def watch_started_def watch_exit_def in_phase_iff
    intro!: phase_set_forward\<close>)

lemma watcher_moves_forward_witness:
  "phase_of 0 (plugin_step demo_connect new_plugin) \<le>
   phase_of 0 (plugin_step (Watch_poll True True 0) (plugin_step demo_connect new_plugin))"
  by (rule watcher_moves_forward) (simp add: plugin_eval)

text \<open>A watcher whose context is cancelled before its last check, from then on.\<close>

definition silenced :: "nat \<Rightarrow> plugin \<Rightarrow> bool" where
  "silenced w p \<longleftrightarrow>
     w < length (pl_watchers p) \<and> wt_cancelled (pl_watchers p ! w) \<and>
     wt_phase (pl_watchers p ! w) \<in> {Polling, Device_up, Settling, Gone}"

lemma silenced_update:
  "silenced w p \<Longrightarrow> (v = w \<Longrightarrow> wt_cancelled (f (pl_watchers p ! w)) \<and>
     wt_phase (f (pl_watchers p ! w)) \<in> {Polling, Device_up, Settling, Gone}) \<Longrightarrow>
   silenced w (update_watcher v f p)"
  by (cases "v = w") (auto simp: silenced_def update_watcher_def)

lemma silenced_same: "silenced w p \<Longrightarrow> pl_watchers q = pl_watchers p \<Longrightarrow> silenced w q"
  by (simp add: silenced_def)

lemma silenced_step:
  assumes "silenced w p"
  shows "silenced w (plugin_step ev p)"
proof (cases ev)
  case (Connect_call vpn te we se)
  have "\<exists>ws. pl_watchers (fst (connect vpn te we se p)) = pl_watchers p @ ws"
    by (auto simp: connect_def remove_file_def Let_def split: option.splits prod.splits sum.splits)
  with assms Connect_call show ?thesis by (auto simp: silenced_def nth_append)
next
  case Disconnect_call
  have "silenced w (case pl_cancel_watch p of None \<Rightarrow> p
      | Some v \<Rightarrow> (update_watcher v (\<lambda>x. x\<lparr>wt_cancelled := True\<rparr>) p)\<lparr>pl_cancel_watch := None\<rparr>)"
    using assms silenced_update [OF assms]
    by (auto simp: silenced_def update_watcher_def nth_list_update split: option.splits)
  with Disconnect_call show ?thesis
    by (auto simp: disconnect_def Let_def split: option.splits elim: silenced_same)
next
  case (Reap q)
  with assms show ?thesis by (auto simp: reap_def elim: silenced_same)
next
  case (Process_exits q)
  with assms show ?thesis by (auto simp: process_exits_def elim: silenced_same)
next
  case (Watch_poll tick found v)
  with assms show ?thesis
    by (auto simp: watch_poll_def set_phase_def in_phase_def intro!: silenced_update)
      (auto simp: silenced_def)
next
  case (Watch_deadline v)
  have "silenced w (emit_signal Failure_signal (emit_state State_stopped (cleanup p)))"
    using assms by (rule silenced_same) simp
  with assms Watch_deadline show ?thesis
    by (auto simp: watch_deadline_def set_phase_def in_phase_def intro!: silenced_update)
      (auto simp: silenced_def)
next
  case (Watch_check v)
  with assms show ?thesis
    by (auto simp: watch_check_def set_phase_def in_phase_def intro!: silenced_update)
      (auto simp: silenced_def)
next
  case (Watch_report v)
  have "silenced w (emit_signal s (emit_signal t p))" "silenced w (p\<lparr>pl_panic := True\<rparr>)" for s t
    using assms by (rule silenced_same; simp)+
  with assms Watch_report show ?thesis
    by (auto simp: watch_report_def set_phase_def in_phase_def Let_def intro!: silenced_update
        split: prod.splits option.splits)
      (auto simp: silenced_def)
next
  case (Watch_started v)
  have "silenced w (emit_state State_started p)" using assms by (rule silenced_same) simp
  with assms Watch_started show ?thesis
    by (auto simp: watch_started_def set_phase_def in_phase_def intro!: silenced_update)
      (auto simp: silenced_def)
next
  case (Watch_exit v)
  have "silenced w (emit_state State_stopped (cleanup p))" using assms by (rule silenced_same) simp
  with assms Watch_exit show ?thesis
    by (auto simp: watch_exit_def set_phase_def in_phase_def intro!: silenced_update)
      (auto simp: silenced_def)
qed


lemma silenced_run: "silenced w p \<Longrightarrow> silenced w (plugin_run evs p)"
  by (induction evs arbitrary: p) (simp_all add: silenced_step del: plugin_step.simps)

lemma silenced_disconnect:
  assumes "pl_cancel_watch p = Some w" and "w < length (pl_watchers p)"
    and "wt_phase (pl_watchers p ! w) \<in> {Polling, Device_up, Settling}"
  shows "silenced w (disconnect p)"
proof -
  have "silenced w ((update_watcher w (\<lambda>x. x\<lparr>wt_cancelled := True\<rparr>) p)\<lparr>pl_cancel_watch := None\<rparr>)"
    using assms by (auto simp: silenced_def update_watcher_def)
  then show ?thesis
    using assms(1) by (auto simp: disconnect_def Let_def split: option.splits elim: silenced_same)
qed

text \<open>
  C40: a watcher that \<^verbatim>\<open>Disconnect\<close> cancels before its final check never gets as far as reporting:
  whatever happens afterwards, a step of it that would report the configuration or the started
  state changes nothing.
\<close>

theorem cancelled_watcher_never_reports:
  assumes "pl_cancel_watch p = Some w" and "w < length (pl_watchers p)"
    and "wt_phase (pl_watchers p ! w) \<in> {Polling, Device_up, Settling}"
    and "q = plugin_run evs (disconnect p)"
  shows "watch_report w q = q \<and> watch_started w q = q"
proof -
  have "silenced w q"
    using silenced_run [OF silenced_disconnect [OF assms(1-3)]] assms(4) by simp
  then show ?thesis by (auto simp: silenced_def watch_report_def watch_started_def in_phase_def)
qed

lemma cancelled_watcher_never_reports_witness:
  "watch_started 0 (plugin_run [Watch_poll True True 0, Watch_check 0, Watch_check 0, Watch_report 0]
     (disconnect (plugin_step demo_connect new_plugin))) =
   plugin_run [Watch_poll True True 0, Watch_check 0, Watch_check 0, Watch_report 0]
     (disconnect (plugin_step demo_connect new_plugin))"
proof -
  let ?p = "plugin_step demo_connect new_plugin"
  have "pl_cancel_watch ?p = Some 0" "0 < length (pl_watchers ?p)"
    "wt_phase (pl_watchers ?p ! 0) \<in> {Polling, Device_up, Settling}"
    by (simp_all add: plugin_eval del: plugin_step.simps)
  from cancelled_watcher_never_reports [OF this refl] show ?thesis by blast
qed

section \<open>Two races of the plugin\<close>

text \<open>
  A watcher past its final check still announces "started", after \<^verbatim>\<open>Disconnect\<close> has announced
  "stopping": the cancellation is not looked at again.
\<close>

lemma demo_address:
  "cut ''10.7.0.2/24'' (CHR ''/'') = (''10.7.0.2'', ''24'')"
  "u32_of ''10.7.0.2'' = Some 0x0200070A" "u32_of (derive_gateway ''10.7.0.2'') = Some 0x0100070A"
  by code_simp+

lemma started_after_disconnect:
  "\<exists>cfg ip4. pl_signals (plugin_run [demo_connect, Watch_poll True True 0, Watch_check 0, Watch_check 0,
      Disconnect_call, Watch_report 0, Watch_started 0] new_plugin) =
   [State_changed State_starting, State_changed State_stopping, Config_signal cfg, Ip4_config ip4,
    State_changed State_started]"
  by (simp add: plugin_eval demo_address)

text \<open>
  \<^verbatim>\<open>Connect\<close> is accepted while the old process is stopping. The goroutine that waits for the old
  process then removes the new connection's file and forgets its process, and nobody removes the
  old file: the private key stays on disk and the new client is left running in state "stopped".
\<close>

lemma connect_while_stopping_leaks_key_file:
  "let p = plugin_run [demo_connect, Disconnect_call, demo_connect, Process_exits 0, Reap 0] new_plugin
   in pl_files p = [0] \<and> pl_cfg_tmp p = None \<and> pl_proc p = None \<and> pl_alive p = [False, True] \<and>
      pl_state p = State_stopped"
  by (simp add: plugin_eval)


section \<open>What is reported to NetworkManager\<close>

lemma cut_fresh: "sep \<notin> set s \<Longrightarrow> cut (s @ sep # t) sep = (s, t)"
  by (induction s) auto

lemma slash_fresh: "CHR ''/'' \<notin> set (show_ip4 b)"
proof -
  have "\<not> is_digit (CHR ''/'')" by (simp add: is_digit_def digit_val_def)
  then have "CHR ''/'' \<notin> set (show_octet o1)" for o1
    using show_octet_digits [of o1] by (auto simp: list_all_iff)
  then show ?thesis by (simp add: show_ip4_def)
qed

text \<open>
  the configuration report. For a watcher whose connection has the tunnel address \<open>a.b.c.d/pre\<close>,
  the report does not panic and emits the Config and then the Ip4Config signal for the
  watcher's device: the address is \<open>a.b.c.d\<close> in network byte order, the prefix the number after
  the slash (24 when it is no number), the gateway another address of the same /24 network, and
  the DNS servers are the IPv4 ones of the list, in order.
\<close>

theorem report_carries_tunnel_address:
  assumes "in_phase Checked w p" and "wt_addr (pl_watchers p ! w) = show_ip4 [a, b, c, d] @ ''/'' @ pre"
  shows "\<exists>cfg i4 l. pl_signals (watch_report w p) = pl_signals p @ [Config_signal cfg, Ip4_config i4] \<and>
    pl_panic (watch_report w p) = pl_panic p \<and>
    cd_tundev cfg = wt_tun (pl_watchers p ! w) \<and> id_tundev i4 = wt_tun (pl_watchers p ! w) \<and>
    rev (put_be32 (id_address i4)) = [a, b, c, d] \<and> id_prefix i4 = report_prefix pre \<and>
    rev (put_be32 (id_internal_gateway i4)) = [a, b, c, l] \<and> l \<noteq> d \<and>
    id_dns i4 = parse_dns (wt_dns (pl_watchers p ! w))"
proof -
  let ?s = "show_ip4 [a, b, c, d]" and ?l = "if d = 1 then 2 else 1"
  have c: "cut (wt_addr (pl_watchers p ! w)) (CHR ''/'') = (?s, pre)"
    using assms(2) by (simp add: cut_fresh slash_fresh)
  have le: "\<exists>v. le32 [a, b, c, x] = Some v \<and> rev (put_be32 v) = [a, b, c, x]" for x
  proof -
    have "le32 [a, b, c, x] = Some (get_be32 [x, c, b, a])"
      by (simp add: le32_def get_be32_def ac_simps)
    then show ?thesis by (auto simp: put_get_be32_quad)
  qed
  obtain v g where v: "u32_of ?s = Some v" "rev (put_be32 v) = [a, b, c, d]"
    and g: "u32_of (derive_gateway ?s) = Some g" "rev (put_be32 g) = [a, b, c, ?l]"
    using le [of d] le [of ?l]
    by (auto simp: u32_of_def ip4_of_show derive_gateway_def eval_nat_numeral)
  have "?l \<noteq> d" by auto
  with assms(1) c v g show ?thesis
    by (auto simp: watch_report_def Let_def emit_signal_def set_phase_def update_watcher_def
        config_dict_of_def)
qed

lemma report_carries_tunnel_address_witness:
  "\<exists>i4. Ip4_config i4 \<in> set (pl_signals (watch_report 0 (plugin_run [demo_connect,
      Watch_poll True True 0, Watch_check 0, Watch_check 0] new_plugin))) \<and>
    rev (put_be32 (id_address i4)) = [10, 7, 0, 2] \<and> id_prefix i4 = 24"
proof -
  let ?p = "plugin_run [demo_connect, Watch_poll True True 0, Watch_check 0, Watch_check 0] new_plugin"
  have "in_phase Checked 0 ?p" "wt_addr (pl_watchers ?p ! 0) = ''10.7.0.2/24''"
    by (simp_all add: plugin_eval)
  moreover have "''10.7.0.2/24'' = show_ip4 [10, 7, 0, 2] @ ''/'' @ ''24''" "report_prefix ''24'' = 24"
    by code_simp+
  ultimately show ?thesis
    using report_carries_tunnel_address [of 0 ?p 10 7 0 2 "''24''"]
    by (fastforce simp del: plugin_run.simps)
qed

text \<open>
  A tunnel address that is not IPv4 passes every check of \<^verbatim>\<open>Connect\<close> and ends the plugin when the
  device comes up, with the key file still on disk.
\<close>

lemma ipv6_tunnel_address_panics:
  "let vpn = Some (Inr [''server-addr'' \<mapsto> ''h:443'', ''server-public-key'' \<mapsto> ''K'',
         ''tun-addr'' \<mapsto> ''fd00::2/64''], [''private-key'' \<mapsto> ''P'']);
       p = plugin_run [Connect_call vpn None None None, Watch_poll True True 0, Watch_check 0,
         Watch_check 0, Watch_report 0, Disconnect_call] new_plugin
   in pl_panic p \<and> pl_files p = [0] \<and> pl_state p = State_starting"
proof -
  have "cut ''fd00::2/64'' (CHR ''/'') = (''fd00::2'', ''64'')" "u32_of ''fd00::2'' = None"
    by code_simp+
  then show ?thesis
    by (simp add: connect_def build_client_config_def dict_get_def new_plugin_def emit_state_def
        watch_poll_def watch_check_def watch_report_def in_phase_def set_phase_def update_watcher_def
        Let_def)
qed

end
