(* ===== verification/Go_Float.thy ===== *)
theory Go_Float
  imports Complex_Main "HOL-Library.Log_Nat"
begin

text \<open>
  Go's \<^verbatim>\<open>float64\<close> arithmetic as the traffic shaper uses it: the values are rational numbers and
  every operation is the exact one followed by \<open>fl64\<close>, IEEE 754 rounding to 53 significant bits,
  ties to even. The shaper's numbers are byte counts, ratios and durations far from the ends of
  the exponent range, so overflow, subnormal numbers and NaN are left out; no multiplication is
  fused with an addition, as on amd64. Integers below
  \<open>2^53\<close> are exact.
\<close>

definition binary_exponent :: "rat \<Rightarrow> int" where
  "binary_exponent x = (if 1 \<le> x then bitlen \<lfloor>x\<rfloor> - 1 else - bitlen (\<lceil>1 / x\<rceil> - 1))"

definition round_even :: "rat \<Rightarrow> int" where
  "round_even q =
     (let f = \<lfloor>q\<rfloor>; r = q - of_int f
      in if r < 1 / 2 then f else if 1 / 2 < r then f + 1 else if even f then f else f + 1)"

definition fl64 :: "rat \<Rightarrow> rat" where
  "fl64 x =
     (if x = 0 then 0
      else
        let e = binary_exponent \<bar>x\<bar>
        in sgn x * of_int (round_even (\<bar>x\<bar> * 2 powi (52 - e))) * 2 powi (e - 52))"

text \<open>The conversion \<^verbatim>\<open>int(x)\<close>, which drops the fraction.\<close>

definition to_int :: "rat \<Rightarrow> int" where
  "to_int x = (if x < 0 then - \<lfloor>- x\<rfloor> else \<lfloor>x\<rfloor>)"

lemma fl64_zero [simp]: "fl64 0 = 0"
  by (simp add: fl64_def)

lemma to_int_of_int [simp]: "to_int (of_int n) = n"
  by (simp add: to_int_def)

lemma to_int_nonneg [simp]: "0 \<le> x \<Longrightarrow> 0 \<le> to_int x"
  by (simp add: to_int_def)

lemma round_even_of_int [simp]: "round_even (of_int n) = n"
  by (simp add: round_even_def Let_def)

lemma round_even_nonneg: "0 \<le> q \<Longrightarrow> 0 \<le> round_even q"
  by (simp add: round_even_def Let_def)

lemma fl64_nonneg: "0 \<le> x \<Longrightarrow> 0 \<le> fl64 x"
  using round_even_nonneg [of "\<bar>x\<bar> * 2 powi (52 - binary_exponent \<bar>x\<bar>)"]
  by (simp add: fl64_def Let_def sgn_if)

lemma binary_exponent_int:
  assumes "0 < n" and "n < 2 ^ 53"
  shows "binary_exponent (of_int n) \<le> 52"
proof -
  have "bitlen n \<le> 53" using assms by (simp add: bitlen_le_iff_power)
  moreover have "(1 :: rat) \<le> of_int n" using assms(1) by simp
  ultimately show ?thesis by (simp add: binary_exponent_def)
qed

lemma fl64_int:
  assumes "\<bar>n\<bar> < 2 ^ 53"
  shows "fl64 (of_int n) = of_int n"
proof (cases "n = 0")
  case False
  define e where "e = binary_exponent (of_int \<bar>n\<bar>)"
  have "e \<le> 52" using binary_exponent_int [of "\<bar>n\<bar>"] False assms by (simp add: e_def)
  then obtain k where k: "52 - e = int k" by (metis diff_ge_0_iff_ge nonneg_int_cases)
  have "(of_int \<bar>n\<bar> :: rat) * 2 powi (52 - e) = of_int (\<bar>n\<bar> * 2 ^ k)"
    by (simp add: k power_int_of_nat)
  then have "round_even (\<bar>of_int n\<bar> * 2 powi (52 - e)) = \<bar>n\<bar> * 2 ^ k"
    by (metis of_int_abs round_even_of_int)
  moreover have "(2 :: rat) powi (e - 52) = inverse (2 ^ k)"
    using k by (metis minus_diff_eq power_int_minus power_int_of_nat)
  ultimately show ?thesis
    using False by (simp add: fl64_def Let_def e_def sgn_if abs_if split: if_splits)
qed simp

lemma fl64_diff_int:
  assumes "\<bar>a - b\<bar> < 2 ^ 53"
  shows "fl64 (of_int a - of_int b) = of_int (a - b)"
  using fl64_int [OF assms] by simp

lemma fl64_mult_int:
  assumes "\<bar>a * b\<bar> < 2 ^ 53"
  shows "fl64 (of_int a * of_int b) = of_int (a * b)"
  using fl64_int [OF assms] by simp

text \<open>Two values rounded by the hardware: \<open>0.1 + 0.2\<close>, and \<open>5 * (1 - 0.15)\<close>, as the shaper computes it.\<close>

lemma fl64_samples:
  "fl64 (fl64 (1 / 10) + fl64 (2 / 10)) \<noteq> fl64 (3 / 10)"
  "fl64 (1 / 10) = 3602879701896397 / 36028797018963968"
  by code_simp+

end
