(* ===== verification/Traffic_Profile.thy ===== *)
theory Traffic_Profile
  imports Prelude Go_Float
begin

text \<open>
  The empirical traffic distributions, \<^verbatim>\<open>internal/profile\<close>: histograms, the profile, its loading and
  the built-in one. The JSON package and the file system are parameters. The numbers of the
  built-in profile are integers and so exact as \<^verbatim>\<open>float64\<close>.
\<close>

record bin =
  bin_v :: rat
  bin_w :: rat

type_synonym histogram = "bin list"

record profile =
  pf_name :: string
  pf_description :: string
  packet_size_up :: histogram
  packet_size_down :: histogram
  iat_up :: histogram
  iat_down :: histogram
  burst_size :: histogram
  burst_gap :: histogram
  pf_conn_lifetime :: histogram
  asymmetry_ratio :: rat

definition load_profile ::
  "(string \<Rightarrow> go_error + string) \<Rightarrow> (string \<Rightarrow> go_error + profile) \<Rightarrow> string \<Rightarrow> go_error + profile" where
  "load_profile read_file unmarshal path =
     (case read_file path of
        Inl e \<Rightarrow> Inl (Wrapf ''profile: read %s: %w'' e)
      | Inr data \<Rightarrow>
          (case unmarshal data of
             Inl e \<Rightarrow> Inl (Wrapf ''profile: parse %s: %w'' e)
           | Inr p \<Rightarrow> Inr p))"

definition parse_profile :: "(string \<Rightarrow> go_error + profile) \<Rightarrow> string \<Rightarrow> go_error + profile" where
  "parse_profile unmarshal data =
     (case unmarshal data of
        Inl e \<Rightarrow> Inl (Wrapf ''profile: parse: %w'' e)
      | Inr p \<Rightarrow> Inr p)"

definition bins :: "(nat \<times> nat) list \<Rightarrow> histogram" where
  "bins vws = map (\<lambda>(v, w). \<lparr>bin_v = of_nat v, bin_w = of_nat w\<rparr>) vws"

definition default_profile :: profile where
  "default_profile =
     \<lparr>pf_name = ''generic_https'',
      pf_description = ''Generic HTTPS browsing (news, APIs, images)'',
      packet_size_up = bins [(0, 5), (40, 15), (100, 10), (200, 8), (350, 12), (500, 8), (700, 5),
        (1000, 3), (1300, 2), (1400, 1)],
      packet_size_down = bins [(0, 3), (40, 8), (100, 5), (200, 4), (500, 6), (800, 5), (1100, 8),
        (1300, 12), (1400, 20), (1452, 15)],
      iat_up = bins [(50, 5), (200, 10), (1000, 15), (5000, 12), (20000, 10), (100000, 8),
        (500000, 5), (2000000, 3), (5000000, 2)],
      iat_down = bins [(30, 8), (100, 15), (500, 12), (2000, 10), (10000, 8), (50000, 6),
        (200000, 4), (1000000, 3)],
      burst_size = bins [(1, 15), (2, 12), (3, 10), (5, 8), (8, 6), (12, 4), (20, 3), (40, 2), (80, 1)],
      burst_gap = bins [(5, 8), (20, 12), (50, 10), (100, 8), (300, 6), (1000, 5), (3000, 3),
        (10000, 2)],
      pf_conn_lifetime = bins [(30, 5), (60, 8), (120, 10), (300, 12), (600, 8), (900, 5), (1800, 3)],
      asymmetry_ratio = 5\<rparr>"

text \<open>A histogram the samplers can use: non-empty, positive weights, increasing values from zero up.\<close>

definition proper_histogram :: "histogram \<Rightarrow> bool" where
  "proper_histogram h \<longleftrightarrow>
     h \<noteq> [] \<and> list_all (\<lambda>b. 0 < bin_w b \<and> 0 \<le> bin_v b) h \<and> sorted_wrt (<) (map bin_v h)"

lemma default_profile_proper:
  "list_all (\<lambda>f. proper_histogram (f default_profile))
     [packet_size_up, packet_size_down, iat_up, iat_down, burst_size, burst_gap, pf_conn_lifetime]"
  by (simp add: proper_histogram_def default_profile_def bins_def)

end
