(* ===== verification/Shaper.thy ===== *)
theory Shaper
  imports Mux_Conn Traffic_Profile "HOL-Library.Stream"
begin

text \<open>
  The traffic shaper, \<^verbatim>\<open>internal/shaper/{distribution,burst,asymmetry,shaper}.go\<close>: histogram sampling,
  bursts, the download:upload ratio and the padding that restores it. Numbers are \<^verbatim>\<open>float64\<close>
  values, rounded after each operation (\<open>Go_Float\<close>); \<^verbatim>\<open>rng.Float64()\<close> takes the next number of the
  sampler's stream; the clock is an argument; times are nanoseconds. The byte counters are \<^verbatim>\<open>int64\<close> in the
  program; no connection gets near their bound.
\<close>

section \<open>Sampling\<close>

record sampler =
  sm_bins :: histogram
  sm_cumul :: "rat list"
  sm_total :: rat
  sm_rng :: "rat stream"
  sm_jitter :: bool

text \<open>The loop of \<^verbatim>\<open>NewSampler\<close> over the bins, with the running total.\<close>

fun cumulate :: "rat \<Rightarrow> histogram \<Rightarrow> rat list \<times> rat" where
  "cumulate t [] = ([], t)"
| "cumulate t (b # bs) =
     (let t' = fl64 (t + bin_w b) in case cumulate t' bs of (cs, e) \<Rightarrow> (t' # cs, e))"

definition new_sampler :: "histogram \<Rightarrow> bool \<Rightarrow> rat stream \<Rightarrow> sampler" where
  "new_sampler h jitter rng =
     (case cumulate 0 h of
        (cs, t) \<Rightarrow> \<lparr>sm_bins = h, sm_cumul = cs, sm_total = t, sm_rng = rng, sm_jitter = jitter\<rparr>)"

definition seed_from :: "sampler \<Rightarrow> rat stream \<Rightarrow> sampler" where
  "seed_from s rng = s\<lparr>sm_rng := rng\<rparr>"

text \<open>The first index whose threshold reaches \<open>r\<close>; zero when none does.\<close>

fun first_reaching :: "rat \<Rightarrow> nat \<Rightarrow> rat list \<Rightarrow> nat" where
  "first_reaching r i [] = 0"
| "first_reaching r i (c # cs) = (if r \<le> c then i else first_reaching r (Suc i) cs)"

definition half_width :: "histogram \<Rightarrow> nat \<Rightarrow> rat" where
  "half_width bs idx =
     (if idx = 0 \<and> 1 < length bs then fl64 (fl64 (bin_v (bs ! 1) - bin_v (bs ! 0)) / 2)
      else if idx = length bs - 1 then fl64 (fl64 (bin_v (bs ! idx) - bin_v (bs ! (idx - 1))) / 2)
      else fl64 (fl64 (bin_v (bs ! (idx + 1)) - bin_v (bs ! (idx - 1))) / 4))"

definition sample :: "sampler \<Rightarrow> rat \<times> sampler" where
  "sample s =
     (if sm_bins s = [] then (0, s)
      else
        let r = fl64 (shd (sm_rng s) * sm_total s);
            rng1 = stl (sm_rng s);
            idx = first_reaching r 0 (sm_cumul s);
            v = bin_v (sm_bins s ! idx)
        in if sm_jitter s \<and> 1 < length (sm_bins s) then
             let u = fl64 (fl64 (shd rng1 * 2) - 1);
                 w = fl64 (v + fl64 (u * half_width (sm_bins s) idx))
             in (if w < 0 then 0 else w, s\<lparr>sm_rng := stl rng1\<rparr>)
           else (v, s\<lparr>sm_rng := rng1\<rparr>))"

definition sample_int :: "sampler \<Rightarrow> int \<times> sampler" where
  "sample_int s = (case sample s of (v, s') \<Rightarrow> (to_int (fl64 (v + 1 / 2)), s'))"

definition microsecond :: int where
  "microsecond = 1000"

definition millisec :: int where
  "millisec = 1000000"

definition sample_duration :: "sampler \<Rightarrow> int \<times> sampler" where
  "sample_duration s = (case sample s of (v, s') \<Rightarrow> (to_int v * microsecond, s'))"

definition sample_duration_ms :: "sampler \<Rightarrow> int \<times> sampler" where
  "sample_duration_ms s = (case sample s of (v, s') \<Rightarrow> (to_int v * millisec, s'))"

definition sample_duration_sec :: "sampler \<Rightarrow> int \<times> sampler" where
  "sample_duration_sec s = (case sample s of (v, s') \<Rightarrow> (to_int v * second, s'))"

section \<open>Bursts\<close>

record burst_controller =
  bc_size :: sampler
  bc_gap :: sampler
  bc_remaining :: int
  bc_next :: int

definition at_least_one :: "int \<Rightarrow> int" where
  "at_least_one n = (if n < 1 then 1 else n)"

definition start_new_burst :: "int \<Rightarrow> burst_controller \<Rightarrow> burst_controller" where
  "start_new_burst now bc =
     (case sample_int (bc_size bc) of
        (n, s) \<Rightarrow> bc\<lparr>bc_size := s, bc_remaining := at_least_one n, bc_next := now\<rparr>)"

definition new_burst_controller ::
  "int \<Rightarrow> histogram \<Rightarrow> histogram \<Rightarrow> rat stream \<Rightarrow> rat stream \<Rightarrow> burst_controller" where
  "new_burst_controller now sizes gaps rng1 rng2 =
     start_new_burst now
       \<lparr>bc_size = new_sampler sizes True rng1, bc_gap = new_sampler gaps True rng2, bc_remaining = 0,
        bc_next = 0\<rparr>"

definition should_send :: "int \<Rightarrow> burst_controller \<Rightarrow> burst_controller \<times> bool \<times> int" where
  "should_send now bc =
     (if now < bc_next bc then (bc, False, bc_next bc - now)
      else if bc_remaining bc \<le> 0 then
        (case sample_duration_ms (bc_gap bc) of
           (gap, g) \<Rightarrow>
             (case sample_int (bc_size bc) of
                (n, s) \<Rightarrow>
                  (bc\<lparr>bc_gap := g, bc_next := now + gap, bc_size := s,
                      bc_remaining := at_least_one n\<rparr>, False, gap)))
      else (bc, True, 0))"

definition burst_frame_sent :: "burst_controller \<Rightarrow> burst_controller" where
  "burst_frame_sent bc = bc\<lparr>bc_remaining := bc_remaining bc - 1\<rparr>"

definition max_delay :: int where
  "max_delay = 100 * millisec"

section \<open>The asymmetry enforcer\<close>

record asymmetry =
  as_target :: rat
  as_up :: int
  as_down :: int

definition new_asymmetry :: "rat \<Rightarrow> asymmetry" where
  "new_asymmetry r = \<lparr>as_target = (if r \<le> 0 then 5 else r), as_up = 0, as_down = 0\<rparr>"

definition asym_record_up :: "int \<Rightarrow> asymmetry \<Rightarrow> asymmetry" where
  "asym_record_up n a = a\<lparr>as_up := as_up a + n\<rparr>"

definition asym_record_down :: "int \<Rightarrow> asymmetry \<Rightarrow> asymmetry" where
  "asym_record_down n a = a\<lparr>as_down := as_down a + n\<rparr>"

text \<open>\<^verbatim>\<open>float64\<close> of an \<^verbatim>\<open>int64\<close> counter.\<close>

definition to_float :: "int \<Rightarrow> rat" where
  "to_float n = fl64 (of_int n)"

definition current_ratio :: "asymmetry \<Rightarrow> rat" where
  "current_ratio a = (if as_up a = 0 then 0 else fl64 (to_float (as_down a) / to_float (as_up a)))"

definition padding_needed :: "rat \<Rightarrow> asymmetry \<Rightarrow> int \<times> int" where
  "padding_needed tol a =
     (if as_up a = 0 then (0, 0)
      else
        let ratio = current_ratio a;
            low = fl64 (as_target a * fl64 (1 - tol));
            high = fl64 (as_target a * fl64 (1 + tol))
        in if low \<le> ratio \<and> ratio \<le> high then (0, 0)
           else if ratio < low then
             let need = to_int (fl64 (fl64 (as_target a * to_float (as_up a)) - to_float (as_down a)))
             in (if need < 0 then 0 else need, 0)
           else
             let need = to_int (fl64 (fl64 (to_float (as_down a) / as_target a) - to_float (as_up a)))
             in (0, if need < 0 then 0 else need))"

definition asym_stats :: "asymmetry \<Rightarrow> int \<times> int" where
  "asym_stats a = (as_up a, as_down a)"

section \<open>The shaper\<close>

record shaper_config =
  sc_profile :: "profile option"
  sc_enabled :: bool
  sc_tolerance :: rat
  sc_interval :: int

definition shaper_profile :: "shaper_config \<Rightarrow> profile" where
  "shaper_profile c = (case sc_profile c of Some p \<Rightarrow> p | None \<Rightarrow> default_profile)"

definition tolerance :: "shaper_config \<Rightarrow> rat" where
  "tolerance c = (if 0 < sc_tolerance c then sc_tolerance c else fl64 (15 / 100))"

definition padding_interval :: "shaper_config \<Rightarrow> int" where
  "padding_interval c = (if 0 < sc_interval c then sc_interval c else 5 * second)"

record shaper =
  sh_cfg :: shaper_config
  sh_asym :: asymmetry
  sh_burst :: burst_controller
  sh_lifetime :: sampler
  sh_stopped :: bool
  sh_padding :: bool
  sh_keepalive :: bool

text \<open>The samplers of packet sizes and inter-arrival times are built but never drawn from.\<close>

definition new_shaper :: "int \<Rightarrow> (nat \<Rightarrow> rat stream) \<Rightarrow> shaper_config \<Rightarrow> shaper" where
  "new_shaper now rng c =
     (let p = shaper_profile c
      in \<lparr>sh_cfg = c, sh_asym = new_asymmetry (asymmetry_ratio p),
          sh_burst = new_burst_controller now (burst_size p) (burst_gap p) (rng 0) (rng 1),
          sh_lifetime = new_sampler (pf_conn_lifetime p) True (rng 2), sh_stopped = False,
          sh_padding = False, sh_keepalive = False\<rparr>)"

definition shaper_start :: "shaper \<Rightarrow> shaper" where
  "shaper_start s =
     (if \<not> sc_enabled (sh_cfg s) then s else s\<lparr>sh_padding := True, sh_keepalive := True\<rparr>)"

definition shaper_stop :: "shaper \<Rightarrow> shaper" where
  "shaper_stop s = (if sh_stopped s then s else s\<lparr>sh_stopped := True\<rparr>)"

definition record_up :: "int \<Rightarrow> shaper \<Rightarrow> shaper" where
  "record_up n s = (if sc_enabled (sh_cfg s) then s\<lparr>sh_asym := asym_record_up n (sh_asym s)\<rparr> else s)"

definition record_down :: "int \<Rightarrow> shaper \<Rightarrow> shaper" where
  "record_down n s = (if sc_enabled (sh_cfg s) then s\<lparr>sh_asym := asym_record_down n (sh_asym s)\<rparr> else s)"

definition should_delay :: "int \<Rightarrow> shaper \<Rightarrow> shaper \<times> bool \<times> int" where
  "should_delay now s =
     (if \<not> sc_enabled (sh_cfg s) then (s, False, 0)
      else case should_send now (sh_burst s) of
        (b, ok, wait) \<Rightarrow>
          if ok then (s\<lparr>sh_burst := b\<rparr>, False, 0)
          else (s\<lparr>sh_burst := b\<rparr>, True, if max_delay < wait then max_delay else wait))"

definition shaper_frame_sent :: "shaper \<Rightarrow> shaper" where
  "shaper_frame_sent s =
     (if sc_enabled (sh_cfg s) then s\<lparr>sh_burst := burst_frame_sent (sh_burst s)\<rparr> else s)"

definition sample_lifetime :: "shaper \<Rightarrow> int \<times> shaper" where
  "sample_lifetime s =
     (case sample_duration_sec (sh_lifetime s) of (d, l) \<Rightarrow> (d, s\<lparr>sh_lifetime := l\<rparr>))"

definition max_chunk :: int where
  "max_chunk = 8192"

text \<open>
  The inner loop of \<^verbatim>\<open>paddingLoop\<close>: \<open>rnd k\<close> are the random bytes when \<open>k\<close> bytes are left. The flag says
  whether the goroutine goes on.
\<close>

function pad_chunks ::
  "'w writer \<Rightarrow> (int \<Rightarrow> nat \<Rightarrow> go_error + bytes) \<Rightarrow> int \<Rightarrow> int \<Rightarrow> int \<Rightarrow> asymmetry \<Rightarrow> 'w conn \<Rightarrow>
   asymmetry \<times> 'w conn \<times> bool" where
  "pad_chunks wr rnd pad down_pad up_pad a c =
     (if pad \<le> 0 then (a, c, True)
      else
        let chunk = (if max_chunk < pad then max_chunk else pad)
        in (case send_padding wr c chunk (rnd pad) of
              (c', Some e) \<Rightarrow> (a, c', False)
            | (c', None) \<Rightarrow>
                if 0 < down_pad
                then pad_chunks wr rnd (pad - chunk) (down_pad - chunk) up_pad (asym_record_down chunk a) c'
                else pad_chunks wr rnd (pad - chunk) down_pad (up_pad - chunk) (asym_record_up chunk a) c'))"
  by pat_completeness auto
termination
  by (relation "measure (\<lambda>(wr, rnd, pad, d, u, a, c). nat pad)") (auto simp: max_chunk_def split: if_splits)

text \<open>
  One turn of each background loop. When the stop channel is closed and the ticker has fired too,
  \<^verbatim>\<open>select\<close> takes either case: \<open>tick\<close> says that it took the ticker's.
\<close>

definition padding_tick ::
  "bool \<Rightarrow> 'w writer \<Rightarrow> (int \<Rightarrow> nat \<Rightarrow> go_error + bytes) \<Rightarrow> shaper \<Rightarrow> 'w conn \<Rightarrow> shaper \<times> 'w conn" where
  "padding_tick tick wr rnd s c =
     (if \<not> sh_padding s then (s, c)
      else if sh_stopped s \<and> \<not> tick then (s\<lparr>sh_padding := False\<rparr>, c)
      else
        case padding_needed (tolerance (sh_cfg s)) (sh_asym s) of
          (down_pad, up_pad) \<Rightarrow>
            (case pad_chunks wr rnd (down_pad + up_pad) down_pad up_pad (sh_asym s) c of
               (a, c', go_on) \<Rightarrow> (s\<lparr>sh_asym := a, sh_padding := go_on\<rparr>, c')))"

definition keepalive_tick ::
  "bool \<Rightarrow> 'w writer \<Rightarrow> go_error + bytes \<Rightarrow> shaper \<Rightarrow> 'w conn \<Rightarrow> shaper \<times> 'w conn" where
  "keepalive_tick tick wr rnd s c =
     (if \<not> sh_keepalive s then (s, c)
      else if sh_stopped s \<and> \<not> tick then (s\<lparr>sh_keepalive := False\<rparr>, c)
      else (case send_ping wr c rnd of
          (c', Some e) \<Rightarrow> (s\<lparr>sh_keepalive := False\<rparr>, c')
        | (c', None) \<Rightarrow> (s, c')))"


section \<open>Sampling stays in the histogram\<close>

lemma first_reaching_less: "cs \<noteq> [] \<Longrightarrow> first_reaching r i cs < i + length cs"
proof (induction cs arbitrary: i)
  case (Cons c cs)
  then show ?case by (cases "cs = []") (use Cons.IH [of "Suc i"] in auto)
qed simp

lemma length_cumulate: "length (fst (cumulate t h)) = length h"
  by (induction h arbitrary: t) (auto simp: Let_def split: prod.splits, metis fst_conv)

definition sampler_ok :: "sampler \<Rightarrow> bool" where
  "sampler_ok s \<longleftrightarrow>
     length (sm_cumul s) = length (sm_bins s) \<and> list_all (\<lambda>b. 0 \<le> bin_v b) (sm_bins s)"

lemma sampler_ok_new: "list_all (\<lambda>b. 0 \<le> bin_v b) h \<Longrightarrow> sampler_ok (new_sampler h j rng)"
  using length_cumulate [of 0 h] by (auto simp: new_sampler_def sampler_ok_def split: prod.splits)

lemma sample_value:
  assumes "sampler_ok s" and "sample s = (v, s')"
  shows "0 \<le> v" and "sampler_ok s'"
    and "\<not> sm_jitter s \<Longrightarrow> sm_bins s \<noteq> [] \<Longrightarrow> v \<in> bin_v ` set (sm_bins s)"
proof -
  have idx: "first_reaching r 0 (sm_cumul s) < length (sm_bins s)" if "sm_bins s \<noteq> []" for r
    using first_reaching_less [of "sm_cumul s" r 0] assms(1) that
    by (cases "sm_cumul s = []") (auto simp: sampler_ok_def)
  then show "0 \<le> v"
    using assms by (auto simp: sample_def sampler_ok_def list_all_length Let_def split: if_splits)
  show "sampler_ok s'"
    using assms by (auto simp: sample_def sampler_ok_def Let_def split: if_splits)
  show "\<not> sm_jitter s \<Longrightarrow> sm_bins s \<noteq> [] \<Longrightarrow> v \<in> bin_v ` set (sm_bins s)"
    using assms idx by (auto simp: sample_def Let_def)
qed

text \<open>
  The jitter is documented as half the distance to the nearest bin. Between two unequal gaps it is a
  quarter of their sum: 11.25 around the burst gap of 20 ms, whose nearest neighbour is 15 away.
\<close>

lemma jitter_exceeds_half_distance:
  "half_width (burst_gap default_profile) 1 = 45 / 4 \<and> (45 / 4 :: rat) > 15 / 2"
proof -
  have "fl64 (fl64 45 / 4) = 45 / 4" by code_simp
  then show ?thesis by (simp add: half_width_def default_profile_def bins_def)
qed

lemma sample_int_ok:
  "sampler_ok s \<Longrightarrow> sample_int s = (n, s') \<Longrightarrow> sampler_ok s'"
  by (auto simp: sample_int_def split: prod.splits dest: sample_value)

lemma sample_duration_ms_ok:
  "sampler_ok s \<Longrightarrow> sample_duration_ms s = (d, s') \<Longrightarrow> 0 \<le> d \<and> sampler_ok s'"
  by (auto simp: sample_duration_ms_def millisec_def split: prod.splits dest: sample_value)

section \<open>A sender that keeps to the bursts\<close>

text \<open>
  The documented use: ask, wait as long as told, ask again, send, report the frame. The gaps
  between the sends of one run are the arguments; the result is the list of the times at which
  the frames went out, and \<open>None\<close> if a second question was refused too.
\<close>

fun send_all :: "int list \<Rightarrow> int \<Rightarrow> burst_controller \<Rightarrow> (int list \<times> burst_controller) option" where
  "send_all [] now bc = Some ([], bc)"
| "send_all (d # ds) now bc =
     (case should_send (now + d) bc of
        (bc1, True, w) \<Rightarrow>
          map_option (\<lambda>(ts, b). ((now + d) # ts, b)) (send_all ds (now + d) (burst_frame_sent bc1))
      | (bc1, False, w) \<Rightarrow>
          (case should_send (now + d + w) bc1 of
             (bc2, True, _) \<Rightarrow>
               map_option (\<lambda>(ts, b). ((now + d + w) # ts, b))
                 (send_all ds (now + d + w) (burst_frame_sent bc2))
           | (bc2, False, _) \<Rightarrow> None))"

definition burst_inv :: "int \<Rightarrow> burst_controller \<Rightarrow> bool" where
  "burst_inv now bc \<longleftrightarrow>
     sampler_ok (bc_size bc) \<and> sampler_ok (bc_gap bc) \<and> (now < bc_next bc \<longrightarrow> 0 < bc_remaining bc)"

lemma should_send_refused:
  assumes "burst_inv now bc" and "should_send now bc = (bc', False, w)"
  shows "0 \<le> w" and "should_send (now + w) bc' = (bc', True, 0)" and "burst_inv (now + w) bc'"
    and "bc_next bc' = now + w"
  using assms
  by (auto simp: should_send_def burst_inv_def at_least_one_def split: if_splits prod.splits
      dest: sample_int_ok sample_duration_ms_ok)

lemma should_send_granted:
  "should_send now bc = (bc', True, w) \<Longrightarrow> bc' = bc \<and> bc_next bc \<le> now \<and> 0 < bc_remaining bc"
  by (auto simp: should_send_def split: if_splits prod.splits)

lemma burst_inv_sent: "burst_inv now bc \<Longrightarrow> bc_next bc \<le> now \<Longrightarrow> now \<le> t \<Longrightarrow> burst_inv t (burst_frame_sent bc)"
  by (simp add: burst_inv_def burst_frame_sent_def)

lemma burst_inv_later: "burst_inv now bc \<Longrightarrow> now \<le> t \<Longrightarrow> burst_inv t bc"
  by (simp add: burst_inv_def)

lemma send_all_sends:
  "burst_inv now bc \<Longrightarrow> list_all ((\<le>) 0) ds \<Longrightarrow>
   \<exists>ts b. send_all ds now bc = Some (ts, b) \<and> length ts = length ds \<and> sorted (now # ts)"
proof (induction ds arbitrary: now bc)
  case (Cons d ds)
  then have inv: "burst_inv (now + d) bc" and d: "0 \<le> d" by (auto intro: burst_inv_later)
  obtain bc1 ok w where ask: "should_send (now + d) bc = (bc1, ok, w)" by (metis prod_cases3)
  show ?case
  proof (cases ok)
    case True
    with should_send_granted [of "now + d" bc bc1 w] ask have g: "bc1 = bc" "bc_next bc \<le> now + d"
      by auto
    from Cons.IH [OF burst_inv_sent [OF inv g(2) order_refl]] Cons.prems(2) g ask True d
    show ?thesis by force
  next
    case False
    note r = should_send_refused [OF inv ask [unfolded eq_False [THEN iffD2, OF False]]]
    from Cons.IH [OF burst_inv_sent [OF r(3) _ order_refl]] r Cons.prems(2)
    obtain ts b where "send_all ds (now + d + w) (burst_frame_sent bc1) = Some (ts, b)"
      "length ts = length ds" "sorted ((now + d + w) # ts)" by auto
    with ask False r d show ?thesis by force
  qed
qed simp



section \<open>Padding\<close>

definition padding_of :: "bytes \<Rightarrow> frame" where
  "padding_of p = control_frame type_padding 0 p"

text \<open>The connection after the frames \<open>fs\<close> went out, one write each.\<close>

definition after_writing :: "frame list \<Rightarrow> pipe_out conn \<Rightarrow> pipe_out conn" where
  "after_writing fs c =
     c\<lparr>c_enc := (c_enc c)\<lparr>out_chunks := out_chunks (c_enc c) @ map encode_frame fs\<rparr>\<rparr>"

lemma after_writing_more:
  "after_writing gs (after_writing fs c) = after_writing (fs @ gs) c"
  "after_writing [] c = c"
  "out_closed (c_enc (after_writing fs c)) = out_closed (c_enc c)"
  by (simp_all add: after_writing_def)

text \<open>The random source works: every read fills the buffer.\<close>

definition full_reads :: "(int \<Rightarrow> nat \<Rightarrow> go_error + bytes) \<Rightarrow> bool" where
  "full_reads rnd \<longleftrightarrow> (\<forall>k n. \<exists>p. rnd k n = Inr p \<and> length p = n)"

lemma send_padding_pipe:
  assumes "\<not> out_closed (c_enc c)" and "0 < n" and "n \<le> max_chunk" and "rnd (nat n) = Inr p"
    and "length p = nat n"
  shows "send_padding pipe_write c n rnd = (after_writing [padding_of p] c, None)"
  using assms
  by (auto simp: send_padding_def send_frame_def write_frame_def pipe_write_def after_writing_def
      padding_of_def control_frame_def max_chunk_def max_payload_def)

declare pad_chunks.simps [simp del]

lemma asym_record_record:
  "asym_record_down m (asym_record_down n a) = asym_record_down (n + m) a"
  "asym_record_up m (asym_record_up n a) = asym_record_up (n + m) a"
  by (simp_all add: asym_record_down_def asym_record_up_def)

lemma pad_chunks_pipe:
  assumes "full_reads rnd" and "\<not> out_closed (c_enc c)" and "0 \<le> pad" and "d = pad \<or> d \<le> 0"
  shows "\<exists>ps. pad_chunks pipe_write rnd pad d u a c =
      ((if d = pad then asym_record_down pad a else asym_record_up pad a),
       after_writing (map padding_of ps) c, True) \<and>
    sum_list (map length ps) = nat pad \<and> (\<forall>p\<in>set ps. p \<noteq> [] \<and> int (length p) \<le> max_chunk)"
  using assms
proof (induction "nat pad" arbitrary: pad d u a c rule: less_induct)
  case less
  show ?case
  proof (cases "pad = 0")
    case True
    then show ?thesis
      by (intro exI [of _ "[]"]) (simp add: after_writing_more asym_record_down_def
          asym_record_up_def pad_chunks.simps)
  next
    case False
    define n where "n = (if max_chunk < pad then max_chunk else pad)"
    then have n: "0 < n" "n \<le> max_chunk" "n \<le> pad"
      using False less.prems(3) by (auto simp: max_chunk_def)
    obtain p where p: "rnd pad (nat n) = Inr p" "length p = nat n"
      using less.prems(1) by (auto simp: full_reads_def)
    note sent = send_padding_pipe [where rnd = "rnd pad", OF less.prems(2) n(1,2) p]
    define d' u' a' where "d' = (if 0 < d then d - n else d)"
      and "u' = (if 0 < d then u else u - n)"
      and "a' = (if 0 < d then asym_record_down n a else asym_record_up n a)"
    have step: "pad_chunks pipe_write rnd pad d u a c =
        pad_chunks pipe_write rnd (pad - n) d' u' a' (after_writing [padding_of p] c)"
      using n sent
      by (subst pad_chunks.simps) (simp add: Let_def n_def [symmetric] d'_def u'_def a'_def)
    have "nat (pad - n) < nat pad" "0 \<le> pad - n" "d' = pad - n \<or> d' \<le> 0"
      using n less.prems(4) by (auto simp: d'_def)
    from less.hyps [OF this(1) less.prems(1) _ this(2,3), of "after_writing [padding_of p] c" u' a']
    obtain ps where "pad_chunks pipe_write rnd pad d u a c =
        ((if d' = pad - n then asym_record_down (pad - n) a' else asym_record_up (pad - n) a'),
         after_writing (map padding_of (p # ps)) c, True)"
      "sum_list (map length ps) = nat (pad - n)" "\<forall>p\<in>set ps. p \<noteq> [] \<and> int (length p) \<le> max_chunk"
      using less.prems(2) step by (auto simp: after_writing_more)
    moreover have "(if d' = pad - n then asym_record_down (pad - n) a' else asym_record_up (pad - n) a') =
        (if d = pad then asym_record_down pad a else asym_record_up pad a)"
      using n less.prems(4)
      by (auto simp: a'_def d'_def asym_record_down_def asym_record_up_def)
    moreover have "p \<noteq> [] \<and> int (length p) \<le> max_chunk"
      "sum_list (map length (p # ps)) = nat pad"
      using n p calculation(2) by auto
    ultimately show ?thesis by (intro exI [of _ "p # ps"]) auto
  qed
qed

lemma padding_needed_low:
  assumes "as_target a = of_int t" and "0 < t" and "0 < as_up a" and "0 \<le> as_down a"
    and "as_down a \<le> t * as_up a" and "t * as_up a < 2 ^ 53"
    and "current_ratio a < fl64 (as_target a * fl64 (1 - tol))"
  shows "padding_needed tol a = (t * as_up a - as_down a, 0)"
proof -
  have "as_up a \<le> t * as_up a" using assms(2,3) by simp
  with assms(6) have "as_up a < 2 ^ 53" by linarith
  then have "to_float (as_up a) = of_int (as_up a)" "to_float (as_down a) = of_int (as_down a)"
    using assms(3-6) by (simp_all add: to_float_def fl64_int)
  moreover have "fl64 (of_int t * of_int (as_up a)) = (of_int (t * as_up a) :: rat)"
    using assms(2,3,6) by (intro fl64_mult_int) simp
  moreover have "fl64 (of_int (t * as_up a) - of_int (as_down a)) = (of_int (t * as_up a - as_down a) :: rat)"
    using assms(4-6) by (intro fl64_diff_int) simp
  ultimately show ?thesis
    using assms(1,3,5,7) by (simp add: padding_needed_def Let_def del: of_int_mult of_int_diff)
qed

text \<open>Inside the tolerance band, and before anything was sent, no padding goes out.\<close>

lemma padding_needed_none:
  "as_up a = 0 \<or> fl64 (as_target a * fl64 (1 - tol)) \<le> current_ratio a \<and>
     current_ratio a \<le> fl64 (as_target a * fl64 (1 + tol)) \<Longrightarrow> padding_needed tol a = (0, 0)"
  by (auto simp: padding_needed_def Let_def)

lemma padding_tick_none:
  assumes "padding_needed (tolerance (sh_cfg s)) (sh_asym s) = (0, 0)"
  shows "padding_tick True wr rnd s c = (s, c)"
  using assms by (auto simp: padding_tick_def pad_chunks.simps)



section \<open>How the shaper is used\<close>

text \<open>
  Neither binary calls \<^verbatim>\<open>RecordUp\<close> or \<^verbatim>\<open>RecordDown\<close>, so in a running program the counters are zero and
  the padding loop never sends anything.
\<close>

lemma untracked_shaper_never_pads:
  "padding_tick True wr rnd (shaper_start (new_shaper now rng cfg)) c =
     (shaper_start (new_shaper now rng cfg), c)"
  by (rule padding_tick_none)
    (simp add: padding_needed_def shaper_start_def new_shaper_def Let_def new_asymmetry_def)

text \<open>
  \<^verbatim>\<open>ShouldDelay\<close> caps the wait at 100 ms, and the burst controller does not know: a caller that
  respected the capped wait is refused again when the gap is longer.
\<close>

lemma capped_delay_still_refuses:
  assumes "sc_enabled (sh_cfg s)" and "should_delay now s = (s', True, max_delay)"
    and "now + max_delay < bc_next (sh_burst s')"
  shows "fst (snd (should_delay (now + max_delay) s'))"
proof -
  have "sc_enabled (sh_cfg s')"
    using assms(1,2) by (auto simp: should_delay_def split: prod.splits if_splits)
  with assms(3) show ?thesis by (simp add: should_delay_def should_send_def)
qed

text \<open>A gap of 300 ms: refused for 100 ms, and then for another 100 ms.\<close>

lemma capped_delay_run:
  fixes cfg :: shaper_config
  assumes "sc_enabled cfg"
  defines "s \<equiv> (new_shaper 0 (\<lambda>_. sconst 0) cfg)\<lparr>sh_burst := \<lparr>
      bc_size = new_sampler [\<lparr>bin_v = 1, bin_w = 1\<rparr>] True (sconst 0),
      bc_gap = new_sampler [\<lparr>bin_v = 300, bin_w = 1\<rparr>] True (sconst 0), bc_remaining = 0, bc_next = 0\<rparr>\<rparr>"
  shows "snd (should_delay 0 s) = (True, max_delay)"
    and "snd (should_delay max_delay (fst (should_delay 0 s))) = (True, max_delay)"
  using assms(1) fl64_int [of 1]
  by (auto simp: s_def should_delay_def new_shaper_def Let_def should_send_def sample_duration_ms_def
      sample_int_def sample_def new_sampler_def max_delay_def millisec_def to_int_def
      split: prod.splits)

end
