(* ===== verification/Transport.thy ===== *)
theory Transport
  imports Config
begin

text \<open>
  The TLS transport, \<^verbatim>\<open>internal/transport/{fingerprint,dialer,listener}.go\<close>: defaults, the client's
  \<^verbatim>\<open>Dial\<close> and the server's \<^verbatim>\<open>Listen\<close>. What the network and the TLS packages answer is an argument;
  the result lists the calls made on the sockets. Durations are nanoseconds.
\<close>

section \<open>Browser fingerprints\<close>

text \<open>The values of \<^verbatim>\<open>utls.ClientHelloID\<close> the program picks from.\<close>

datatype client_hello = HelloChrome_Auto | HelloFirefox_Auto | HelloSafari_Auto | HelloRandomized

definition fingerprint_chrome :: string where
  "fingerprint_chrome = ''chrome''"

definition fingerprint_firefox :: string where
  "fingerprint_firefox = ''firefox''"

definition fingerprint_safari :: string where
  "fingerprint_safari = ''safari''"

definition fingerprint_random :: string where
  "fingerprint_random = ''random''"

definition hello_id :: "string \<Rightarrow> client_hello" where
  "hello_id fp =
     (if fp = fingerprint_chrome \<or> fp = '''' then HelloChrome_Auto
      else if fp = fingerprint_firefox then HelloFirefox_Auto
      else if fp = fingerprint_safari then HelloSafari_Auto
      else if fp = fingerprint_random then HelloRandomized
      else HelloChrome_Auto)"

section \<open>The dialer's configuration\<close>

record 'cert dialer_config =
  dc_server_addr :: string
  dc_sni :: string
  dc_fingerprint :: string
  dc_insecure_skip_verify :: bool
  dc_root_cas :: "'cert option"
  dc_connect_timeout :: int
  dc_keep_alive :: int

text \<open>
  \<^verbatim>\<open>net.SplitHostPort\<close> of the standard library: the port starts after the last colon; a host in
  brackets must end just before it, any other host has no colon; stray brackets are refused.
\<close>

definition split_host_port :: "string \<Rightarrow> (string \<times> string) option" where
  "split_host_port s =
     (if CHR '':'' \<notin> set s then None
      else
        let port = rev (takeWhile (\<lambda>ch. ch \<noteq> CHR '':'') (rev s));
            before = take (length s - Suc (length port)) s
        in if hd s = CHR ''['' then
             if CHR '']'' \<notin> set s then None
             else
               let host = takeWhile (\<lambda>ch. ch \<noteq> CHR '']'') (tl s)
               in if before \<noteq> CHR ''['' # host @ '']'' then None
                  else if CHR ''['' \<in> set (tl s) \<or> CHR '']'' \<in> set port then None
                  else Some (host, port)
           else if CHR '':'' \<in> set before then None
           else if CHR ''['' \<in> set s \<or> CHR '']'' \<in> set s then None
           else Some (before, port))"

definition dial_sni :: "'cert dialer_config \<Rightarrow> string" where
  "dial_sni c =
     (if dc_sni c \<noteq> '''' then dc_sni c
      else (case split_host_port (dc_server_addr c) of
              None \<Rightarrow> dc_server_addr c
            | Some (host, port) \<Rightarrow> host))"

definition seconds :: "int \<Rightarrow> int" where
  "seconds n = n * 1000000000"

definition connect_timeout :: "'cert dialer_config \<Rightarrow> int" where
  "connect_timeout c = (if 0 < dc_connect_timeout c then dc_connect_timeout c else seconds 15)"

definition dial_keep_alive :: "'cert dialer_config \<Rightarrow> int" where
  "dial_keep_alive c = (if 0 < dc_keep_alive c then dc_keep_alive c else seconds 30)"

section \<open>Dialling\<close>

definition tls12 :: "16 word" where
  "tls12 = 0x0303"

definition tls13 :: "16 word" where
  "tls13 = 0x0304"

record utls_config =
  uc_server_name :: string
  uc_insecure_skip_verify :: bool
  uc_next_protos :: "string list"
  uc_min_version :: "16 word"

text \<open>What the network answers, and the calls made: the TCP dial under a limit on the time, opening
  the socket when it succeeds, the handshake, the closes.\<close>

record dial_answers =
  da_tcp :: "go_error option"
  da_tls :: "go_error option"
  da_version :: "16 word"

datatype dial_call =
    Tcp_dial int int int string
  | Tls_handshake utls_config client_hello
  | Raw_close
  | Uconn_close

definition dial ::
  "int option \<Rightarrow> dial_answers \<Rightarrow> 'cert dialer_config \<Rightarrow> (go_error + 16 word) \<times> dial_call list" where
  "dial deadline ans c =
     (if dc_server_addr c = '''' then (Inl (Errorf ''transport: ServerAddr is required'' []), [])
      else
        let limit = (case deadline of Some t \<Rightarrow> t | None \<Rightarrow> connect_timeout c);
            tcp = Tcp_dial limit (connect_timeout c) (dial_keep_alive c) (dc_server_addr c);
            cfg = \<lparr>uc_server_name = dial_sni c, uc_insecure_skip_verify = dc_insecure_skip_verify c,
                   uc_next_protos = [''h2'', ''http/1.1''], uc_min_version = tls12\<rparr>;
            tls = Tls_handshake cfg (hello_id (dc_fingerprint c))
        in (case da_tcp ans of
              Some e \<Rightarrow> (Inl (Wrapf ''transport: tcp dial: %w'' e), [tcp])
            | None \<Rightarrow>
                (case da_tls ans of
                   Some e \<Rightarrow> (Inl (Wrapf ''transport: tls handshake: %w'' e), [tcp, tls, Raw_close])
                 | None \<Rightarrow>
                     if da_version ans < tls13
                     then (Inl (Errorf ''transport: negotiated TLS %#x, require >=TLS 1.3''
                             [uint (da_version ans)]), [tcp, tls, Uconn_close])
                     else (Inr (da_version ans), [tcp, tls]))))"

section \<open>Listening\<close>

record 'cert listener_config =
  lc_listen_addr :: string
  lc_cert_file :: string
  lc_key_file :: string
  lc_certificates :: "'cert list"
  lc_next_protos :: "string list"
  lc_tcp_keep_alive :: int

definition next_protos :: "'cert listener_config \<Rightarrow> string list" where
  "next_protos c = (if lc_next_protos c \<noteq> [] then lc_next_protos c else [''h2'', ''http/1.1''])"

definition tcp_keep_alive :: "'cert listener_config \<Rightarrow> int" where
  "tcp_keep_alive c = (if 0 < lc_tcp_keep_alive c then lc_tcp_keep_alive c else seconds 30)"

record ('cert, 'l) tls_listener =
  tl_tcp :: 'l
  tl_keep_alive :: int
  tl_min_version :: "16 word"
  tl_next_protos :: "string list"
  tl_certificates :: "'cert list"

text \<open>The certificate loader and the bind call are parameters; the flag says whether it bound.\<close>

definition listen ::
  "(string \<Rightarrow> string \<Rightarrow> go_error + 'cert) \<Rightarrow> (string \<Rightarrow> go_error + 'l) \<Rightarrow> 'cert listener_config \<Rightarrow>
   (go_error + ('cert, 'l) tls_listener) \<times> bool" where
  "listen load_key_pair net_listen c =
     (if lc_listen_addr c = '''' then (Inl (Errorf ''transport: ListenAddr is required'' []), False)
      else
        let certs = (if lc_certificates c \<noteq> [] then Inr (lc_certificates c)
                     else if lc_cert_file c \<noteq> '''' \<and> lc_key_file c \<noteq> '''' then
                       (case load_key_pair (lc_cert_file c) (lc_key_file c) of
                          Inl e \<Rightarrow> Inl (Wrapf ''transport: load cert: %w'' e)
                        | Inr cert \<Rightarrow> Inr [cert])
                     else Inl (Errorf ''transport: either Certificates or CertFile+KeyFile required'' []))
        in (case certs of
              Inl e \<Rightarrow> (Inl e, False)
            | Inr cs \<Rightarrow>
                (case net_listen (lc_listen_addr c) of
                   Inl e \<Rightarrow> (Inl (Wrapf ''transport: tcp listen: %w'' e), False)
                 | Inr l \<Rightarrow>
                     (Inr \<lparr>tl_tcp = l, tl_keep_alive = tcp_keep_alive c, tl_min_version = tls12,
                           tl_next_protos = next_protos c, tl_certificates = cs\<rparr>, True))))"

text \<open>\<^verbatim>\<open>Accept\<close>: an accepted TCP connection gets the keepalive; the errors of setting it are ignored.\<close>

datatype accepted = Tcp_conn "int option" | Other_conn

definition accept ::
  "('cert, 'l) tls_listener \<Rightarrow> go_error + accepted \<Rightarrow> go_error + accepted" where
  "accept l res =
     (case res of
        Inl e \<Rightarrow> Inl e
      | Inr (Tcp_conn k) \<Rightarrow> Inr (Tcp_conn (Some (tl_keep_alive l)))
      | Inr Other_conn \<Rightarrow> Inr Other_conn)"

section \<open>Splitting host and port\<close>

text \<open>The last colon, with everything after it.\<close>

lemma port_of_append:
  assumes "CHR '':'' \<notin> set port"
  shows "rev (takeWhile (\<lambda>ch. ch \<noteq> CHR '':'') (rev (h @ CHR '':'' # port))) = port"
proof -
  have "takeWhile (\<lambda>ch. ch \<noteq> CHR '':'') (rev port @ CHR '':'' # rev h) = rev port"
    using assms by (subst takeWhile_append2) auto
  then show ?thesis by simp
qed

lemma split_plain:
  assumes "set host \<inter> {CHR '':'', CHR ''['', CHR '']''} = {}"
    and "set port \<inter> {CHR '':'', CHR ''['', CHR '']''} = {}"
  shows "split_host_port (host @ CHR '':'' # port) = Some (host, port)"
proof -
  have "hd (host @ CHR '':'' # port) \<noteq> CHR ''[''"
    using assms(1) by (cases host) auto
  then show ?thesis
    using assms port_of_append [of port host] by (auto simp: split_host_port_def Let_def)
qed

lemma split_bracketed:
  assumes "set host \<inter> {CHR ''['', CHR '']''} = {}"
    and "set port \<inter> {CHR '':'', CHR ''['', CHR '']''} = {}"
  shows "split_host_port (CHR ''['' # host @ CHR '']'' # CHR '':'' # port) = Some (host, port)"
proof -
  have "takeWhile (\<lambda>ch. ch \<noteq> CHR '']'') (host @ CHR '']'' # CHR '':'' # port) = host"
    using assms(1) by (subst takeWhile_append2) auto
  then show ?thesis
    using assms port_of_append [of port "CHR ''['' # host @ '']''"]
    by (auto simp: split_host_port_def Let_def)
qed

lemma split_portless: "CHR '':'' \<notin> set s \<Longrightarrow> split_host_port s = None"
  by (simp add: split_host_port_def)

text \<open>
  the TLS server name. An explicit SNI is used as it is; without one the name is the host of
  the server address: what precedes the port of a name or IPv4 address, the inside of the
  brackets of an IPv6 address, the whole text when there is no port.
\<close>

theorem server_name_is_host:
  assumes "set host \<inter> {CHR ''['', CHR '']''} = {}"
    and "set port \<inter> {CHR '':'', CHR ''['', CHR '']''} = {}"
  shows "(dc_sni c \<noteq> '''' \<longrightarrow> dial_sni c = dc_sni c) \<and>
    (dc_sni c = '''' \<longrightarrow>
       dial_sni (c\<lparr>dc_server_addr := ''['' @ host @ '']:'' @ port\<rparr>) = host \<and>
       (CHR '':'' \<notin> set host \<longrightarrow>
          dial_sni (c\<lparr>dc_server_addr := host @ '':'' @ port\<rparr>) = host \<and>
          dial_sni (c\<lparr>dc_server_addr := host\<rparr>) = host))"
  using split_bracketed [OF assms] split_plain [OF _ assms(2), of host] assms(1)
  by (auto simp: dial_sni_def split_portless)

lemma server_name_is_host_witness:
  "dial_sni \<lparr>dc_server_addr = ''[2001:db8::1]:443'', dc_sni = '''', dc_fingerprint = '''',
     dc_insecure_skip_verify = False, dc_root_cas = (None :: unit option), dc_connect_timeout = 0,
     dc_keep_alive = 0\<rparr> = ''2001:db8::1''"
  using server_name_is_host [of "''2001:db8::1''" "''443''" "\<lparr>dc_server_addr = '''', dc_sni = '''',
    dc_fingerprint = '''', dc_insecure_skip_verify = False, dc_root_cas = (None :: unit option),
    dc_connect_timeout = 0, dc_keep_alive = 0\<rparr>"]
  by simp

section \<open>Sockets are not leaked\<close>

definition opened_sockets :: "dial_answers \<Rightarrow> dial_call list \<Rightarrow> nat" where
  "opened_sockets ans calls =
     (if da_tcp ans = None then length (filter (\<lambda>x. case x of Tcp_dial _ _ _ _ \<Rightarrow> True | _ \<Rightarrow> False) calls)
      else 0)"

definition closed_sockets :: "dial_call list \<Rightarrow> nat" where
  "closed_sockets calls = length (filter (\<lambda>x. x = Raw_close \<or> x = Uconn_close) calls)"

text \<open>
  C39: \<^verbatim>\<open>Dial\<close> returns a connection exactly when there is an address, TCP and TLS succeed and TLS 1.3
  or later was negotiated; on every other path it returns an error and has closed the socket it opened,
  once, and no socket is closed that was returned. The handshake runs with the configured
  fingerprint and server name, under a deadline in every case.
\<close>

theorem dial_keeps_only_tls13:
  "case dial deadline ans c of
     (Inr v, calls) \<Rightarrow>
       dc_server_addr c \<noteq> '''' \<and> da_tcp ans = None \<and> da_tls ans = None \<and> v = da_version ans \<and> tls13 \<le> v \<and>
       opened_sockets ans calls = 1 \<and> closed_sockets calls = 0 \<and>
       (\<exists>t tcp cfg. calls = [Tcp_dial t (connect_timeout c) (dial_keep_alive c) (dc_server_addr c),
            Tls_handshake cfg (hello_id (dc_fingerprint c))] \<and> uc_server_name cfg = dial_sni c)
   | (Inl e, calls) \<Rightarrow>
       (dc_server_addr c = '''' \<or> da_tcp ans \<noteq> None \<or> da_tls ans \<noteq> None \<or> da_version ans < tls13) \<and>
       closed_sockets calls = opened_sockets ans calls"
  by (auto simp: dial_def Let_def opened_sockets_def closed_sockets_def not_less split: option.splits)

lemma dial_keeps_only_tls13_witness:
  "\<exists>e calls. dial None \<lparr>da_tcp = None, da_tls = None, da_version = tls12\<rparr>
      \<lparr>dc_server_addr = ''example.com:443'', dc_sni = '''', dc_fingerprint = '''',
       dc_insecure_skip_verify = False, dc_root_cas = (None :: unit option), dc_connect_timeout = 0,
       dc_keep_alive = 0\<rparr> = (Inl e, calls) \<and> closed_sockets calls = 1"
  using dial_keeps_only_tls13 [where deadline = None and ans = "\<lparr>da_tcp = None, da_tls = None, da_version = tls12\<rparr>"
      and c = "\<lparr>dc_server_addr = ''example.com:443'', dc_sni = '''', dc_fingerprint = '''',
       dc_insecure_skip_verify = False, dc_root_cas = (None :: unit option), dc_connect_timeout = 0,
       dc_keep_alive = 0\<rparr>"]
  by (simp add: dial_def Let_def tls12_def tls13_def opened_sockets_def)

text \<open>The \<^verbatim>\<open>RootCAs\<close> of the configuration is documented to override the system pool; nothing reads it.\<close>

lemma root_cas_ignored: "dial deadline ans (c\<lparr>dc_root_cas := x\<rparr>) = dial deadline ans c"
proof -
  have "dial_sni (c\<lparr>dc_root_cas := x\<rparr>) = dial_sni c"
    "connect_timeout (c\<lparr>dc_root_cas := x\<rparr>) = connect_timeout c"
    "dial_keep_alive (c\<lparr>dc_root_cas := x\<rparr>) = dial_keep_alive c"
    by (simp_all add: dial_sni_def connect_timeout_def dial_keep_alive_def split: option.split)
  then show ?thesis by (simp add: dial_def Let_def split: option.split)
qed

text \<open>The listener binds only once it has a certificate, and is bound exactly when it succeeds.\<close>

lemma listen_binds:
  "listen load bind c = (r, bound) \<Longrightarrow> bound \<longleftrightarrow> (\<exists>l. r = Inr l)"
  "listen load bind c = (Inr l, bound) \<Longrightarrow>
     tl_certificates l \<noteq> [] \<and> tl_next_protos l \<noteq> [] \<and> 0 < tl_keep_alive l"
  by (auto simp: listen_def Let_def next_protos_def tcp_keep_alive_def seconds_def
      split: if_splits sum.splits)

end
