(* ===== verification/Fallback.thy ===== *)
theory Fallback
  imports Transport "HOL-Library.AList" "HOL-Library.Sublist"
begin

text \<open>
  The cover site's reverse proxy, \<^verbatim>\<open>internal/fallback/proxy.go\<close>: the target address, the director
  that rewrites a request, and the sanitising of responses. A header is an association list from
  canonical names to values; \<^verbatim>\<open>url.Parse\<close> and the rewriting of the URL are parameters; of
  \<^verbatim>\<open>httputil.ReverseProxy\<close> the step that adds \<^verbatim>\<open>X-Forwarded-For\<close> after the director is modelled.
\<close>

type_synonym header = "(string \<times> string list) list"

record url =
  u_scheme :: string
  u_host :: string
  u_path :: string

record proxy =
  px_target :: url

definition new_proxy :: "(string \<Rightarrow> go_error + url) \<Rightarrow> string \<Rightarrow> go_error + proxy" where
  "new_proxy parse target =
     (case parse target of
        Inl e \<Rightarrow> Inl e
      | Inr u \<Rightarrow> Inr \<lparr>px_target = (if u_scheme u = '''' then u\<lparr>u_scheme := ''https''\<rparr> else u)\<rparr>)"

section \<open>Requests\<close>

record proxy_request =
  pr_host :: string
  pr_url :: url
  pr_header :: header
  pr_remote :: string

definition delete_headers :: "string list \<Rightarrow> header \<Rightarrow> header" where
  "delete_headers names h = fold AList.delete names h"

definition proxy_director ::
  "(url \<Rightarrow> proxy_request \<Rightarrow> proxy_request) \<Rightarrow> proxy \<Rightarrow> proxy_request \<Rightarrow> proxy_request" where
  "proxy_director orig p r =
     (let r1 = orig (px_target p) r
      in r1\<lparr>pr_host := u_host (px_target p),
            pr_header := delete_headers
              [''X-Forwarded-For'', ''X-Forwarded-Proto'', ''X-Forwarded-Host'', ''X-Real-Ip'']
              (pr_header r1)\<rparr>)"

text \<open>
  What \<^verbatim>\<open>ReverseProxy.ServeHTTP\<close> does next: the client's address is added unless the header is
  present with the value nil.
\<close>

definition add_forwarded_for :: "string \<Rightarrow> header \<Rightarrow> header" where
  "add_forwarded_for remote h =
     (case split_host_port remote of
        None \<Rightarrow> h
      | Some (ip, port) \<Rightarrow>
          (case map_of h ''X-Forwarded-For'' of
             None \<Rightarrow> AList.update ''X-Forwarded-For'' [ip] h
           | Some [] \<Rightarrow> h
           | Some (v # vs) \<Rightarrow>
               AList.update ''X-Forwarded-For''
                 [concat (map (\<lambda>x. x @ '', '') (v # vs)) @ ip] h))"

definition proxied_request ::
  "(url \<Rightarrow> proxy_request \<Rightarrow> proxy_request) \<Rightarrow> proxy \<Rightarrow> proxy_request \<Rightarrow> proxy_request" where
  "proxied_request orig p r =
     (let r1 = proxy_director orig p r
      in r1\<lparr>pr_header := add_forwarded_for (pr_remote r) (pr_header r1)\<rparr>)"

section \<open>Responses\<close>

definition to_lower :: "string \<Rightarrow> string" where
  "to_lower s =
     map (\<lambda>ch. let n = (of_char ch :: nat) in if 65 \<le> n \<and> n \<le> 90 then char_of (n + 32) else ch) s"

definition strings_contains :: "string \<Rightarrow> string \<Rightarrow> bool" where
  "strings_contains s part \<longleftrightarrow> sublist part s"

definition revealing_headers :: "string list" where
  "revealing_headers =
     [''Via'', ''X-Forwarded-For'', ''X-Forwarded-Proto'', ''X-Forwarded-Host'', ''X-Real-Ip'']"

definition mentions_ghost :: "string \<Rightarrow> bool" where
  "mentions_ghost v \<longleftrightarrow> strings_contains (to_lower v) ''ghost''"

definition sanitize_response :: "header \<Rightarrow> header" where
  "sanitize_response h =
     map (\<lambda>(key, vals). (key, map (\<lambda>v. if mentions_ghost v then '''' else v) vals))
       (delete_headers revealing_headers h)"

section \<open>What the prober sees\<close>

lemma delete_headers_eq: "delete_headers names h = filter (\<lambda>(k, v). k \<notin> set names) h"
proof (induction names arbitrary: h)
  case Nil
  then show ?case by (simp add: delete_headers_def case_prod_unfold)
next
  case (Cons n names)
  have "delete_headers (n # names) h = delete_headers names (AList.delete n h)"
    by (simp add: delete_headers_def)
  then show ?case
    by (auto simp: Cons AList.delete_eq filter_filter case_prod_unfold intro!: filter_cong)
qed

lemma empty_no_ghost [simp]: "\<not> mentions_ghost ''''"
  by (simp add: mentions_ghost_def to_lower_def strings_contains_def)



lemma sanitize_sample:
  "sanitize_response [(''Via'', [''1.1 x'']), (''Server'', [''nginx'']), (''X-Id'', [''My-GhOst-1'', ''a''])] =
     [(''Server'', [''nginx'']), (''X-Id'', ['''', ''a''])]"
  by code_simp

section \<open>Where the camouflage has holes\<close>

text \<open>
  The director deletes \<^verbatim>\<open>X-Forwarded-For\<close>, and the proxy then sets it to the address of the client: only a
  nil value would have kept it out.
\<close>

lemma client_address_forwarded:
  assumes "split_host_port (pr_remote r) = Some (ip, port)"
  shows "map_of (pr_header (proxied_request orig p r)) ''X-Forwarded-For'' = Some [ip]"
proof -
  have "map_of (pr_header (proxy_director orig p r)) ''X-Forwarded-For'' = None"
    by (auto simp: proxy_director_def Let_def delete_headers_eq map_of_eq_None_iff)
  with assms show ?thesis
    by (simp add: proxied_request_def add_forwarded_for_def Let_def update_conv')
qed

text \<open>
  \<^verbatim>\<open>url.Parse\<close> takes ``example.com'' as a path: the scheme is filled in, the host stays empty, and so
  does the \<^verbatim>\<open>Host\<close> of every request.
\<close>

lemma schemeless_target_has_no_host:
  assumes "parse t = Inr \<lparr>u_scheme = '''', u_host = '''', u_path = t\<rparr>"
  shows "\<exists>p. new_proxy parse t = Inr p \<and> u_scheme (px_target p) = ''https'' \<and>
    pr_host (proxy_director orig p r) = ''''"
  using assms by (simp add: new_proxy_def proxy_director_def Let_def)

end
