(* ===== verification/Tun_Device.thy ===== *)
theory Tun_Device
  imports Net_Address
begin

text \<open>
  The TUN device, \<^verbatim>\<open>internal/tun/device.go\<close>: creation through system calls and \<^verbatim>\<open>ip\<close> commands, reads
  and writes, the server's forwarding and NAT commands, and the subnet of an address. The kernel is
  a record of the descriptors open and the commands run; its answers are arguments.
  \<^verbatim>\<open>net.ParseCIDR\<close> and \<^verbatim>\<open>IPNet.String\<close> of the standard library are modelled.
\<close>

section \<open>Creating the device\<close>

record kernel =
  kn_open :: "nat list"
  kn_commands :: "string list list"

text \<open>A command's answer: the combined output, and the error when it fails.\<close>

type_synonym command_answer = "string list \<Rightarrow> string \<times> go_error option"

record tun_device =
  td_fd :: nat
  td_name :: string
  td_mtu :: int

text \<open>\<^verbatim>\<open>TUNSETIFF\<close> gets the name field and gives back the one the kernel assigned.\<close>

record tun_answers =
  ta_open :: "go_error + nat"
  ta_ioctl :: "string \<Rightarrow> go_error + string"
  ta_nonblock :: "go_error option"

definition ifname_size :: nat where
  "ifname_size = 16"

text \<open>The name field of the \<^verbatim>\<open>ifreq\<close>: a copy cut or padded with zero bytes to its size.\<close>

definition ifreq_name :: "string \<Rightarrow> string" where
  "ifreq_name n = take ifname_size (n @ replicate ifname_size (CHR 0x00))"

definition name_of_ifreq :: "string \<Rightarrow> string" where
  "name_of_ifreq b = rev (dropWhile (\<lambda>ch. ch = CHR 0x00) (rev b))"

definition run_command ::
  "command_answer \<Rightarrow> string list \<Rightarrow> kernel \<Rightarrow> kernel \<times> go_error option" where
  "run_command answer cmd k = (k\<lparr>kn_commands := kn_commands k @ [cmd]\<rparr>, snd (answer cmd))"

definition close_fd :: "nat \<Rightarrow> kernel \<Rightarrow> kernel" where
  "close_fd fd k = k\<lparr>kn_open := remove1 fd (kn_open k)\<rparr>"

definition wrap_error :: "string \<Rightarrow> kernel \<times> go_error option \<Rightarrow> kernel \<times> go_error option" where
  "wrap_error fmt r = (case r of (k, e) \<Rightarrow> (k, map_option (Wrapf fmt) e))"

text \<open>\<^verbatim>\<open>fmt.Sprint\<close> of an integer.\<close>

fun show_nat :: "nat \<Rightarrow> string" where
  "show_nat n = (if n < 10 then [digit_char n] else show_nat (n div 10) @ [digit_char (n mod 10)])"

declare show_nat.simps [simp del]

definition show_int :: "int \<Rightarrow> string" where
  "show_int n = (if n < 0 then CHR ''-'' # show_nat (nat (- n)) else show_nat (nat n))"

definition configure_addr ::
  "command_answer \<Rightarrow> tun_device \<Rightarrow> string \<Rightarrow> kernel \<Rightarrow> kernel \<times> go_error option" where
  "configure_addr answer d addr k =
     wrap_error ''tun: ip addr add %s dev %s: %s: %w''
       (run_command answer [''ip'', ''addr'', ''add'', addr, ''dev'', td_name d] k)"

definition set_mtu ::
  "command_answer \<Rightarrow> tun_device \<Rightarrow> int \<Rightarrow> kernel \<Rightarrow> kernel \<times> go_error option" where
  "set_mtu answer d mtu k =
     wrap_error ''tun: set mtu %d: %s: %w''
       (run_command answer [''ip'', ''link'', ''set'', td_name d, ''mtu'', show_int mtu] k)"

definition disable_ipv6 :: "command_answer \<Rightarrow> tun_device \<Rightarrow> kernel \<Rightarrow> kernel" where
  "disable_ipv6 answer d k =
     fst (run_command answer
       [''sysctl'', ''-w'', ''net.ipv6.conf.'' @ td_name d @ ''.disable_ipv6=1''] k)"

definition set_up :: "command_answer \<Rightarrow> tun_device \<Rightarrow> kernel \<Rightarrow> kernel \<times> go_error option" where
  "set_up answer d k =
     wrap_error ''tun: ip link set %s up: %s: %w''
       (run_command answer [''ip'', ''link'', ''set'', td_name d, ''up''] k)"

definition new_device ::
  "tun_answers \<Rightarrow> command_answer \<Rightarrow> tun_config \<Rightarrow> kernel \<Rightarrow> kernel \<times> (go_error + tun_device)" where
  "new_device ans answer cfg k =
     (case ta_open ans of
        Inl e \<Rightarrow> (k, Inl (Wrapf ''tun: open /dev/net/tun: %w'' e))
      | Inr fd \<Rightarrow>
          let k0 = k\<lparr>kn_open := fd # kn_open k\<rparr>
          in (case ta_ioctl ans (ifreq_name (tun_name cfg)) of
                Inl e \<Rightarrow> (close_fd fd k0, Inl (Wrapf ''tun: TUNSETIFF: %w'' e))
              | Inr assigned \<Rightarrow>
                  (case ta_nonblock ans of
                     Some e \<Rightarrow> (close_fd fd k0, Inl (Wrapf ''tun: set nonblock: %w'' e))
                   | None \<Rightarrow>
                       let d = \<lparr>td_fd = fd, td_name = name_of_ifreq assigned, td_mtu = tun_mtu cfg\<rparr>
                       in (case configure_addr answer d (tun_address cfg) k0 of
                             (k1, Some e) \<Rightarrow> (close_fd fd k1, Inl e)
                           | (k1, None) \<Rightarrow>
                               (case set_mtu answer d (tun_mtu cfg) k1 of
                                  (k2, Some e) \<Rightarrow> (close_fd fd k2, Inl e)
                                | (k2, None) \<Rightarrow>
                                    (case set_up answer d (disable_ipv6 answer d k2) of
                                       (k3, Some e) \<Rightarrow> (close_fd fd k3, Inl e)
                                     | (k3, None) \<Rightarrow> (k3, Inr d)))))))"

section \<open>Using it\<close>

text \<open>\<^verbatim>\<open>Read\<close> and \<^verbatim>\<open>Write\<close> of the device, over those of its file.\<close>

definition device_read :: "nat \<times> go_error option \<Rightarrow> nat \<times> go_error option" where
  "device_read r =
     (case r of (n, Some e) \<Rightarrow> (0, Some (Wrapf ''tun: read: %w'' e)) | (n, None) \<Rightarrow> (n, None))"

definition device_write :: "nat \<times> go_error option \<Rightarrow> nat \<times> go_error option" where
  "device_write r =
     (case r of (n, Some e) \<Rightarrow> (0, Some (Wrapf ''tun: write: %w'' e)) | (n, None) \<Rightarrow> (n, None))"

definition device_close :: "tun_device \<Rightarrow> kernel \<Rightarrow> kernel" where
  "device_close d k = close_fd (td_fd d) k"

definition add_route ::
  "command_answer \<Rightarrow> tun_device \<Rightarrow> string \<Rightarrow> kernel \<Rightarrow> kernel \<times> go_error option" where
  "add_route answer d cidr k =
     wrap_error ''tun: ip route add %s dev %s: %s: %w''
       (run_command answer [''ip'', ''route'', ''add'', cidr, ''dev'', td_name d] k)"

definition enable_ip_forward :: "command_answer \<Rightarrow> kernel \<Rightarrow> kernel \<times> go_error option" where
  "enable_ip_forward answer k =
     wrap_error ''tun: sysctl ip_forward: %s: %w''
       (run_command answer [''sysctl'', ''-w'', ''net.ipv4.ip_forward=1''] k)"

definition nat_rule :: "string \<Rightarrow> string \<Rightarrow> string list" where
  "nat_rule action subnet =
     [''iptables'', ''-t'', ''nat'', action, ''POSTROUTING'', ''-s'', subnet, ''-j'', ''MASQUERADE'']"

definition setup_nat :: "command_answer \<Rightarrow> string \<Rightarrow> kernel \<Rightarrow> kernel \<times> go_error option" where
  "setup_nat answer subnet k =
     wrap_error ''tun: iptables NAT %s: %s: %w'' (run_command answer (nat_rule ''-A'' subnet) k)"

definition cleanup_nat :: "command_answer \<Rightarrow> string \<Rightarrow> kernel \<Rightarrow> kernel" where
  "cleanup_nat answer subnet k = fst (run_command answer (nat_rule ''-D'' subnet) k)"

section \<open>The subnet of an address\<close>

record ip_net =
  in_ip :: bytes
  in_mask :: bytes

definition is_dotted :: "string \<Rightarrow> bool" where
  "is_dotted s \<longleftrightarrow> find (\<lambda>ch. ch \<in> {CHR ''.'', CHR '':'', CHR ''%''}) s = Some (CHR ''.'')"

text \<open>\<^verbatim>\<open>netip.ParseAddr\<close> without a zone: four bytes for the dotted form, sixteen otherwise.\<close>

definition parse_addr :: "string \<Rightarrow> bytes option" where
  "parse_addr s = (if is_dotted s then parse_ip4 s else parse_ip s)"

definition cidr_mask :: "nat \<Rightarrow> nat \<Rightarrow> bytes" where
  "cidr_mask ones len =
     map (\<lambda>i. if 8 \<le> ones - 8 * i then 0xff else NOT (drop_bit (ones - 8 * i) 0xff)) [0..<len]"

definition parse_cidr :: "string \<Rightarrow> (bytes \<times> ip_net) option" where
  "parse_cidr s =
     (if CHR ''/'' \<notin> set s then None
      else
        case cut s (CHR ''/'') of
          (addr, bits) \<Rightarrow>
            (case parse_addr addr of
               None \<Rightarrow> None
             | Some ip \<Rightarrow>
                 if bits = '''' \<or> \<not> list_all is_digit bits \<or> int (8 * length ip) < digits_val bits then None
                 else
                   let m = cidr_mask (nat (digits_val bits)) (length ip)
                   in Some (if length ip = 4 then ip4_mapped ip else ip,
                            \<lparr>in_ip = map2 (AND) ip m, in_mask = m\<rparr>)))"

text \<open>The number of leading ones of a mask, if the rest is zeros.\<close>

fun byte_ones :: "nat \<Rightarrow> byte \<Rightarrow> nat \<times> byte" where
  "byte_ones 0 v = (0, v)"
| "byte_ones (Suc k) v =
     (if v AND 0x80 \<noteq> 0 then (case byte_ones k (push_bit 1 v) of (n, r) \<Rightarrow> (Suc n, r)) else (0, v))"

fun simple_mask_length :: "bytes \<Rightarrow> nat option" where
  "simple_mask_length [] = Some 0"
| "simple_mask_length (v # vs) =
     (if v = 0xff then map_option ((+) 8) (simple_mask_length vs)
      else (case byte_ones 8 v of
              (n, r) \<Rightarrow> if r \<noteq> 0 \<or> \<not> list_all ((=) 0) vs then None else Some n))"

definition hex_char :: "nat \<Rightarrow> char" where
  "hex_char n = (if n < 10 then digit_char n else char_of (87 + n))"

definition show_hex16 :: "16 word \<Rightarrow> string" where
  "show_hex16 w =
     (let n = uint w; digit = (\<lambda>q. hex_char (nat (n div q mod 16)))
      in (if 0x1000 \<le> n then [digit 0x1000] else []) @ (if 0x100 \<le> n then [digit 0x100] else []) @
         (if 0x10 \<le> n then [digit 0x10] else []) @ [digit 1])"

text \<open>The longest run of zero groups, the first of its length, at least two long: start and end.\<close>

definition zero_run :: "16 word list \<Rightarrow> (nat \<times> nat) option" where
  "zero_run gs =
     (case fold (\<lambda>i (best, len). let l = length (takeWhile ((=) 0) (drop i gs))
                in if 2 \<le> l \<and> len < l then (i, l) else (best, len)) [0..<length gs] (255, 0) of
        (start, len) \<Rightarrow> if len = 0 then None else Some (start, start + len))"

definition show_ip6 :: "bytes \<Rightarrow> string" where
  "show_ip6 b =
     (let gs = map (\<lambda>i. get_be16 (drop (2 * i) b)) [0..<8];
          show_part = (\<lambda>ws. join_with (CHR '':'') (map show_hex16 ws))
      in case zero_run gs of
           None \<Rightarrow> show_part gs
         | Some (i, j) \<Rightarrow> show_part (take i gs) @ ''::'' @ show_part (drop j gs))"

text \<open>\<^verbatim>\<open>IP.String\<close> of a four- or sixteen-byte address.\<close>

definition show_ip :: "bytes \<Rightarrow> string" where
  "show_ip b = (case to4 (Some b) of Some v4 \<Rightarrow> show_ip4 v4 | None \<Rightarrow> show_ip6 b)"

definition hex_byte :: "byte \<Rightarrow> string" where
  "hex_byte b = [hex_char (unat b div 16), hex_char (unat b mod 16)]"

definition ip_net_string :: "ip_net \<Rightarrow> string" where
  "ip_net_string n =
     (let ip = (case to4 (Some (in_ip n)) of Some v4 \<Rightarrow> v4 | None \<Rightarrow> in_ip n)
      in if length (in_mask n) = length ip \<or> length (in_mask n) = 16 \<and> length ip = 4 then
           let m = (if length (in_mask n) = length ip then in_mask n else drop 12 (in_mask n))
           in show_ip ip @ ''/'' @
              (case simple_mask_length m of
                 Some l \<Rightarrow> show_nat l
               | None \<Rightarrow> concat (map hex_byte m))
         else ''<nil>'')"

definition subnet_from_address :: "string \<Rightarrow> go_error + string" where
  "subnet_from_address addr =
     (case parse_cidr addr of
        None \<Rightarrow> Inl (Errorf ''tun: parse CIDR %s: %w'' [])
      | Some (ip, net) \<Rightarrow> Inr (ip_net_string net))"

lemma subnet_samples:
  "subnet_from_address ''10.7.0.1/24'' = Inr ''10.7.0.0/24''"
  "subnet_from_address ''192.168.77.130/25'' = Inr ''192.168.77.128/25''"
  "subnet_from_address ''2001:db8:0:1::5/48'' = Inr ''2001:db8::/48''"
  "subnet_from_address ''::ffff:10.7.0.1/120'' = Inr ''10.7.0.0/24''"
  "subnet_from_address ''fd00:0:0:1:0:0:0:5/128'' = Inr ''fd00:0:0:1::5/128''"
  "subnet_from_address ''10.7.0.1'' = Inl (Errorf ''tun: parse CIDR %s: %w'' [])"
  "subnet_from_address ''10.7.0.1/33'' = Inl (Errorf ''tun: parse CIDR %s: %w'' [])"
  by code_simp+

section \<open>Creation is all or nothing\<close>

lemmas device_command_defs = configure_addr_def set_mtu_def disable_ipv6_def set_up_def
  wrap_error_def run_command_def close_fd_def

text \<open>
  C37: \<^verbatim>\<open>New\<close> either returns a device, its descriptor open and the address, the MTU, the IPv6 switch and
  the link set in this order by commands that succeeded, the switch aside, on the name the kernel
  assigned; or it returns an error and every descriptor it opened is closed again.
\<close>

theorem new_device_all_or_nothing:
  "case new_device ans answer cfg k of
     (k', Inl e) \<Rightarrow> kn_open k' = kn_open k
   | (k', Inr d) \<Rightarrow>
       kn_open k' = td_fd d # kn_open k \<and> td_mtu d = tun_mtu cfg \<and>
       (\<exists>assigned. ta_ioctl ans (ifreq_name (tun_name cfg)) = Inr assigned \<and> td_name d = name_of_ifreq assigned) \<and>
       (\<exists>addr mtu ipv6 up.
          addr = [''ip'', ''addr'', ''add'', tun_address cfg, ''dev'', td_name d] \<and>
          mtu = [''ip'', ''link'', ''set'', td_name d, ''mtu'', show_int (tun_mtu cfg)] \<and>
          ipv6 = [''sysctl'', ''-w'', ''net.ipv6.conf.'' @ td_name d @ ''.disable_ipv6=1''] \<and>
          up = [''ip'', ''link'', ''set'', td_name d, ''up''] \<and>
          kn_commands k' = kn_commands k @ [addr, mtu, ipv6, up] \<and>
          snd (answer addr) = None \<and> snd (answer mtu) = None \<and> snd (answer up) = None)"
  by (auto simp: new_device_def Let_def device_command_defs split: sum.splits option.splits)

text \<open>A name of up to 15 characters survives the \<^verbatim>\<open>ifreq\<close>, so that the commands are about the device asked for.\<close>

lemma name_of_ifreq_name:
  assumes "length n < ifname_size" and "CHR 0x00 \<notin> set n"
  shows "name_of_ifreq (ifreq_name n) = n"
proof -
  have "dropWhile (\<lambda>ch. ch = CHR 0x00) (replicate m (CHR 0x00) @ rev n) = rev n" for m
    using assms(2) by (induction m) (cases n rule: rev_cases; auto)+
  then show ?thesis using assms(1) by (simp add: name_of_ifreq_def ifreq_name_def)
qed

section \<open>The subnet\<close>

lemma digits_val_octet: "digits_val (show_octet b) = uint b"
proof -
  define n where "n = unat b"
  have n: "n < 256" and u: "uint b = int n"
    using unsigned_less [of b, where ?'a = nat] by (simp_all add: n_def)
  note ds = octet_digits [of n]
  consider "n < 10" | "10 \<le> n" "n < 100" | "100 \<le> n" by linarith
  then show ?thesis
  proof cases
    case 1
    then show ?thesis by (simp add: show_octet_def digits_val_def u Let_def flip: n_def)
  next
    case 2
    then have "int (n div 10) * 10 + int (n mod 10) = int n" using ds(1) by linarith
    with 2 ds(3) show ?thesis
      by (simp add: show_octet_def digits_val_def u Let_def del: of_nat_mod of_nat_div flip: n_def)
  next
    case 3
    have "(int (n div 100) * 10 + int (n div 10 mod 10)) * 10 + int (n mod 10) =
        100 * int (n div 100) + 10 * int (n div 10 mod 10) + int (n mod 10)"
      by simp
    also have "\<dots> = int n" using ds(2) by linarith
    finally have "(int (n div 100) * 10 + int (n div 10 mod 10)) * 10 + int (n mod 10) = int n" .
    with 3 ds(4) n show ?thesis
      by (simp add: show_octet_def digits_val_def u Let_def del: of_nat_mod of_nat_div flip: n_def)
  qed
qed

lemma show_nat_octet:
  assumes "n < 256"
  shows "show_nat n = show_octet (word_of_nat n)"
proof -
  have d: "n div 10 div 10 = n div 100" by (simp flip: div_mult2_eq)
  have u: "unat (word_of_nat n :: byte) = n" using assms by (simp add: unat_of_nat)
  note ds = octet_digits(3,4) [of n]
  consider "n < 10" | "10 \<le> n" "n < 100" | "100 \<le> n" by linarith
  then show ?thesis
  proof cases
    case 1
    then show ?thesis by (simp add: show_nat.simps [of n] show_octet_def u)
  next
    case 2
    with ds(1) show ?thesis
      by (simp add: show_nat.simps [of n] show_nat.simps [of "n div 10"] show_octet_def u)
  next
    case 3
    then have "\<not> n div 10 < 10" by linarith
    with 3 ds(2) assms show ?thesis
      by (simp add: show_nat.simps [of n] show_nat.simps [of "n div 10"] show_nat.simps [of "n div 100"]
          show_octet_def u d)
  qed
qed

lemma find_digits:
  "list_all is_digit xs \<Longrightarrow>
     find (\<lambda>ch. ch = CHR ''.'' \<or> ch = CHR '':'' \<or> ch = CHR ''%'') (xs @ ys) =
     find (\<lambda>ch. ch = CHR ''.'' \<or> ch = CHR '':'' \<or> ch = CHR ''%'') ys"
  by (induction xs) auto

lemma parse_addr_show: "parse_addr (show_ip4 [a, b, c, d]) = Some [a, b, c, d]"
proof -
  have "is_dotted (show_ip4 [a, b, c, d])"
    by (simp add: is_dotted_def show_ip4_def find_digits [OF show_octet_digits])
  then show ?thesis by (simp add: parse_addr_def parse_show_ip4)
qed

lemma cut_before: "sep \<notin> set s \<Longrightarrow> cut (s @ sep # t) sep = (s, t)"
  by (induction s) auto

lemma slash_not_in_ip4: "CHR ''/'' \<notin> set (show_ip4 [a, b, c, d])"
proof -
  have "CHR ''/'' \<notin> set (show_octet x)" for x
    using show_octet_digits [of x] by (auto simp: list_all_iff is_digit_def digit_val_def)
  then show ?thesis by (simp add: show_ip4_def)
qed

lemma mask_lengths: "n \<le> 32 \<Longrightarrow> simple_mask_length (cidr_mask n 4) = Some n"
proof -
  have "list_all (\<lambda>n. simple_mask_length (cidr_mask n 4) = Some n) [0..<33]" by code_simp
  then show "n \<le> 32 \<Longrightarrow> ?thesis" by (simp add: list_all_iff)
qed

text \<open>
  the subnet of an IPv4 address with a prefix length is the address with the host bits cleared
  and the same length; taking it twice changes nothing; every address of the network has the
  same subnet.
\<close>

theorem subnet_is_masked_address:
  assumes "n \<le> 32"
  shows "let mask = cidr_mask n 4;
             subnet = (\<lambda>ip. show_ip4 (map2 (AND) ip mask) @ ''/'' @ show_nat n)
         in subnet_from_address (show_ip4 [a, b, c, d] @ ''/'' @ show_nat n) = Inr (subnet [a, b, c, d]) \<and>
            subnet_from_address (subnet [a, b, c, d]) = Inr (subnet [a, b, c, d]) \<and>
            (map2 (AND) [a, b, c, d] mask = map2 (AND) [a', b', c', d'] mask \<longrightarrow>
               subnet_from_address (show_ip4 [a', b', c', d'] @ ''/'' @ show_nat n) = Inr (subnet [a, b, c, d]))"
proof -
  obtain m1 m2 m3 m4 where m: "cidr_mask n 4 = [m1, m2, m3, m4]"
    by (simp add: cidr_mask_def eval_nat_numeral)
  have m': "cidr_mask n (Suc (Suc (Suc (Suc 0)))) = [m1, m2, m3, m4]"
    using m by (simp add: eval_nat_numeral)
  have len: "simple_mask_length [m1, m2, m3, m4] = Some n"
    using mask_lengths [OF assms] by (simp only: m)
  have "uint (word_of_nat n :: byte) = int n"
    using assms by (simp add: unsigned_of_nat take_bit_nat_eq_self)
  then have num: "show_nat n \<noteq> ''''" "list_all is_digit (show_nat n)" "digits_val (show_nat n) = int n"
    using assms by (simp_all add: show_nat_octet show_octet_digits digits_val_octet)
  have one: "subnet_from_address (show_ip4 [p, q, r, s] @ ''/'' @ show_nat n) =
      Inr (show_ip4 (map2 (AND) [p, q, r, s] (cidr_mask n 4)) @ ''/'' @ show_nat n)" for p q r s
    using num assms len cut_before [OF slash_not_in_ip4 [of p q r s], of "show_nat n"]
    by (simp add: subnet_from_address_def parse_cidr_def parse_addr_show ip_net_string_def to4_def
        show_ip_def Let_def m m' del: simple_mask_length.simps)
  show ?thesis
    using one [of a b c d] one [of "a AND m1" "b AND m2" "c AND m3" "d AND m4"] one [of a' b' c' d']
    by (simp add: m)
qed

lemma subnet_is_masked_address_witness:
  "subnet_from_address (show_ip4 [10, 7, 0, 1] @ ''/'' @ show_nat 24) =
     Inr (show_ip4 (map2 (AND) [10, 7, 0, 1] (cidr_mask 24 4)) @ ''/'' @ show_nat 24)"
  using subnet_is_masked_address [of 24 10 7 0 1] by (simp add: Let_def)

end
