(* ===== verification/Startup.thy ===== *)
theory Startup
  imports Keys Traffic_Profile Fallback Tun_Device
begin

text \<open>
  The programs' entry points: \<^verbatim>\<open>main\<close> of \<^verbatim>\<open>cmd/ghost-server\<close> and \<^verbatim>\<open>cmd/ghost-client\<close> up to and after the
  part that serves, with the order of the deferred calls and the exits that skip them, and the
  key generator of \<^verbatim>\<open>cmd/ghost-tools\<close>. Files, packages, the kernel and the network are parameters; a
  program's result is what it did to the kernel or the files and its exit status.
\<close>

section \<open>The server\<close>

record ('d, 'cert, 'l) server_world =
  sw_read_file :: "string \<Rightarrow> go_error + 'd"
  sw_yaml :: "'d \<Rightarrow> go_error + server_config"
  sw_read_profile :: "string \<Rightarrow> go_error + string"
  sw_json :: "string \<Rightarrow> go_error + profile"
  sw_x25519 :: "bytes \<Rightarrow> go_error + bytes"
  sw_parse_url :: "string \<Rightarrow> go_error + url"
  sw_tun :: tun_answers
  sw_command :: command_answer
  sw_key_pair :: "string \<Rightarrow> string \<Rightarrow> go_error + 'cert"
  sw_listen :: "string \<Rightarrow> go_error + 'l"
  sw_serve :: "go_error option"

text \<open>What the server serves with.\<close>

record ('cert, 'l) server_setup =
  ss_profile :: profile
  ss_keypair :: "bytes \<times> bytes"
  ss_allowed :: "string list"
  ss_fallback :: proxy
  ss_device :: tun_device
  ss_subnet :: string
  ss_listener :: "('cert, 'l) tls_listener"

definition pick_profile ::
  "(string \<Rightarrow> go_error + string) \<Rightarrow> (string \<Rightarrow> go_error + profile) \<Rightarrow> string \<Rightarrow> go_error + profile" where
  "pick_profile read_file json path =
     (if path \<noteq> '''' then load_profile read_file json path else Inr default_profile)"

text \<open>Everything up to the listener; \<^verbatim>\<open>os.Exit\<close> is \<open>Inl\<close> of the status.\<close>

definition prepare_server ::
  "('d, 'cert, 'l) server_world \<Rightarrow> string \<Rightarrow> kernel \<Rightarrow> kernel \<times> (int + ('cert, 'l) server_setup)" where
  "prepare_server w path k =
     (case load_server (sw_read_file w) (sw_yaml w) path of
        Inl e \<Rightarrow> (k, Inl 1)
      | Inr cfg \<Rightarrow>
     (case pick_profile (sw_read_profile w) (sw_json w) (sc_profile_path cfg) of
        Inl e \<Rightarrow> (k, Inl 1)
      | Inr prof \<Rightarrow>
     (case decode_key (sc_private_key cfg) of
        Inl e \<Rightarrow> (k, Inl 1)
      | Inr priv \<Rightarrow>
     (case keypair_from_private (sw_x25519 w) priv of
        Inl e \<Rightarrow> (k, Inl 1)
      | Inr kp \<Rightarrow>
     (case new_proxy (sw_parse_url w) (sc_fallback_target cfg) of
        Inl e \<Rightarrow> (k, Inl 1)
      | Inr fb \<Rightarrow>
     (case new_device (sw_tun w) (sw_command w) (sc_tun cfg) k of
        (k1, Inl e) \<Rightarrow> (k1, Inl 1)
      | (k1, Inr d) \<Rightarrow>
     (case subnet_from_address (tun_address (sc_tun cfg)) of
        Inl e \<Rightarrow> (k1, Inl 1)
      | Inr subnet \<Rightarrow>
          let k2 = fst (enable_ip_forward (sw_command w) k1);
              k3 = fst (setup_nat (sw_command w) subnet k2)
          in (case listen (sw_key_pair w) (sw_listen w)
                \<lparr>lc_listen_addr = sc_listen cfg, lc_cert_file = sc_cert_file cfg,
                 lc_key_file = sc_key_file cfg, lc_certificates = [], lc_next_protos = [],
                 lc_tcp_keep_alive = 0\<rparr> of
                (Inl e, _) \<Rightarrow> (k3, Inl 1)
              | (Inr l, _) \<Rightarrow>
                  (k3, Inr \<lparr>ss_profile = prof, ss_keypair = kp, ss_allowed = sc_allowed_clients cfg,
                           ss_fallback = fb, ss_device = d, ss_subnet = subnet,
                           ss_listener = l\<rparr>)))))))))"

definition err_server_closed :: go_error where
  "err_server_closed = Errorf ''http: Server closed'' []"

text \<open>A return from \<^verbatim>\<open>main\<close> runs the deferred calls, an \<^verbatim>\<open>os.Exit\<close> does not.\<close>

definition server_main ::
  "bool \<Rightarrow> ('d, 'cert, 'l) server_world \<Rightarrow> string \<Rightarrow> kernel \<Rightarrow> kernel \<times> int" where
  "server_main show_version w path k =
     (if show_version then (k, 0)
      else
        case prepare_server w path k of
          (k1, Inl code) \<Rightarrow> (k1, code)
        | (k1, Inr s) \<Rightarrow>
            if sw_serve w \<noteq> None \<and> sw_serve w \<noteq> Some err_server_closed then (k1, 1)
            else (device_close (ss_device s) (cleanup_nat (sw_command w) (ss_subnet s) k1), 0))"

section \<open>The client\<close>

record 'd client_world =
  cw_read_file :: "string \<Rightarrow> go_error + 'd"
  cw_yaml :: "'d \<Rightarrow> go_error + client_config"
  cw_read_profile :: "string \<Rightarrow> go_error + string"
  cw_json :: "string \<Rightarrow> go_error + profile"
  cw_x25519 :: "bytes \<Rightarrow> go_error + bytes"
  cw_tun :: tun_answers
  cw_command :: command_answer
  cw_establish :: "go_error option"

record client_setup =
  cu_config :: client_config
  cu_profile :: profile
  cu_keypair :: "bytes \<times> bytes"
  cu_server_key :: bytes
  cu_device :: tun_device

text \<open>Everything up to the first session: a client with a session goes on to the session manager.\<close>

definition prepare_client ::
  "'d client_world \<Rightarrow> string \<Rightarrow> kernel \<Rightarrow> kernel \<times> (int + client_setup)" where
  "prepare_client w path k =
     (case load_client (cw_read_file w) (cw_yaml w) path of
        Inl e \<Rightarrow> (k, Inl 1)
      | Inr cfg \<Rightarrow>
     (case pick_profile (cw_read_profile w) (cw_json w) (cf_profile_path cfg) of
        Inl e \<Rightarrow> (k, Inl 1)
      | Inr prof \<Rightarrow>
     (case decode_key (cf_private_key cfg) of
        Inl e \<Rightarrow> (k, Inl 1)
      | Inr priv \<Rightarrow>
     (case keypair_from_private (cw_x25519 w) priv of
        Inl e \<Rightarrow> (k, Inl 1)
      | Inr kp \<Rightarrow>
     (case decode_key (cf_server_public_key cfg) of
        Inl e \<Rightarrow> (k, Inl 1)
      | Inr server_pub \<Rightarrow>
     (case new_device (cw_tun w) (cw_command w) (cf_tun cfg) k of
        (k1, Inl e) \<Rightarrow> (k1, Inl 1)
      | (k1, Inr d) \<Rightarrow>
          if cw_establish w \<noteq> None then (k1, Inl 1)
          else (k1, Inr \<lparr>cu_config = cfg, cu_profile = prof, cu_keypair = kp,
                        cu_server_key = server_pub, cu_device = d\<rparr>)))))))"

section \<open>Key generation\<close>

text \<open>A file has a mode and its contents; the umask clears bits of a new file's mode.\<close>

type_synonym files = "string \<Rightarrow> (32 word \<times> string) option"

record file_answers =
  fa_open :: "go_error option"
  fa_write :: "(nat \<times> go_error) option"
  fa_close :: "go_error option"

definition open_truncated :: "32 word \<Rightarrow> string \<Rightarrow> 32 word \<Rightarrow> files \<Rightarrow> files" where
  "open_truncated umask path mode fs =
     fs(path \<mapsto> (case fs path of None \<Rightarrow> (mode AND NOT umask, '''') | Some (m, _) \<Rightarrow> (m, '''')))"

definition append_file :: "string \<Rightarrow> string \<Rightarrow> files \<Rightarrow> files" where
  "append_file path s fs = (case fs path of None \<Rightarrow> fs | Some (m, t) \<Rightarrow> fs(path \<mapsto> (m, t @ s)))"

definition write_key_file ::
  "32 word \<Rightarrow> file_answers \<Rightarrow> string \<Rightarrow> string \<Rightarrow> 32 word \<Rightarrow> files \<Rightarrow> files \<times> go_error option" where
  "write_key_file umask ans path contents mode fs =
     (case fa_open ans of
        Some e \<Rightarrow> (fs, Some (Wrapf ''open %s: %w'' e))
      | None \<Rightarrow>
          let fs1 = open_truncated umask path mode fs; text = contents @ [CHR 0x0A]
          in (case fa_write ans of
                Some (n, e) \<Rightarrow> (append_file path (take n text) fs1, Some (Wrapf ''write %s: %w'' e))
              | None \<Rightarrow>
                  (append_file path text fs1, map_option (Wrapf ''close %s: %w'') (fa_close ans))))"

definition print_keys :: "string \<Rightarrow> string \<Rightarrow> bool \<Rightarrow> string \<times> int" where
  "print_keys priv pub public_only =
     (if public_only then (pub @ [CHR 0x0A], 0)
      else (''private: '' @ priv @ [CHR 0x0A] @ ''public:  '' @ pub @ [CHR 0x0A], 0))"

record keygen_flags =
  kf_error :: bool
  kf_rest :: "string list"
  kf_out :: string
  kf_public_only :: bool

definition private_mode :: "32 word" where
  "private_mode = 0x180"

definition public_mode :: "32 word" where
  "public_mode = 0x1A4"

text \<open>The files, what went to the standard output, and the status.\<close>

definition keygen_cmd ::
  "keygen_flags \<Rightarrow> go_error + bytes \<times> bytes \<Rightarrow> 32 word \<Rightarrow> file_answers \<Rightarrow> file_answers \<Rightarrow> files \<Rightarrow>
   files \<times> string \<times> int" where
  "keygen_cmd flags drawn umask ans1 ans2 fs =
     (if kf_error flags \<or> kf_rest flags \<noteq> [] then (fs, '''', 2)
      else
        case generate_keypair drawn of
          Inl e \<Rightarrow> (fs, '''', 1)
        | Inr (private_key, public_key) \<Rightarrow>
            let priv = encode_key private_key; pub = encode_key public_key
            in if kf_out flags \<noteq> '''' then
                 (case write_key_file umask ans1 (kf_out flags) priv private_mode fs of
                    (fs1, Some e) \<Rightarrow> (fs1, '''', 1)
                  | (fs1, None) \<Rightarrow>
                      (case write_key_file umask ans2 (kf_out flags @ ''.pub'') pub public_mode fs1 of
                         (fs2, Some e) \<Rightarrow> (fs2, '''', 1)
                       | (fs2, None) \<Rightarrow> (fs2, '''', 0)))
               else (fs, print_keys priv pub (kf_public_only flags)))"

definition tools_main :: "string list \<Rightarrow> (string list \<Rightarrow> int) \<Rightarrow> int" where
  "tools_main args keygen =
     (case args of
        [] \<Rightarrow> 2
      | cmd # rest \<Rightarrow>
          if cmd = ''version'' \<or> cmd = ''-version'' \<or> cmd = ''--version'' then 0
          else if cmd = ''keygen'' then keygen rest
          else if cmd = ''capture'' \<or> cmd = ''classify'' then 1
          else if cmd = ''help'' \<or> cmd = ''-h'' \<or> cmd = ''--help'' then 0
          else 2)"

section \<open>What the server leaves behind\<close>

lemma new_device_ok:
  assumes "new_device ans answer cfg k = (k', Inr d)"
  shows "kn_open k' = td_fd d # kn_open k"
    and "\<exists>cmds. kn_commands k' = kn_commands k @ cmds \<and> (\<forall>c\<in>set cmds. hd c \<noteq> ''iptables'')"
  using assms
  by (auto simp: new_device_def Let_def device_command_defs split: sum.splits option.splits)

lemma new_device_failed:
  "new_device ans answer cfg k = (k', Inl e) \<Longrightarrow> kn_open k' = kn_open k"
  by (auto simp: new_device_def Let_def device_command_defs split: sum.splits option.splits)

lemma prepare_server_ready:
  assumes "prepare_server w path k = (k', Inr s)"
  shows "kn_open k' = td_fd (ss_device s) # kn_open k"
    and "\<exists>cmds. kn_commands k' = kn_commands k @ cmds @ [nat_rule ''-A'' (ss_subnet s)] \<and>
      (\<forall>c\<in>set cmds. hd c \<noteq> ''iptables'')"
proof -
  have "\<exists>cfg k1. new_device (sw_tun w) (sw_command w) cfg k = (k1, Inr (ss_device s)) \<and>
      k' = fst (setup_nat (sw_command w) (ss_subnet s) (fst (enable_ip_forward (sw_command w) k1)))"
    using assms by (auto simp: prepare_server_def Let_def split: sum.splits prod.splits)
      (intro exI conjI, assumption, rule refl)
  then obtain cfg k1 where
    dev: "new_device (sw_tun w) (sw_command w) cfg k = (k1, Inr (ss_device s))"
    and s: "k' = fst (setup_nat (sw_command w) (ss_subnet s) (fst (enable_ip_forward (sw_command w) k1)))"
    by blast
  from new_device_ok(1) [OF dev] s show "kn_open k' = td_fd (ss_device s) # kn_open k"
    by (simp add: setup_nat_def enable_ip_forward_def wrap_error_def run_command_def)
  from new_device_ok(2) [OF dev] obtain cmds where
    "kn_commands k1 = kn_commands k @ cmds" "\<forall>c\<in>set cmds. hd c \<noteq> ''iptables''" by blast
  with s show "\<exists>cmds. kn_commands k' = kn_commands k @ cmds @ [nat_rule ''-A'' (ss_subnet s)] \<and>
      (\<forall>c\<in>set cmds. hd c \<noteq> ''iptables'')"
    by (intro exI [of _ "cmds @ [[''sysctl'', ''-w'', ''net.ipv4.ip_forward=1'']]"])
      (auto simp: setup_nat_def enable_ip_forward_def wrap_error_def run_command_def)
qed

lemma prepare_server_exit: "prepare_server w path k = (k', Inl code) \<Longrightarrow> code = 1"
  by (auto simp: prepare_server_def Let_def split: sum.splits prod.splits)


text \<open>A world in which every step works, with the answer to the bind call and the end of \<^verbatim>\<open>Serve\<close> open.\<close>

definition working_config :: server_config where
  "working_config =
     \<lparr>sc_listen = '':443'', sc_cert_file = ''c'', sc_key_file = ''k'',
      sc_private_key = encode_key (replicate 32 1), sc_allowed_clients = [],
      sc_fallback_target = ''https://example.com'', sc_tunnel_path = '''', sc_profile_path = '''',
      sc_tun = \<lparr>tun_name = ''ghost0'', tun_address = ''10.7.0.1/24'', tun_mtu = 1400, tun_dns = []\<rparr>\<rparr>"

definition working_world ::
  "go_error + nat \<Rightarrow> go_error option \<Rightarrow> (unit, unit, nat) server_world" where
  "working_world bind serve =
     \<lparr>sw_read_file = \<lambda>_. Inr (), sw_yaml = \<lambda>_. Inr working_config, sw_read_profile = \<lambda>_. Inr '''',
      sw_json = \<lambda>_. Inr default_profile, sw_x25519 = Inr,
      sw_parse_url = \<lambda>_. Inr \<lparr>u_scheme = ''https'', u_host = ''example.com'', u_path = ''''\<rparr>,
      sw_tun = \<lparr>ta_open = Inr 7, ta_ioctl = Inr, ta_nonblock = None\<rparr>, sw_command = \<lambda>_. ('''', None),
      sw_key_pair = \<lambda>_ _. Inr (), sw_listen = \<lambda>_. bind, sw_serve = serve\<rparr>"

lemma working_prepare:
  "\<exists>s. (\<not> isl bind \<longrightarrow> ss_subnet s = ''10.7.0.0/24'' \<and> td_fd (ss_device s) = 7) \<and>
     prepare_server (working_world bind serve) '''' \<lparr>kn_open = [], kn_commands = []\<rparr> =
     (\<lparr>kn_open = [7], kn_commands =
         [[''ip'', ''addr'', ''add'', ''10.7.0.1/24'', ''dev'', ''ghost0''],
          [''ip'', ''link'', ''set'', ''ghost0'', ''mtu'', ''1400''],
          [''sysctl'', ''-w'', ''net.ipv6.conf.ghost0.disable_ipv6=1''],
          [''ip'', ''link'', ''set'', ''ghost0'', ''up''],
          [''sysctl'', ''-w'', ''net.ipv4.ip_forward=1''], nat_rule ''-A'' ''10.7.0.0/24'']\<rparr>,
      if isl bind then Inl 1 else Inr s)"
proof -
  let ?w = "working_world bind serve"
  let ?d = "\<lparr>td_fd = 7, td_name = ''ghost0'', td_mtu = 1400\<rparr>"
  have "digit_char (Suc 0) = CHR ''1''" "digit_char 4 = CHR ''4''" "digit_char 0 = CHR ''0''"
    by code_simp+
  then have name: "name_of_ifreq (ifreq_name ''ghost0'') = ''ghost0''" "show_int 1400 = ''1400''"
    by (simp_all add: name_of_ifreq_name ifname_size_def show_int_def show_nat.simps [of 1400]
        show_nat.simps [of 140] show_nat.simps [of 14] show_nat.simps [of "Suc 0"])
  have "decode_key '''' \<noteq> Inr (replicate 32 1)"
    by (simp add: decode_key_def key_encodings_def decode64_def key_size_def)
  then have nonempty: "encode_key (replicate 32 1) \<noteq> ''''"
    using decode_encode_key [of "replicate 32 1"] by (auto simp: key_size_def)
  have cfg: "load_server (sw_read_file ?w) (sw_yaml ?w) '''' = Inr working_config"
    using nonempty
    by (simp add: load_server_def working_world_def server_validate_def working_config_def tun_defaults_def Let_def)
  have key: "decode_key (sc_private_key working_config) = Inr (replicate 32 1)"
    by (simp add: working_config_def decode_encode_key key_size_def)
  have kp: "keypair_from_private (sw_x25519 ?w) (replicate 32 1) = Inr (replicate 32 1, replicate 32 1)"
    by (simp add: keypair_from_private_def key_size_def working_world_def)
  have dev: "new_device (sw_tun ?w) (sw_command ?w) (sc_tun working_config) \<lparr>kn_open = [], kn_commands = []\<rparr> =
      (\<lparr>kn_open = [7], kn_commands =
         [[''ip'', ''addr'', ''add'', ''10.7.0.1/24'', ''dev'', ''ghost0''],
          [''ip'', ''link'', ''set'', ''ghost0'', ''mtu'', ''1400''],
          [''sysctl'', ''-w'', ''net.ipv6.conf.ghost0.disable_ipv6=1''],
          [''ip'', ''link'', ''set'', ''ghost0'', ''up'']]\<rparr>, Inr ?d)"
    by (simp add: new_device_def device_command_defs Let_def name working_world_def working_config_def)
  have subnet: "subnet_from_address (tun_address (sc_tun working_config)) = Inr ''10.7.0.0/24''"
    using subnet_samples(1) by (simp add: working_config_def)
  have profile: "pick_profile (sw_read_profile ?w) (sw_json ?w) (sc_profile_path working_config) = Inr default_profile"
    by (simp add: pick_profile_def working_config_def)
  obtain p where proxy: "new_proxy (sw_parse_url ?w) (sc_fallback_target working_config) = Inr p"
    by (simp add: working_world_def new_proxy_def)
  have lst: "fst (listen (sw_key_pair ?w) (sw_listen ?w)
      \<lparr>lc_listen_addr = sc_listen working_config, lc_cert_file = sc_cert_file working_config,
       lc_key_file = sc_key_file working_config, lc_certificates = [], lc_next_protos = [],
       lc_tcp_keep_alive = 0\<rparr>) = (case bind of Inl e \<Rightarrow> Inl (Wrapf ''transport: tcp listen: %w'' e)
        | Inr l \<Rightarrow> Inr \<lparr>tl_tcp = l, tl_keep_alive = seconds 30, tl_min_version = tls12,
            tl_next_protos = [''h2'', ''http/1.1''], tl_certificates = [()]\<rparr>)"
    by (simp add: listen_def working_world_def working_config_def next_protos_def tcp_keep_alive_def
        split: sum.split)
  have cmd: "sw_command ?w c = ('''', None)" "sw_serve ?w = serve" for c
    by (simp_all add: working_world_def)
  show ?thesis
    unfolding prepare_server_def cfg
    by (simp add: key kp dev subnet profile proxy Let_def enable_ip_forward_def setup_nat_def
        device_command_defs split_def)
      (simp add: lst split: sum.split)
qed


text \<open>When the port is taken, the server exits and its masquerading rule stays in the kernel.\<close>

lemma bind_failure_leaves_nat_rule:
  "\<exists>k' cmds. server_main False (working_world (Inl e) None) '''' \<lparr>kn_open = [], kn_commands = []\<rparr> = (k', 1) \<and>
     kn_commands k' = cmds @ [nat_rule ''-A'' ''10.7.0.0/24'']"
  using working_prepare [of "Inl e" None] by (auto simp: server_main_def)

section \<open>Key files\<close>

lemma write_key_file_ok:
  assumes "write_key_file umask ans path contents mode fs = (fs', None)"
  shows "fs' = fs(path \<mapsto> ((case fs path of None \<Rightarrow> mode AND NOT umask | Some (m, t) \<Rightarrow> m),
    contents @ [CHR 0x0A]))"
  using assms
  by (auto simp: write_key_file_def open_truncated_def append_file_def Let_def
      split: option.splits prod.splits)

text \<open>
  after a successful \<^verbatim>\<open>ghost-tools keygen -out\<close> exactly the two files are written, \<^verbatim>\<open>DecodeKey\<close> reads the
  private and the public key back from them, and a private key file that did not exist is
  accessible to nobody but its owner.
\<close>

theorem keygen_files_read_back:
  assumes "keygen_cmd flags (Inr (priv, pub)) umask ans1 ans2 fs = (fs', out, 0)"
    and "kf_out flags = path" and "path \<noteq> ''''" and "length priv = 32" and "length pub = 32"
  shows "\<exists>m1 m2 t1 t2. fs' = fs(path \<mapsto> (m1, t1), path @ ''.pub'' \<mapsto> (m2, t2)) \<and> out = '''' \<and>
    decode_key t1 = Inr priv \<and> decode_key t2 = Inr pub \<and> (fs path = None \<longrightarrow> m1 AND 0x3F = 0)"
proof -
  obtain fs1 where w: "write_key_file umask ans1 path (encode_key priv) private_mode fs = (fs1, None)"
    "write_key_file umask ans2 (path @ ''.pub'') (encode_key pub) public_mode fs1 = (fs', None)"
    and out: "out = ''''"
    using assms(1-3)
    by (auto simp: keygen_cmd_def generate_keypair_def Let_def split: if_splits prod.splits option.splits)
  have "(a AND n) AND b = (a AND b) AND n" for a n b :: "32 word" by (simp add: ac_simps)
  from this [of private_mode "NOT umask" "0x3F"] have "(private_mode AND NOT umask) AND 0x3F = 0"
    by (simp add: private_mode_def)
  moreover obtain m2 where "fs' = fs1(path @ ''.pub'' \<mapsto> (m2, encode_key pub @ [CHR 0x0A]))"
    using write_key_file_ok [OF w(2)] by blast
  ultimately show ?thesis
    using write_key_file_ok [OF w(1)] out decode_encode_key [of priv] decode_encode_key [of pub] assms(4,5)
    by (intro exI [of _ "case fs path of None \<Rightarrow> private_mode AND NOT umask | Some (m, t) \<Rightarrow> m"]
        exI [of _ m2] exI [of _ "encode_key priv @ [CHR 0x0A]"] exI [of _ "encode_key pub @ [CHR 0x0A]"])
      (simp add: decode_key_newline key_size_def)
qed

lemma keygen_files_read_back_witness:
  "\<exists>m1 m2 t1 t2. fst (keygen_cmd \<lparr>kf_error = False, kf_rest = [], kf_out = ''key'', kf_public_only = False\<rparr>
      (Inr (replicate 32 5, replicate 32 9)) 0x12 \<lparr>fa_open = None, fa_write = None, fa_close = None\<rparr>
      \<lparr>fa_open = None, fa_write = None, fa_close = None\<rparr> (\<lambda>_. None)) =
      [''key'' \<mapsto> (m1, t1), ''key.pub'' \<mapsto> (m2, t2)] \<and>
    decode_key t1 = Inr (replicate 32 5) \<and> decode_key t2 = Inr (replicate 32 9) \<and> m1 AND 0x3F = 0"
proof -
  let ?ok = "\<lparr>fa_open = None, fa_write = None, fa_close = None\<rparr>"
  let ?flags = "\<lparr>kf_error = False, kf_rest = [], kf_out = ''key'', kf_public_only = False\<rparr>"
  obtain fs' where run: "keygen_cmd ?flags (Inr (replicate 32 5, replicate 32 9)) 0x12 ?ok ?ok (\<lambda>_. None) =
      (fs', '''', 0)"
    by (simp add: keygen_cmd_def generate_keypair_def Let_def write_key_file_def)
  from keygen_files_read_back [OF run, of "''key''"] run show ?thesis by force
qed

text \<open>A private key file that exists keeps its mode, whatever it allows.\<close>

lemma existing_key_file_keeps_mode:
  "\<exists>fs' t. keygen_cmd \<lparr>kf_error = False, kf_rest = [], kf_out = ''key'', kf_public_only = False\<rparr>
      (Inr (priv, pub)) umask \<lparr>fa_open = None, fa_write = None, fa_close = None\<rparr>
      \<lparr>fa_open = None, fa_write = None, fa_close = None\<rparr> [''key'' \<mapsto> (0x1B6, ''old'')] = (fs', '''', 0) \<and>
    fs' ''key'' = Some (0x1B6, t)"
  by (simp add: keygen_cmd_def generate_keypair_def Let_def write_key_file_def open_truncated_def
      append_file_def)

end
