(* ===== verification/Spec2Isabelle.thy ===== *)
theory Spec2Isabelle
  imports Client_Run Gateway_Run Handshake NM_Plugin Shaper Startup
begin

text \<open>
  A verification development for GHOST, a VPN whose tunnel hides in HTTPS traffic: a client and a
  server exchange IP packets as multiplexed frames, sealed with Noise and padded to look like web
  traffic, inside an HTTP/2 request that reaches a real web site unless it authenticates.

  The path of a packet, and the theory that models each part:

  \<^item> \<^verbatim>\<open>cmd/ghost-client/main.go\<close> (\<open>Client_Session\<close>): \<open>establish\<close>, the pipeline from the TUN device to the
    active session (\<open>client_tun_read\<close>, \<open>writer_take\<close>, \<open>writer_try\<close>), the stream readers, and the rotation
    loop, watchdog and shutdown that replace and close sessions; \<open>client_step\<close> interleaves them.
    \<open>Client_End\<close> joins them with the connection of each session (\<open>client_end_step\<close>), and \<open>Client_Run\<close> shows what
    its runs put on the network.
  \<^item> \<^verbatim>\<open>internal/tun/router.go\<close> (\<open>Tun_Router\<close>): on the server packets from the TUN device are queued for
    the stream of the session they are addressed to, packets from streams are checked and written to
    the device. \<open>client_bridge\<close> and \<open>bridge_step\<close> model \<^verbatim>\<open>Bridge\<close>; \<open>router\<close>, \<open>register\<close>, \<open>unregister\<close>,
    \<open>route_lookup\<close>, \<open>route_send\<close> and \<open>bridge_open\<close>, \<open>bridge_drain\<close>, \<open>bridge_inbound\<close>, \<open>bridge_return\<close> model
    \<^verbatim>\<open>TunRouter\<close>. The results of device and stream calls are the arguments of the steps.
  \<^item> \<^verbatim>\<open>internal/mux\<close> (\<open>Mux_Frame\<close>, \<open>Mux_Stream\<close>, \<open>Mux_Conn\<close>): the frame codec, the message queue and the
    chunked writes of a stream, and the connection with its stream table, \<open>dispatch\<close>, the read
    loop and the ping loop. Stream objects live in a heap, because the program shares pointers to them.
  \<^item> \<^verbatim>\<open>internal/shaper\<close> (\<open>Coalesce\<close>, \<open>Shaper\<close>) and \<^verbatim>\<open>internal/profile\<close> (\<open>Traffic_Profile\<close>): frames are
    batched, padded and sent with cover traffic; histograms are sampled, bursts kept to, and padding
    sent to hold the download:upload ratio. \<open>Go_Float\<close> is the \<^verbatim>\<open>float64\<close> arithmetic.
  \<^item> \<^verbatim>\<open>internal/crypto/frame_cipher.go\<close> and \<^verbatim>\<open>internal/auth/session.go\<close> (\<open>Frame_Cipher\<close>): every write
    is sealed as one length-prefixed AEAD message.
  \<^item> \<^verbatim>\<open>internal/auth\<close> (\<open>Auth\<close>, \<open>Keys\<close>, \<open>Replay\<close>): the Noise IK handshake wrappers, keys and their text
    forms and the anti-replay window.
  \<^item> \<^verbatim>\<open>internal/camouflage\<close> (\<open>Camouflage\<close>, \<open>Handshake\<close>): request routing, the handshake envelope, the
    tunnel handler that falls back to the cover site; the client's request, the server's answer, the
    HTTP/2 server's settings, and the relay between HTTP/2 stream and session as the steps of its two copy loops.
  \<^item> \<^verbatim>\<open>internal/fallback\<close> (\<open>Fallback\<close>): the proxy to the cover site; \<^verbatim>\<open>internal/transport\<close> (\<open>Transport\<close>): TLS
    dialling and listening; \<^verbatim>\<open>internal/tun/device.go\<close> (\<open>Tun_Device\<close>): the TUN device and its commands.
  \<^item> \<^verbatim>\<open>cmd/ghost-server/main.go\<close> (\<open>Server\<close>): \<^verbatim>\<open>onAuth\<close> and the table of active sessions. \<open>Startup\<close> has
    the beginning and end of both \<^verbatim>\<open>main\<close> functions and the key generator of \<^verbatim>\<open>cmd/ghost-tools\<close>.
    \<open>Gateway\<close> joins the table with the connections and the router (\<open>gateway_step\<close>), and \<open>Gateway_Run\<close> shows
    what its runs put on the network.
  \<^item> \<^verbatim>\<open>internal/config\<close>, \<^verbatim>\<open>nm-plugin/config.go\<close> and the rotation wait of the client (\<open>Config\<close>);
    \<^verbatim>\<open>nm-plugin/plugin.go\<close> and \<^verbatim>\<open>cmd/nm-ghost-service\<close> (\<open>NM_Plugin\<close>), the NetworkManager service, with
    the textual addresses it sends (\<open>Net_Address\<close>).
  \<^item> \<open>Prelude\<close> has bytes, errors, big-endian integers and log levels; \<open>Go_IO\<close> the reader and writer interfaces of
    Go's \<^verbatim>\<open>io\<close> package, \<^verbatim>\<open>io.ReadFull\<close>, pipes and the server's \<^verbatim>\<open>pipeReadWriter\<close>.

  Layers are tied by the locales of \<open>Go_IO\<close>: \<open>byte_source\<close> (bytes come in order, in pieces of any
  size), \<open>sticky_source\<close>, \<open>byte_sink\<close> and \<open>reliable_sink\<close> (writes up to a limit succeed while a budget
  lasts), by \<open>frame_sink\<close> in \<open>Mux_Frame\<close> and by \<open>message_queue\<close> in \<open>Mux_Stream\<close>. Pipes are interpreted as
  sources and sinks; the frame cipher is shown to turn a source into a source and a sink into a sink,
  the coalescer a byte sink into a frame sink, so that each protocol lemma is proved once, for every
  transport below it. The locale \<open>component\<close> of \<open>Composition\<close> is what a composed program owes a part of its
  state; the server's session table and router and the client's session manager are its interpretations.

  The compositions: \<open>Tunnel\<close> has the writing stack as the programs build it, and \<open>tunnel_end_to_end\<close> here
  composes it with the reading side for frames. \<open>Packet_Path\<close> goes from the handshake to the devices: the
  loops that move packets between a stream and a TUN device run over the streams themselves
  (\<open>uplink_reaches_the_device\<close>, \<open>downlink_reaches_the_client\<close>). \<open>Gateway\<close> is the running server: session
  table, one connection per session and the router under every interleaving of clients, network and
  device, with \<open>gateway_ok\<close> as its invariant. \<open>Client_End\<close> is the running client in the same way, with
  \<open>client_end_ok\<close>; the goroutines of one connection are \<open>end_step\<close> of \<open>Composition\<close> for both.
  \<open>client_run_reaches_the_device\<close> takes any run of the client, with its rotations and reconnections, to the
  server's device, and \<open>gateway_run_reaches_the_client\<close> any run of the server to the client's; what both need of the
  frames an end may say is in \<open>Conversation\<close>. \<open>tunnel_established\<close> in \<open>Handshake\<close> composes client, handler,
  authentication and session table, and \<open>request_to_device\<close> here goes from the request's bytes to the
  packets on the device.

  What the groups of lemmas show: codecs are round trips and refine byte-level parsers
  (\<open>Mux_Frame\<close>, \<open>Camouflage\<close>, \<open>Keys\<close>, \<open>Frame_Cipher\<close>, \<open>Net_Address\<close>); the replay window refines a set of
  nonces; the concurrent parts keep an invariant under every interleaving of their locked sections
  (\<open>Mux_Conn\<close>, \<open>Coalesce\<close>, \<open>Tun_Router\<close>, \<open>Server\<close>, \<open>Gateway\<close>, \<open>Handshake\<close>, \<open>Client_Session\<close>,
  \<open>Client_End\<close>, \<open>NM_Plugin\<close>), from which
  isolation of sessions, order of delivery, release of blocked readers and of old sessions, recovery from a dead one and removal of
  the key file follow; sequences of fallible steps (\<open>Transport\<close>, \<open>Tun_Device\<close>, \<open>Startup\<close>,
  \<open>establish\<close>) release what they opened. Lemmas such as \<open>send_on_closed_channel_panics\<close>,
  \<open>rotation_races_watchdog\<close>, \<open>rotation_cuts_downlink\<close> or \<open>client_address_forwarded\<close> record runs that go wrong.

  Parameters: the Noise package (\<open>noise_law\<close>: paired states stay paired and open what was sealed, 16
  bytes longer; \<open>noise_lasts\<close>: sealing succeeds while nonces last; \<open>only_opens\<close>: the receiver accepts
  only the sender's next message; \<open>handshake_law\<close>), the Curve25519, YAML, JSON, TLS and HTTP/2 packages,
  files, processes, the kernel, clocks and random numbers. Each theorem with such a hypothesis has a
  witness on a concrete instance. Of the standard library, \<^verbatim>\<open>io.ReadFull\<close>, \<^verbatim>\<open>base64\<close>, \<^verbatim>\<open>net.ParseIP\<close>,
  \<^verbatim>\<open>net.ParseCIDR\<close>, \<^verbatim>\<open>net.SplitHostPort\<close> and others are modelled as far as the program uses them.

  Bounds: the frame cipher refuses a write over 61440 bytes, and a flush holds less than 1300
  bytes before its last frame, so \<open>tunnel_end_to_end\<close> is stated for payloads up to 60132 bytes
  (61440 - 1300 - 8); TUN packets are far smaller. Loops that depend on the environment are
  \<open>partial_function\<close>s whose value \<open>None\<close> is a call that never returns; the theorems prove they return.
  The padding property is stated for counters whose product with the target stays below \<open>2^53\<close>,
  where \<^verbatim>\<open>float64\<close> is exact. A step of the client seals at most two messages on each connection, so a run of \<open>n\<close>
  steps needs \<open>2 * n + 3\<close> nonces; a step of the server seals one, and its run needs \<open>n + 1\<close>.
  The fuel of the IPv6 parser is eight, the number of groups.

  Not modelled: TLS, HTTP/2 and D-Bus themselves, logging and flag parsing, version and usage texts, and
  the GTK editor, which is C. The path theorems fix that one side writes while the other reads; the pipes
  and the HTTP/2 relay between the two ends are a network that cuts the bytes anywhere.
\<close>

section \<open>The whole path of a frame\<close>

text \<open>
  C3: end to end. Two paired Noise sessions, the program's coalescer and frame cipher on one
  side and the frame cipher and the read loop on the other: whatever the order of frames, timer firings
  and cover ticks, whatever the random padding sizes, and however the transport cuts the sealed
  bytes, once the writer is closed the peer's read loop ends with \<^verbatim>\<open>io.EOF\<close> having dispatched
  exactly the frames written, each once, in order, PADDING aside, for frames with a payload of at
  most 60132 bytes and a nonce space that lasts.
\<close>

theorem tunnel_end_to_end:
  assumes law: "noise_law enc dec R" and lasts: "noise_lasts enc left" and step: "R s r"
    and small: "list_all (\<lambda>f. valid_frame f \<and> length (payload f) \<le> 60132) (offered evs)"
    and nonces: "length evs < left s"
  shows "let w = coal_run (fc_write enc pipe_write) (fc_close (\<lambda>w. (pipe_close w, None)))
                   (evs @ [Shut]) (tunnel_writer (new_session (Some s) t) rnd)
         in \<forall>rd. pipe_pending rd = pipe_sent (fc_wr (cc_inner w)) \<and> in_end rd = EOF \<longrightarrow>
           (\<exists>r' fs. visible fs = visible (offered evs) \<and>
              conn_read_loop (fc_read dec pipe_read) wr clock k
                (new_cipher rd () (Some (new_session t' (Some r)))) c =
              Some (r', conn_close ((dispatch_all wr c fs clock k)\<lparr>c_close_err := Some EOF\<rparr>)))"
  using tunnel_delivers_frames [OF assms] .

lemma tunnel_end_to_end_witness:
  "let w = coal_run (fc_write tag_enc pipe_write) (fc_close (\<lambda>w. (pipe_close w, None)))
             ([Put (control_frame type_stream_open 1 []), Cover_tick, Put (data_frame 1 [7])] @ [Shut])
             (tunnel_writer (new_session (Some 0) None) (sconst 3))
   in \<exists>r' fs. visible fs = [control_frame type_stream_open 1 [], data_frame 1 [7]] \<and>
        conn_read_loop (fc_read tag_dec pipe_read) pipe_write (\<lambda>_. 0) 0
          (new_cipher (pipe_join (fc_wr (cc_inner w))) () (Some (new_session None (Some 0))))
          (new_conn \<lparr>out_chunks = [], out_closed = False\<rparr> False True 0) =
        Some (r', conn_close ((dispatch_all pipe_write
          (new_conn \<lparr>out_chunks = [], out_closed = False\<rparr> False True 0) fs (\<lambda>_. 0) 0)
            \<lparr>c_close_err := Some EOF\<rparr>))"
proof -
  let ?evs = "[Put (control_frame type_stream_open 1 []), Cover_tick, Put (data_frame 1 [7])]"
  have lasts: "noise_lasts tag_enc (\<lambda>k. 4 + (0 :: nat) * k)"
    by (simp add: noise_lasts_def tag_enc_def)
  have small: "list_all (\<lambda>f. valid_frame f \<and> length (payload f) \<le> 60132) (offered ?evs)"
    by (simp add: valid_frame_def control_frame_def data_frame_def max_payload_def)
  have vis: "visible (offered ?evs) = [control_frame type_stream_open 1 [], data_frame 1 [7]]"
    by (simp add: visible_def control_frame_def data_frame_def frame_type_defs)
  have nonces: "length ?evs < 4 + (0 :: nat) * 0" by simp
  define W where "W = coal_run (fc_write tag_enc pipe_write) (fc_close (\<lambda>w. (pipe_close w, None)))
    (?evs @ [Shut]) (tunnel_writer (new_session (Some 0) None) (sconst 3))"
  have "pipe_pending rd = pipe_sent (fc_wr (cc_inner W)) \<and> in_end rd = EOF \<Longrightarrow>
      \<exists>r' fs. visible fs = visible (offered ?evs) \<and>
        conn_read_loop (fc_read tag_dec pipe_read) pipe_write (\<lambda>_. 0) 0
          (new_cipher rd () (Some (new_session None (Some 0))))
          (new_conn \<lparr>out_chunks = [], out_closed = False\<rparr> False True 0) =
        Some (r', conn_close ((dispatch_all pipe_write
          (new_conn \<lparr>out_chunks = [], out_closed = False\<rparr> False True 0) fs (\<lambda>_. 0) 0)
            \<lparr>c_close_err := Some EOF\<rparr>))" for rd
    using tunnel_end_to_end [where s = 0 and r = 0 and t = None and t' = None and rnd = "sconst 3"
        and k = 0, OF tag_law lasts refl small nonces]
    unfolding W_def Let_def by blast
  from this [of "pipe_join (fc_wr (cc_inner W))"] show ?thesis
    unfolding Let_def W_def [symmetric] vis by simp
qed

section \<open>The whole path of a packet\<close>

text \<open>
  packets through the tunnel. A client opens a stream on a new connection over the program's
  writing stack, writes packets to it, with the flush timer and the cover ticker firing at any time and
  any random padding, and closes the coalescer; the transport may cut the sealed bytes in any way.
  Then the server's read loop on the paired session ends, closed, having handed exactly one stream
  to its callback, and reading that stream with a buffer no smaller than any packet returns the
  packets one by one, in order, each once, and then the end of file.
\<close>

theorem packets_cross_the_tunnel:
  assumes law: "noise_law enc dec R" and lasts: "noise_lasts enc left" and step: "R s r"
    and packets: "list_all packet_ok (packets_of acts)" and nonces: "Suc (length acts) < left s"
  shows "let wr = fc_write enc pipe_write;
             client = client_actions wr 0 acts (fst (open_stream (coal_write wr)
               (new_conn (tunnel_writer (new_session (Some s) t) rnd) True False now)));
             wire = pipe_sent (fc_wr (cc_inner (fst (coal_close wr
               (fc_close (\<lambda>w. (pipe_close w, None))) (c_enc client)))))
         in \<forall>rd. pipe_pending rd = wire \<and> in_end rd = EOF \<longrightarrow>
           (\<exists>r' server. conn_read_loop (fc_read dec pipe_read) wr' clock k
                (new_cipher rd () (Some (new_session t' (Some r)))) (new_conn w False True now') =
                Some (r', server) \<and> c_done server \<and> c_spawned server = [0] \<and>
              (\<forall>n. (\<forall>p\<in>set (packets_of acts). length p \<le> n) \<longrightarrow>
                (\<exists>s'. recv_many stream_read (c_heap server ! 0) n (length (packets_of acts)) =
                    Some (s', packets_of acts) \<and> stream_read s' n = Some (s', [], Some EOF))))"
proof -
  let ?wr = "fc_write enc pipe_write" and ?ps = "packets_of acts"
  let ?sent = "stream_moves enc 0 acts (client_connection enc (new_session (Some s) t) rnd now)"
  have "\<exists>r' server. conn_read_loop (fc_read dec pipe_read) wr' clock k
        (new_cipher rd () (Some (new_session t' (Some r)))) (new_conn w False True now') = Some (r', server) \<and>
      c_done server \<and> c_spawned server = [0] \<and>
      (\<forall>n. (\<forall>p\<in>set ?ps. length p \<le> n) \<longrightarrow>
        (\<exists>s'. recv_many stream_read (c_heap server ! 0) n (length ?ps) = Some (s', ?ps) \<and>
          stream_read s' n = Some (s', [], Some EOF)))"
    if "pipe_pending rd = wire_of enc ?sent" and "in_end rd = EOF" for rd
    using client_packets_arrive [OF law lasts step packets nonces that, where t' = t' and wr = wr'
        and clock = clock and k = k and w = w and now' = now'] stream_read_out by blast
  then show ?thesis
    unfolding Let_def wire_of_def stream_moves_def client_connection_def by blast
qed

lemma packets_cross_the_tunnel_witness:
  "\<exists>rd r' server s'. conn_read_loop (fc_read tag_dec pipe_read) pipe_write (\<lambda>_. 0) 0
      (new_cipher rd () (Some (new_session None (Some 0))))
      (new_conn \<lparr>out_chunks = [], out_closed = False\<rparr> False True 0) = Some (r', server) \<and>
    c_spawned server = [0] \<and> recv_many stream_read (c_heap server ! 0) 2 2 = Some (s', [[7, 8], [9]])"
proof -
  let ?acts = "[Cover, Send [7, 8], Fire, Send [9]]"
  let ?wr = "fc_write tag_enc pipe_write"
  have lasts: "noise_lasts tag_enc (\<lambda>k. 6 + (0 :: nat) * k)"
    by (simp add: noise_lasts_def tag_enc_def)
  have packets: "list_all packet_ok (packets_of ?acts)" and nonces: "Suc (length ?acts) < 6 + (0 :: nat) * 0"
    by (simp_all add: packets_of_def packet_ok_def)
  have ps: "packets_of ?acts = [[7, 8], [9]]" by (simp add: packets_of_def)
  define W where "W = fc_wr (cc_inner (fst (coal_close ?wr (fc_close (\<lambda>w. (pipe_close w, None)))
    (c_enc (client_actions ?wr 0 ?acts (fst (open_stream (coal_write ?wr)
      (new_conn (tunnel_writer (new_session (Some 0) None) (sconst 3)) True False 0))))))))"
  have "pipe_pending (pipe_join W) = pipe_sent W" "in_end (pipe_join W) = EOF" by simp_all
  with packets_cross_the_tunnel [where s = 0 and r = 0 and t = None and t' = None and rnd = "sconst 3"
      and now = 0 and wr' = pipe_write and clock = "\<lambda>_. 0" and k = 0 and now' = 0
      and w = "\<lparr>out_chunks = [], out_closed = False\<rparr>", OF tag_law lasts refl packets nonces,
      unfolded Let_def, folded W_def, rule_format, of "pipe_join W"]
  obtain r' server where run: "conn_read_loop (fc_read tag_dec pipe_read) pipe_write (\<lambda>_. 0) 0
      (new_cipher (pipe_join W) () (Some (new_session None (Some 0))))
      (new_conn \<lparr>out_chunks = [], out_closed = False\<rparr> False True 0) = Some (r', server)"
      "c_spawned server = [0]"
    and rd: "\<forall>n. (\<forall>p\<in>set (packets_of ?acts). length p \<le> n) \<longrightarrow>
      (\<exists>s'. recv_many stream_read (c_heap server ! 0) n (length (packets_of ?acts)) =
         Some (s', packets_of ?acts) \<and> stream_read s' n = Some (s', [], Some EOF))"
    by blast
  have len: "length [[7, 8], [9 :: byte]] = 2" and all: "\<forall>p\<in>set [[7, 8], [9 :: byte]]. length p \<le> 2" by simp_all
  from mp [OF spec [OF rd [unfolded ps], of 2] all] run show ?thesis unfolding len by blast
qed

section \<open>From the request to the device\<close>

text \<open>
  C1: the whole way of a client's packets. The client posts a request whose body is the envelope of its
  handshake message, followed by what its side of the tunnel writes: a stream opened, packets, with flush
  timer and cover ticker at any time and any random padding, and the close. However HTTP/2 cuts the body,
  the server authenticates the client, answers with the handshake reply and hands the rest of the body to its relay,
  which copies it into the session's pipe and returns; the read loop of the session just put in the table ends with
  one stream; and \<^verbatim>\<open>TunRouter.Bridge\<close> on that stream has written to the TUN device exactly the valid IP
  packets among those the client wrote, in order, each once.
\<close>

theorem request_to_device:
  fixes body :: pipe_in
  assumes hs: "handshake_law wr rd peers R" "peers i hs1"
    and resp: "new_responder new_hs kp = Inr hs" "responder_read rd hs msg1 = (hs1, Inr p)"
      "responder_write wr hs1 [] = (hs2, Inr (msg2, server))"
    and allowed: "sv_allowed sv = [] \<or> encode_key (peer_static hs1) \<in> set (sv_allowed sv)"
    and init: "initiator_read rd i msg2 = (i', Inr (q, client))"
    and msg1: "msg1 \<noteq> []" "length msg1 \<le> 4096"
    and law: "noise_law enc dec R" and lasts: "noise_lasts enc left"
    and packets: "list_all packet_ok (packets_of acts)" "packets_of acts = first # rest"
      "src_ip_key first \<noteq> []"
    and nonces: "\<forall>s\<in>set_option (ses_send client). Suc (length acts) < left s"
    and body: "pipe_pending body = pipe_sent (rq_body (tunnel_request path c msg1)) @
        wire_of enc (stream_moves enc 0 acts (client_connection enc client rnd now))" "in_end body = EOF"
    and buf: "\<forall>pkt\<in>set (packets_of acts). length pkt \<le> n"
  shows "\<exists>b b' relayed r' srv s' rt'.
    serve_http path (\<lambda>m. snd (on_auth new_hs rd wr peer_static kp m sv)) pipe_read
      (rq_method (tunnel_request path c msg1)) path body =
        Some (Tunnel msg2 (Some (length (sv_sessions sv))) b) \<and>
    copy_loop pipe_read pipe_write b \<lparr>out_chunks = [], out_closed = False\<rparr> = Some (b', relayed, EOF) \<and>
    (let ses = ss_keys (sv_sessions (fst (on_auth new_hs rd wr peer_static kp msg1 sv)) ! length (sv_sessions sv))
     in read_tunnel enc dec ses clock (pipe_join relayed) (server_connection ses rnd' now') = Some (r', srv)) \<and>
    c_spawned srv = [0] \<and>
    serve_stream n (\<lambda>_. None) (c_heap srv ! 0) rt = Some (s', rt', None) \<and>
    rt_tun rt' = rt_tun rt @ filter is_valid_ip_packet (packets_of acts)"
proof -
  let ?wire = "wire_of enc (stream_moves enc 0 acts (client_connection enc client rnd now))"
  from server_accepts [where peer_static = peer_static, OF resp allowed msg1 body(1)] body(2)
  obtain b where served: "serve_http path (\<lambda>m. snd (on_auth new_hs rd wr peer_static kp m sv)) pipe_read
      (rq_method (tunnel_request path c msg1)) path body =
        Some (Tunnel msg2 (Some (length (sv_sessions sv))) b)"
    and b: "pipe_pending b = ?wire" "in_end b = EOF"
    and keys: "ss_keys (sv_sessions (fst (on_auth new_hs rd wr peer_static kp msg1 sv)) !
      length (sv_sessions sv)) = server"
    by auto
  from relay_copies [of "\<lparr>out_chunks = [], out_closed = False\<rparr>" b] b obtain b' relayed where
    copied: "copy_loop pipe_read pipe_write b \<lparr>out_chunks = [], out_closed = False\<rparr> = Some (b', relayed, EOF)"
    "pipe_sent relayed = ?wire"
    by (auto simp: pipe_sent_def)
  have net: "pipe_pending (pipe_join relayed) = ?wire" "in_end (pipe_join relayed) = EOF"
    using copied(2) by simp_all
  from uplink [OF hs resp(3) init law lasts packets nonces net buf, where clock = clock and rnd' = rnd'
      and now' = now' and rt = rt] served copied(1)
  show ?thesis unfolding keys Let_def by blast
qed

lemma request_to_device_witness:
  "\<exists>body b relayed r' srv s' rt'.
    serve_http ''/t'' (\<lambda>m. snd (on_auth (\<lambda>_. Inr ()) toy_read toy_write (\<lambda>_. [])
        \<lparr>dh_private = replicate 32 0, dh_public = replicate 32 0\<rparr> m (new_server []))) pipe_read
      ''POST'' ''/t'' body = Some (Tunnel [7] (Some 0) b) \<and>
    read_tunnel tag_enc tag_dec (new_session (Some 100) (Some 0)) (\<lambda>_. 0) (pipe_join relayed)
      (server_connection (new_session (Some 100) (Some 0)) (sconst 5) 0) = Some (r', srv) \<and>
    serve_stream 1600 (\<lambda>_. None) (c_heap srv ! 0) new_tun_router = Some (s', rt', None) \<and>
    rt_tun rt' = [ping_packet]"
proof -
  let ?kp = "\<lparr>dh_private = replicate 32 0, dh_public = replicate 32 0\<rparr>"
  let ?c = "\<lparr>hc_server_url = '''', hc_host = ''h'', hc_user_agent = ''''\<rparr>"
  let ?sv = "new_server [] :: nat server"
  let ?acts = "[Send ping_packet, Fire, Send [9]]"
  define wire where "wire = wire_of tag_enc (stream_moves tag_enc 0 ?acts
    (client_connection tag_enc (new_session (Some 0) (Some 100)) (sconst 3) 0))"
  let ?body = "\<lparr>in_chunks = [[0, 1], [9], wire], in_end = EOF\<rparr>"
  have r: "new_responder (\<lambda>_. Inr ()) ?kp = Inr ()" "responder_read toy_read () [9] = ((), Inr [])"
    by (simp_all add: new_responder_def key_size_def responder_read_def toy_read_def)
  have allowed: "sv_allowed ?sv = [] \<or> encode_key ((\<lambda>_. []) ()) \<in> set (sv_allowed ?sv)"
    by (simp add: new_server_def)
  have body: "pipe_pending ?body = pipe_sent (rq_body (tunnel_request ''/t'' ?c [9])) @
      wire_of tag_enc (stream_moves tag_enc 0 ?acts
        (client_connection tag_enc (new_session (Some 0) (Some 100)) (sconst 3) 0))" "in_end ?body = EOF"
    by (simp_all add: envelope_body_sent pipe_pending_def put_be16_def wire_def)
  have ps: "packets_of ?acts = [ping_packet, [9]]" by (simp add: packets_of_def)
  have facts: "list_all packet_ok (packets_of ?acts)" "src_ip_key ping_packet \<noteq> []"
    "\<forall>s\<in>set_option (ses_send (new_session (Some 0) (Some 100))). Suc (length ?acts) < 6 + (0 :: nat) * s"
    "\<forall>pkt\<in>set (packets_of ?acts). length pkt \<le> 1600"
    by (simp_all add: ps ping_packet_simps new_session_def) (simp add: packet_ok_def)
  have msg1: "[9 :: byte] \<noteq> []" "length [9 :: byte] \<le> 4096" by simp_all
  note all = request_to_device [where peer_static = "\<lambda>_. []", OF toy_handshake_law TrueI r toy_session(1)
      allowed toy_session(2) msg1 tag_law tag_lasts facts(1) ps facts(2,3) body facts(4),
      where rnd' = "sconst 5" and now' = 0 and clock = "\<lambda>_. 0" and rt = new_tun_router]
  have len: "length (sv_sessions ?sv) = 0"
    and keys: "ss_keys (sv_sessions (fst (on_auth (\<lambda>_. Inr ()) toy_read toy_write (\<lambda>_. []) ?kp [9] ?sv)) ! 0) =
      new_session (Some 100) (Some 0)"
    by (simp_all add: on_auth_def authenticate_def r toy_session install_session_def fresh_session_def
        new_server_def Let_def)
  have dev: "rt_tun new_tun_router @ filter is_valid_ip_packet [ping_packet, [9]] = [ping_packet]"
    by (simp add: ping_packet_simps new_tun_router_def) (simp add: is_valid_ip_packet_def ip_version_def)
  have post: "rq_method (tunnel_request ''/t'' ?c [9]) = ''POST''"
    by (simp add: tunnel_request_def tunnel_method_def)
  from all show ?thesis unfolding len keys ps Let_def dev post by blast
qed

section \<open>Padding written by hand\<close>

text \<open>
  C35: the PADDING frame that the coalescer writes byte by byte into its buffer is, for every size it
  uses, what the multiplexer's encoder writes for a PADDING frame on stream 0: on any writer the two
  leave the same state and the same error. The receiving connection drops it without a change.
\<close>

theorem hand_built_padding_is_a_frame:
  assumes "n \<le> max_payload"
  shows "write_frame wr w (padding_frame n) =
      (case wr w (padding_bytes n) of (w', written, e) \<Rightarrow> (w', e)) \<and>
    encode_frame (padding_frame n) = padding_bytes n \<and>
    dispatch wr' c (padding_frame n) now = c"
proof -
  have "dispatch wr' c (padding_frame n) now = c"
    by (simp add: dispatch_def padding_frame_def frame_type_defs)
  moreover have "write_frame wr w (padding_frame n) =
      (case wr w (padding_bytes n) of (w', written, e) \<Rightarrow> (w', e))"
    using assms by (simp add: write_frame_def padding_bytes_frame padding_frame_def)
  ultimately show ?thesis by (simp add: padding_bytes_frame)
qed

lemma hand_built_padding_is_a_frame_witness:
  "write_frame pipe_write \<lparr>out_chunks = [], out_closed = False\<rparr> (padding_frame 2) =
     (\<lparr>out_chunks = [[1, 5, 0, 0, 0, 0, 0, 2, 0, 0]], out_closed = False\<rparr>, None)"
proof -
  have bytes: "padding_bytes 2 = [1, 5, 0, 0, 0, 0, 0, 2, 0, 0]" by code_simp
  have "2 \<le> max_payload" by (simp add: max_payload_def)
  from hand_built_padding_is_a_frame [OF this, of pipe_write "\<lparr>out_chunks = [], out_closed = False\<rparr>"
      pipe_write "new_conn \<lparr>out_chunks = [], out_closed = False\<rparr> True False 0" 0]
  show ?thesis unfolding bytes by (simp add: pipe_write_def)
qed

end
